(* ===== verification/Prelude.thy ===== *)
theory Prelude
  imports Main "HOL-Library.Word" "HOL-Library.Multiset"
begin

text \<open>
  Shared vocabulary of the development: the machine integers of the code, its exceptions and
  fallible results, the contract of \<open>std::condition_variable_any::wait\<close> with a stop token
  (used by the task queue and the priority scheduler), step-indexed reachability of a transition
  system, the invariant locales every concurrent component interprets, and generic lemmas.
\<close>

named_theorems tq_defs "definitions of the task queue operations"
named_theorems sched_defs "definitions of the priority scheduler operations"
named_theorems lf_defs "definitions of the lock-free queue operations"
named_theorems pool_defs "definitions of the thread pool operations"
named_theorems log_defs "definitions of the logger operations"

section \<open>Machine integers, exceptions, results\<close>

text \<open>\<open>std::size_t\<close> and \<open>std::uint64_t\<close> on the LP64 platforms the project builds for.\<close>

type_synonym size_t = "64 word"
type_synonym uint64 = "64 word"

text \<open>
  The exceptions that travel through the engine: \<open>std::runtime_error\<close> with its message,
  \<open>std::future_error\<close>, and whatever a user callable throws.
\<close>

datatype exn = Runtime_error string | Future_error string | User_exn string

type_synonym 'a outcome = "exn + 'a"

text \<open>Sequencing of code that may throw: an exception skips the rest.\<close>

definition and_then :: "'a outcome \<Rightarrow> ('a \<Rightarrow> 'b outcome) \<Rightarrow> 'b outcome" where
  "and_then r f = (case r of Inl e \<Rightarrow> Inl e | Inr x \<Rightarrow> f x)"

lemma and_then_simps [simp]:
  "and_then (Inl e) f = Inl e"
  "and_then (Inr x) f = f x"
  by (simp_all add: and_then_def)

lemma and_then_Inr [simp]: "and_then r Inr = r"
  by (cases r) simp_all

lemma and_then_assoc: "and_then (and_then r f) g = and_then r (\<lambda>x. and_then (f x) g)"
  by (cases r) simp_all

section \<open>Waiting on a condition variable with a stop token\<close>

text \<open>
  \<open>cv.wait(lock, stoken, pred)\<close> is \<open>while (!stoken.stop_requested()) \{ if (pred()) return
  true; wait(lock); \} return pred();\<close>. One evaluation under the lock therefore returns
  \<open>Some b\<close> (the call returns \<open>b\<close>) or \<open>None\<close> (the thread goes to sleep).
\<close>

definition cv_wait :: "bool \<Rightarrow> bool \<Rightarrow> bool option" where
  "cv_wait stop p = (if stop then Some p else if p then Some True else None)"

lemma cv_wait_None [simp]: "cv_wait stop p = None \<longleftrightarrow> \<not> stop \<and> \<not> p"
  by (simp add: cv_wait_def)

lemma cv_wait_Some [simp]: "cv_wait stop p = Some b \<longleftrightarrow> (stop \<or> p) \<and> b = p"
  by (auto simp: cv_wait_def)

text \<open>The result of one evaluation of a blocking call.\<close>

datatype 'a waited = Blocked | Returned 'a

section \<open>Reachability in a bounded number of steps\<close>

inductive reach :: "('s \<Rightarrow> bool) \<Rightarrow> ('s \<Rightarrow> 's \<Rightarrow> bool) \<Rightarrow> nat \<Rightarrow> 's \<Rightarrow> bool"
  for init :: "'s \<Rightarrow> bool" and step :: "'s \<Rightarrow> 's \<Rightarrow> bool" where
  start: "init s \<Longrightarrow> reach init step 0 s"
| more: "reach init step n s \<Longrightarrow> step s t \<Longrightarrow> reach init step (Suc n) t"

inductive_cases reach_SucE: "reach init step (Suc n) t"

text \<open>
  A step-indexed invariant, kept as long as at most \<open>bound\<close> steps have been taken: the form
  the counters of fixed width need.
\<close>

locale bounded_invariant =
  fixes init :: "'s \<Rightarrow> bool" and step :: "'s \<Rightarrow> 's \<Rightarrow> bool"
    and bound :: nat and inv :: "nat \<Rightarrow> 's \<Rightarrow> bool"
  assumes inv_init: "init s \<Longrightarrow> inv 0 s"
    and inv_step: "inv n s \<Longrightarrow> step s t \<Longrightarrow> n < bound \<Longrightarrow> inv (Suc n) t"
begin

lemma reach_inv:
  assumes "reach init step n s" and "n \<le> bound"
  shows "inv n s"
  using assms
proof (induction rule: reach.induct)
  case (start s)
  then show ?case by (simp add: inv_init)
next
  case (more n s t)
  then show ?case by (simp add: inv_step)
qed

end

text \<open>An invariant of every reachable state, the special case that no bound limits.\<close>

locale state_invariant =
  fixes init :: "'s \<Rightarrow> bool" and step :: "'s \<Rightarrow> 's \<Rightarrow> bool" and inv :: "'s \<Rightarrow> bool"
  assumes state_init: "init s \<Longrightarrow> inv s"
    and state_step: "inv s \<Longrightarrow> step s t \<Longrightarrow> inv t"

sublocale state_invariant \<subseteq> bounded: bounded_invariant init step n "\<lambda>_. inv" for n
  by unfold_locales (auto intro: state_init state_step)

context state_invariant begin

lemma reach_state: "reach init step n s \<Longrightarrow> inv s"
  by (rule bounded.reach_inv) auto

end

lemma reach_more_steps:
  assumes "reach init step n s" "step\<^sup>*\<^sup>* s t"
  shows "\<exists>m. reach init step m t"
  using assms(2,1) by (induction rule: rtranclp_induct) (auto intro: reach.more)

text \<open>
  A refinement mapping: a detailed system whose states are mapped to those of another system. Each
  step of the detailed system is some steps of the other one, so its reachable states are mapped
  to reachable states, and every invariant of the other system holds of them.
\<close>

locale refinement_map =
  fixes init :: "'s \<Rightarrow> bool" and step :: "'s \<Rightarrow> 's \<Rightarrow> bool" and inv :: "'s \<Rightarrow> bool"
    and abs :: "'s \<Rightarrow> 'a" and a_init :: "'a \<Rightarrow> bool" and a_step :: "'a \<Rightarrow> 'a \<Rightarrow> bool"
  assumes map_init: "init s \<Longrightarrow> inv s \<and> (\<exists>m. reach a_init a_step m (abs s))"
    and map_step: "inv s \<Longrightarrow> step s t \<Longrightarrow> inv t \<and> a_step\<^sup>*\<^sup>* (abs s) (abs t)"
begin

lemma reach_abs: "reach init step n s \<Longrightarrow> inv s \<and> (\<exists>m. reach a_init a_step m (abs s))"
proof (induction rule: reach.induct)
  case (start s)
  then show ?case by (rule map_init)
next
  case (more n s t)
  then obtain m where m: "reach a_init a_step m (abs s)" by blast
  have t: "inv t" "a_step\<^sup>*\<^sup>* (abs s) (abs t)" using map_step more by blast+
  show ?case using t(1) reach_more_steps [OF m t(2)] by blast
qed

end

section \<open>Counting the threads at a control point\<close>

lemma count_list_update:
  "i < length xs \<Longrightarrow>
     count_list (xs[i := y]) x + of_bool (xs ! i = x) = count_list xs x + of_bool (y = x)"
proof (induction xs arbitrary: i)
  case Nil
  then show ?case by simp
next
  case (Cons z xs)
  show ?case
  proof (cases i)
    case 0
    then show ?thesis by simp
  next
    case (Suc j)
    then show ?thesis using Cons.IH [of j] Cons.prems by simp
  qed
qed

section \<open>Running a schedule\<close>

text \<open>A schedule of labelled actions; \<open>None\<close> when an action is not enabled.\<close>

fun run_schedule :: "('l \<Rightarrow> 's \<Rightarrow> 's option) \<Rightarrow> 'l list \<Rightarrow> 's \<Rightarrow> 's option" where
  "run_schedule act [] s = Some s"
| "run_schedule act (l # ls) s = (case act l s of None \<Rightarrow> None | Some t \<Rightarrow> run_schedule act ls t)"

lemma run_schedule_reach_from:
  assumes "\<And>l s t. act l s = Some t \<Longrightarrow> step s t"
    and "reach init step n s" and "run_schedule act ls s = Some t"
  shows "reach init step (n + length ls) t"
  using assms(2,3)
proof (induction ls arbitrary: n s)
  case Nil
  then show ?case by simp
next
  case (Cons l ls)
  then obtain u where u: "act l s = Some u" and run: "run_schedule act ls u = Some t"
    by (auto split: option.splits)
  have "reach init step (Suc n) u"
    using Cons.prems(1) assms(1) [OF u] by (rule reach.more)
  from Cons.IH [OF this run] show ?case by simp
qed

lemma run_schedule_reach:
  assumes "\<And>l s t. act l s = Some t \<Longrightarrow> step s t"
    and "init s" and "run_schedule act ls s = Some t"
  shows "reach init step (length ls) t"
  using run_schedule_reach_from [OF assms(1) reach.start [of init, OF assms(2)] assms(3)] by simp

lemma run_schedule_steps:
  assumes "\<And>l s t. act l s = Some t \<Longrightarrow> step s t" and "run_schedule act ls s = Some t"
  shows "step\<^sup>*\<^sup>* s t"
  using assms(2)
proof (induction ls arbitrary: s)
  case (Cons l ls)
  then obtain u where "act l s = Some u" "step\<^sup>*\<^sup>* u t" by (auto split: option.splits)
  then show ?case using assms(1) by (auto intro: converse_rtranclp_into_rtranclp)
qed simp

text \<open>To read off facts of a run that evaluation has established.\<close>

lemma case_Some_exists: "(case r of None \<Rightarrow> False | Some s \<Rightarrow> P s) \<Longrightarrow> \<exists>s. r = Some s \<and> P s"
  by (cases r) auto

end
