(* ===== verification/Task.thy ===== *)
theory Task
  imports Prelude
begin

text \<open>
  \<open>include/ate/task.hpp\<close>: the priority levels, the task wrapper (a callable with its
  metadata) and the comparison that orders tasks for a \<open>std::priority_queue\<close>.
\<close>

section \<open>Priority levels\<close>

datatype Priority = Priority_High | Priority_Normal | Priority_Low

text \<open>The underlying \<open>std::uint8_t\<close> values; the relational operators of the enum compare them.\<close>

primrec priority_value :: "Priority \<Rightarrow> nat" where
  "priority_value Priority_High = 0"
| "priority_value Priority_Normal = 1"
| "priority_value Priority_Low = 2"

lemma priority_value_inject [simp]: "priority_value p = priority_value q \<longleftrightarrow> p = q"
  by (cases p; cases q) simp_all

instantiation Priority :: linorder
begin

definition less_eq_Priority :: "Priority \<Rightarrow> Priority \<Rightarrow> bool" where
  "less_eq_Priority p q \<longleftrightarrow> priority_value p \<le> priority_value q"

definition less_Priority :: "Priority \<Rightarrow> Priority \<Rightarrow> bool" where
  "less_Priority p q \<longleftrightarrow> priority_value p < priority_value q"

instance
  by standard (auto simp: less_eq_Priority_def less_Priority_def)

end

section \<open>The task wrapper\<close>

text \<open>
  \<open>callable\<close> is a \<open>std::move_only_function\<close>; a default-constructed task holds an empty
  one (\<open>None\<close>).
\<close>

record 'c task =
  callable :: "'c option"
  priority :: Priority
  name :: string

definition Task_default :: "'c task" where
  "Task_default = \<lparr>callable = None, priority = Priority_Normal, name = []\<rparr>"

definition Task_make :: "'c option \<Rightarrow> Priority \<Rightarrow> string \<Rightarrow> 'c task" where
  "Task_make fn p n = \<lparr>callable = fn, priority = p, name = n\<rparr>"

text \<open>
  \<open>operator()\<close>. Invoking an empty \<open>std::move_only_function\<close> is undefined behaviour:
  \<open>None\<close>.
\<close>

definition task_invoke :: "'c task \<Rightarrow> ('c \<Rightarrow> 'r) \<Rightarrow> 'r option" where
  "task_invoke t run = map_option run (callable t)"

definition task_less :: "'c task \<Rightarrow> 'd task \<Rightarrow> bool" where
  "task_less a b \<longleftrightarrow> priority a > priority b"

lemma task_less_irrefl: "\<not> task_less a a"
  by (simp add: task_less_def)

lemma task_less_trans: "task_less a b \<Longrightarrow> task_less b c \<Longrightarrow> task_less a c"
  by (auto simp: task_less_def)

text \<open>Incomparability is equal priority, hence transitive: a strict weak order.\<close>

lemma task_less_incomparable: "\<not> task_less a b \<and> \<not> task_less b a \<longleftrightarrow> priority a = priority b"
  by (auto simp: task_less_def)

text \<open>
  The comparison is fit for a \<open>std::priority_queue\<close>: it is a strict weak order, and the
  tasks of a collection that no other task of it beats, one of which the queue pops, are exactly
  those of the most urgent (numerically smallest) priority in it.
\<close>

lemma task_order_pops_most_urgent:
  "\<not> task_less a a \<and> (task_less a b \<and> task_less b c \<longrightarrow> task_less a c) \<and>
   (\<not> task_less a b \<and> \<not> task_less b a \<longrightarrow> task_less a c = task_less b c) \<and>
   ((\<forall>u \<in> set ts. \<not> task_less t u) \<longleftrightarrow>
      (\<forall>u \<in> set ts. priority_value (priority t) \<le> priority_value (priority u)))"
  using task_less_trans [of a b c] task_less_incomparable [of a b]
  by (auto simp: task_less_irrefl task_less_def less_Priority_def)

lemma task_order_pops_most_urgent_witness:
  "let hi = Task_make (Some ''f'') Priority_High [];
       lo = Task_make (Some ''g'') Priority_Low [] in
     task_less lo hi \<and> (\<forall>u \<in> set [lo, hi, Task_default]. \<not> task_less hi u)"
proof -
  have "\<forall>u \<in> set [Task_make (Some ''g'') Priority_Low [], Task_make (Some ''f'') Priority_High [],
      Task_default]. \<not> task_less (Task_make (Some ''f'') Priority_High []) u"
    by (subst task_order_pops_most_urgent [THEN conjunct2, THEN conjunct2, THEN conjunct2])
      (simp add: Task_make_def)
  then show ?thesis
    by (simp add: Let_def Task_make_def task_less_def less_Priority_def)
qed

end
