(* ===== verification/Task_Queue.thy ===== *)
theory Task_Queue
  imports Prelude
begin

text \<open>
  \<open>include/ate/task_queue.hpp\<close>: the mutex-based queue. Every member function holds the mutex
  for its whole access to the state, so each is one atomic operation on the record below; the
  condition variable shows as the \<open>Blocked\<close> answer of \<open>wait_and_pop\<close> (who is woken, and
  when, is part of the thread pool's step relation). The interface a client relies on is the
  locale \<open>fifo_queue\<close>.
\<close>

section \<open>State and operations\<close>

record 'a task_queue =
  tasks :: "'a list"
  shutdown_flag :: bool

definition TaskQueue :: "'a task_queue" where
  [tq_defs]: "TaskQueue = \<lparr>tasks = [], shutdown_flag = False\<rparr>"

definition push :: "'a \<Rightarrow> 'a task_queue \<Rightarrow> bool \<times> 'a task_queue" where
  [tq_defs]: "push task q =
     (if shutdown_flag q then (False, q) else (True, q\<lparr>tasks := tasks q @ [task]\<rparr>))"

definition try_pop :: "'a task_queue \<Rightarrow> 'a option \<times> 'a task_queue" where
  [tq_defs]: "try_pop q =
     (case tasks q of [] \<Rightarrow> (None, q) | task # rest \<Rightarrow> (Some task, q\<lparr>tasks := rest\<rparr>))"

text \<open>
  One evaluation of the blocking pop by a thread whose stop token reads \<open>stop\<close>: the wait
  either puts the thread to sleep or returns \<open>got_work\<close>.
\<close>

definition wait_and_pop :: "bool \<Rightarrow> 'a task_queue \<Rightarrow> ('a option \<times> 'a task_queue) waited" where
  [tq_defs]: "wait_and_pop stop q =
     (case cv_wait stop (tasks q \<noteq> [] \<or> shutdown_flag q) of
        None \<Rightarrow> Blocked
      | Some got_work \<Rightarrow>
          (if \<not> got_work \<or> tasks q = [] then Returned (None, q)
           else Returned (Some (hd (tasks q)), q\<lparr>tasks := tl (tasks q)\<rparr>)))"

definition shutdown :: "'a task_queue \<Rightarrow> 'a task_queue" where
  [tq_defs]: "shutdown q = q\<lparr>shutdown_flag := True\<rparr>"

definition size_approx :: "'a task_queue \<Rightarrow> nat" where
  [tq_defs]: "size_approx q = length (tasks q)"

definition is_shutdown :: "'a task_queue \<Rightarrow> bool" where
  [tq_defs]: "is_shutdown q = shutdown_flag q"

section \<open>The interface of a queue that can be closed\<close>

text \<open>
  What the engine relies on: an accepted push appends, a refused one changes nothing and happens
  only on a closed queue, a pop takes the oldest element, closing keeps the content.
\<close>

locale fifo_queue =
  fixes enq :: "'a \<Rightarrow> 'q \<Rightarrow> bool \<times> 'q"
    and deq :: "'q \<Rightarrow> 'a option \<times> 'q"
    and close_q :: "'q \<Rightarrow> 'q"
    and items :: "'q \<Rightarrow> 'a list"
    and closed :: "'q \<Rightarrow> bool"
  assumes enq_accepts: "fst (enq x q) \<longleftrightarrow> \<not> closed q"
    and enq_items: "items (snd (enq x q)) = (if closed q then items q else items q @ [x])"
    and enq_closed: "closed (snd (enq x q)) = closed q"
    and deq_result: "fst (deq q) = (case items q of [] \<Rightarrow> None | x # _ \<Rightarrow> Some x)"
    and deq_items: "items (snd (deq q)) = tl (items q)"
    and deq_closed: "closed (snd (deq q)) = closed q"
    and close_items: "items (close_q q) = items q"
    and close_closed: "closed (close_q q)"
begin

text \<open>Push a whole list; pop \<open>n\<close> times, keeping what came out.\<close>

primrec enq_all :: "'a list \<Rightarrow> 'q \<Rightarrow> 'q" where
  "enq_all [] q = q"
| "enq_all (x # xs) q = enq_all xs (snd (enq x q))"

primrec deq_n :: "nat \<Rightarrow> 'q \<Rightarrow> 'a list \<times> 'q" where
  "deq_n 0 q = ([], q)"
| "deq_n (Suc n) q =
     (case deq q of (None, q') \<Rightarrow> ([], q')
      | (Some x, q') \<Rightarrow> (let (xs, q'') = deq_n n q' in (x # xs, q'')))"

lemma enq_all_items: "\<not> closed q \<Longrightarrow> items (enq_all xs q) = items q @ xs"
  by (induction xs arbitrary: q) (simp_all add: enq_items enq_closed)

lemma enq_all_closed: "closed q \<Longrightarrow> items (enq_all xs q) = items q"
  by (induction xs arbitrary: q) (simp_all add: enq_items enq_closed)

lemma deq_n_spec:
  "fst (deq_n n q) = take n (items q) \<and> items (snd (deq_n n q)) = drop n (items q)"
proof (induction n arbitrary: q)
  case 0
  then show ?case by simp
next
  case (Suc n)
  show ?case
  proof (cases "items q")
    case Nil
    then show ?thesis
      using deq_result [of q] deq_items [of q] by (auto split: prod.splits option.splits)
  next
    case (Cons x xs)
    then obtain q' where "deq q = (Some x, q')" and "items q' = xs"
      using deq_result [of q] deq_items [of q] by (cases "deq q") auto
    then show ?thesis
      using Cons Suc.IH [of q'] by (auto split: prod.splits)
  qed
qed

text \<open>First in, first out, over whole batches, through a close in between.\<close>

lemma batch_fifo:
  assumes "\<not> closed q" and "items q = []"
  shows "fst (deq_n (length xs) (close_q (enq_all xs q))) = xs"
  using assms by (simp add: deq_n_spec close_items enq_all_items)

end

interpretation tq: fifo_queue push try_pop shutdown tasks is_shutdown
  by unfold_locales (auto simp: tq_defs split: list.splits)

section \<open>Behaviour of the blocking pop\<close>

lemma wait_and_pop_blocks:
  "wait_and_pop stop q = Blocked \<longleftrightarrow> \<not> stop \<and> tasks q = [] \<and> \<not> shutdown_flag q"
  by (auto simp: wait_and_pop_def split: option.splits)

lemma wait_and_pop_returns:
  assumes "stop \<or> tasks q \<noteq> [] \<or> shutdown_flag q"
  shows "wait_and_pop stop q = Returned (try_pop q)"
  using assms by (cases "tasks q") (auto simp: tq_defs cv_wait_def)

lemma wait_and_pop_eq:
  "wait_and_pop stop q =
     (if \<not> stop \<and> tasks q = [] \<and> \<not> shutdown_flag q then Blocked else Returned (try_pop q))"
  using wait_and_pop_returns [of stop q] wait_and_pop_blocks [of stop q] by auto

section \<open>Properties\<close>

text \<open>
  First in, first out, through a shutdown. Push any list of tasks into a new queue, shut it
  down, then pop as often: the tasks come out in the order of the pushes, none lost; the next
  pop finds the queue empty and a push is refused.
\<close>

lemma tq_batch_fifo:
  "fst (tq.deq_n (length xs) (shutdown (tq.enq_all xs TaskQueue))) = xs \<and>
   fst (try_pop (snd (tq.deq_n (length xs) (shutdown (tq.enq_all xs TaskQueue))))) = None \<and>
   \<not> fst (push x (shutdown (tq.enq_all xs TaskQueue)))"
proof -
  have "tasks (shutdown (tq.enq_all xs TaskQueue)) = xs"
    by (simp add: tq.close_items tq.enq_all_items tq_defs)
  then show ?thesis
    using tq.batch_fifo [of TaskQueue xs] tq.deq_n_spec [of "length xs" "shutdown (tq.enq_all xs TaskQueue)"]
    by (simp add: tq.deq_result tq.enq_accepts tq.close_closed)
qed

text \<open>
  The blocking pop, on every branch. It sleeps only when the queue is open and empty and no
  stop is requested. Otherwise it answers like \<open>try_pop\<close>: the oldest task if there is one, even
  after a stop request or a shutdown, and \<open>nullopt\<close> when the queue is empty.
\<close>

lemma wait_and_pop_correct:
  "wait_and_pop stop q =
     (if \<not> stop \<and> tasks q = [] \<and> \<not> is_shutdown q then Blocked
      else Returned (case tasks q of
          [] \<Rightarrow> (None, q)
        | task # rest \<Rightarrow> (Some task, q\<lparr>tasks := rest\<rparr>)))"
  by (simp add: wait_and_pop_eq try_pop_def is_shutdown_def)

end
