(* ===== verification/Scheduler.thy ===== *)
theory Scheduler
  imports Prelude
begin

text \<open>
  \<open>include/ate/scheduler.hpp\<close>: the four-level priority scheduler. A \<open>std::priority_queue\<close>
  under a mutex, ordered by priority and then by arrival (the sequence number given at push).
  As in the task queue, each member function is one atomic operation.
\<close>

section \<open>Priorities and prioritised tasks\<close>

datatype TaskPriority =
  TaskPriority_Low | TaskPriority_Normal | TaskPriority_High | TaskPriority_Critical

primrec task_priority_value :: "TaskPriority \<Rightarrow> nat" where
  "task_priority_value TaskPriority_Low = 0"
| "task_priority_value TaskPriority_Normal = 1"
| "task_priority_value TaskPriority_High = 2"
| "task_priority_value TaskPriority_Critical = 3"

lemma task_priority_value_inject [simp]:
  "task_priority_value p = task_priority_value q \<longleftrightarrow> p = q"
  by (cases p; cases q) simp_all

instantiation TaskPriority :: linorder
begin

definition less_eq_TaskPriority :: "TaskPriority \<Rightarrow> TaskPriority \<Rightarrow> bool" where
  "less_eq_TaskPriority p q \<longleftrightarrow> task_priority_value p \<le> task_priority_value q"

definition less_TaskPriority :: "TaskPriority \<Rightarrow> TaskPriority \<Rightarrow> bool" where
  "less_TaskPriority p q \<longleftrightarrow> task_priority_value p < task_priority_value q"

instance
  by standard (auto simp: less_eq_TaskPriority_def less_TaskPriority_def)

end

record 'a PriorityTask =
  func :: 'a
  task_priority :: TaskPriority
  sequence :: uint64

text \<open>\<open>operator<\<close>: the greater task is the one the max-heap yields first.\<close>

definition ptask_less :: "'a PriorityTask \<Rightarrow> 'a PriorityTask \<Rightarrow> bool" where
  "ptask_less a b \<longleftrightarrow>
     (if task_priority a \<noteq> task_priority b
      then task_priority_value (task_priority a) < task_priority_value (task_priority b)
      else sequence a > sequence b)"

lemma ptask_less_alt:
  "ptask_less a b \<longleftrightarrow>
     task_priority a < task_priority b \<or> task_priority a = task_priority b \<and> sequence b < sequence a"
  by (auto simp: ptask_less_def less_TaskPriority_def)

lemma ptask_less_irrefl: "\<not> ptask_less a a"
  by (simp add: ptask_less_def)

lemma ptask_less_trans: "ptask_less a b \<Longrightarrow> ptask_less b c \<Longrightarrow> ptask_less a c"
  by (auto simp: ptask_less_def split: if_splits)

lemma ptask_less_total: "sequence a \<noteq> sequence b \<Longrightarrow> ptask_less a b \<or> ptask_less b a"
  by (auto simp: ptask_less_def less_TaskPriority_def neq_iff)

section \<open>The max-queue behind it\<close>

text \<open>
  The contract of \<open>std::priority_queue\<close>: \<open>push\<close> inserts, \<open>top\<close> and \<open>pop\<close> take out an
  element no other one exceeds. \<open>extract\<close> is \<open>top\<close> followed by \<open>pop\<close>, the only way
  the scheduler uses them.
\<close>

locale max_queue =
  fixes less :: "'a \<Rightarrow> 'a \<Rightarrow> bool"
    and insert_q :: "'a \<Rightarrow> 'q \<Rightarrow> 'q"
    and extract_q :: "'q \<Rightarrow> ('a \<times> 'q) option"
    and elems :: "'q \<Rightarrow> 'a multiset"
  assumes insert_elems: "elems (insert_q x q) = add_mset x (elems q)"
    and extract_None: "extract_q q = None \<longleftrightarrow> elems q = {#}"
    and extract_elems: "extract_q q = Some (x, q') \<Longrightarrow> elems q = add_mset x (elems q')"
    and extract_max: "extract_q q = Some (x, q') \<Longrightarrow> y \<in># elems q' \<Longrightarrow> \<not> less x y"
begin

primrec extract_n :: "nat \<Rightarrow> 'q \<Rightarrow> 'a list" where
  "extract_n 0 q = []"
| "extract_n (Suc n) q =
     (case extract_q q of None \<Rightarrow> [] | Some (x, q') \<Rightarrow> x # extract_n n q')"

lemma extract_size: "extract_q q = Some (x, q') \<Longrightarrow> size (elems q) = Suc (size (elems q'))"
  by (simp add: extract_elems)

lemma extract_n_all: "size (elems q) \<le> n \<Longrightarrow> mset (extract_n n q) = elems q"
proof (induction n arbitrary: q)
  case 0
  then show ?case by simp
next
  case (Suc n)
  show ?case
  proof (cases "extract_q q")
    case None
    then show ?thesis using extract_None [of q] by simp
  next
    case (Some p)
    obtain x q' where p: "p = (x, q')" by (cases p)
    have "size (elems q') \<le> n"
      using Suc.prems Some extract_size [of q x q'] by (simp add: p)
    then show ?thesis
      using Suc.IH [of q'] Some extract_elems [of q x q'] by (simp add: p)
  qed
qed

lemma extract_n_subset: "set (extract_n n q) \<subseteq> set_mset (elems q)"
proof (induction n arbitrary: q)
  case (Suc n)
  show ?case
  proof (cases "extract_q q")
    case (Some p)
    obtain x q' where p: "p = (x, q')" by (cases p)
    show ?thesis using Suc.IH [of q'] extract_elems [of q x q'] Some p by auto
  qed simp
qed simp

lemma extract_n_ordered: "sorted_wrt (\<lambda>x y. \<not> less x y) (extract_n n q)"
proof (induction n arbitrary: q)
  case (Suc n)
  show ?case
  proof (cases "extract_q q")
    case (Some p)
    obtain x q' where p: "p = (x, q')" by (cases p)
    have "\<forall>y \<in> set (extract_n n q'). \<not> less x y"
      using extract_n_subset [of n q'] extract_max [of q x q'] Some p by blast
    then show ?thesis
      using Some p Suc.IH [of q'] by simp
  qed simp
qed simp

text \<open>With a strict ranking of the elements the order of extraction is the only possible one.\<close>

lemma extract_n_unique:
  assumes "sorted_wrt (\<lambda>x y. less y x) xs" and "mset xs = elems q"
  shows "extract_n (length xs) q = xs"
  using assms
proof (induction xs arbitrary: q)
  case (Cons x xs)
  then have "elems q \<noteq> {#}" by auto
  then obtain y q' where q: "extract_q q = Some (y, q')"
    using extract_None [of q] by (cases "extract_q q") auto
  have y: "add_mset y (elems q') = add_mset x (mset xs)"
    using extract_elems [OF q] Cons.prems(2) by simp
  have "x = y"
  proof (rule ccontr)
    assume "x \<noteq> y"
    then have "y \<in> set xs" and "x \<in># elems q'"
      using y by (metis add_mset_eq_single insert_noteq_member insert_iff set_mset_add_mset_insert
          set_mset_mset union_single_eq_member, metis insert_noteq_member insert_iff
          set_mset_add_mset_insert union_single_eq_member)
    then show False using Cons.prems(1) extract_max [OF q, of x] by auto
  qed
  then show ?case using Cons.IH [of q'] Cons.prems(1) y q by simp
qed simp

end

text \<open>The model of the container: an unordered list from which the greatest element is taken.\<close>

fun pq_extract :: "'a PriorityTask list \<Rightarrow> ('a PriorityTask \<times> 'a PriorityTask list) option" where
  "pq_extract [] = None"
| "pq_extract (x # xs) =
     (case pq_extract xs of
        None \<Rightarrow> Some (x, [])
      | Some (y, ys) \<Rightarrow> if ptask_less x y then Some (y, x # ys) else Some (x, xs))"

definition pq_push :: "'a PriorityTask \<Rightarrow> 'a PriorityTask list \<Rightarrow> 'a PriorityTask list" where
  "pq_push x q = q @ [x]"

lemma pq_extract_None [simp]: "pq_extract q = None \<longleftrightarrow> q = []"
  by (cases q) (auto split: option.splits)

lemma pq_extract_mset: "pq_extract q = Some (x, q') \<Longrightarrow> mset q = add_mset x (mset q')"
  by (induction q arbitrary: x q') (auto split: option.splits if_splits)

lemma pq_extract_max: "pq_extract q = Some (x, q') \<Longrightarrow> y \<in># mset q' \<Longrightarrow> \<not> ptask_less x y"
proof (induction q arbitrary: x q' y)
  case (Cons z zs)
  show ?case
  proof (cases "pq_extract zs")
    case None
    then show ?thesis using Cons.prems by auto
  next
    case (Some p)
    obtain m ms where p: "p = (m, ms)" by (cases p)
    have m: "\<not> ptask_less m u" if "u \<in># mset ms" for u
      using Cons.IH Some p that by blast
    have zs: "mset zs = add_mset m (mset ms)"
      using pq_extract_mset Some p by blast
    show ?thesis
    proof (cases "ptask_less z m")
      case True
      then show ?thesis
        using Cons.prems Some p m ptask_less_trans [of m z m] ptask_less_irrefl [of m] by auto
    next
      case False
      then have "x = z" and "y = m \<or> y \<in># mset ms"
        using Cons.prems Some p zs by (auto simp flip: set_mset_mset)
      moreover have "\<not> ptask_less z u" if "u \<in># mset ms" for u
        using False m [OF that] ptask_less_trans [of m z u]
        by (cases "sequence z = sequence m \<and> task_priority z = task_priority m")
          (auto simp: ptask_less_def split: if_splits)
      ultimately show ?thesis using False by blast
    qed
  qed
qed simp

interpretation pq: max_queue ptask_less pq_push pq_extract mset
  by unfold_locales
    (auto simp: pq_push_def dest: pq_extract_mset pq_extract_max)

section \<open>State and operations\<close>

record 'a scheduler =
  queue :: "'a PriorityTask list"
  next_seq :: uint64
  stopped :: bool

definition PriorityScheduler :: "'a scheduler" where
  [sched_defs]: "PriorityScheduler = \<lparr>queue = [], next_seq = 0, stopped = False\<rparr>"

definition sched_push :: "'a \<Rightarrow> TaskPriority \<Rightarrow> 'a scheduler \<Rightarrow> bool \<times> 'a scheduler" where
  [sched_defs]: "sched_push f p s =
     (if stopped s then (False, s)
      else (True, s\<lparr>queue := pq_push \<lparr>func = f, task_priority = p, sequence = next_seq s\<rparr> (queue s),
                    next_seq := next_seq s + 1\<rparr>))"

definition sched_try_pop :: "'a scheduler \<Rightarrow> 'a PriorityTask option \<times> 'a scheduler" where
  [sched_defs]: "sched_try_pop s =
     (case pq_extract (queue s) of
        None \<Rightarrow> (None, s)
      | Some (task, rest) \<Rightarrow> (Some task, s\<lparr>queue := rest\<rparr>))"

text \<open>The result of the wait is ignored; only the emptiness of the queue decides.\<close>

definition sched_wait_and_pop ::
    "bool \<Rightarrow> 'a scheduler \<Rightarrow> ('a PriorityTask option \<times> 'a scheduler) waited" where
  [sched_defs]: "sched_wait_and_pop stop s =
     (case cv_wait stop (queue s \<noteq> [] \<or> stopped s) of
        None \<Rightarrow> Blocked
      | Some _ \<Rightarrow>
          (case pq_extract (queue s) of
             None \<Rightarrow> Returned (None, s)
           | Some (task, rest) \<Rightarrow> Returned (Some task, s\<lparr>queue := rest\<rparr>)))"

definition sched_shutdown :: "'a scheduler \<Rightarrow> 'a scheduler" where
  [sched_defs]: "sched_shutdown s = s\<lparr>stopped := True\<rparr>"

definition sched_size :: "'a scheduler \<Rightarrow> nat" where
  [sched_defs]: "sched_size s = length (queue s)"

definition sched_empty :: "'a scheduler \<Rightarrow> bool" where
  [sched_defs]: "sched_empty s \<longleftrightarrow> queue s = []"

lemma sched_wait_and_pop_eq:
  "sched_wait_and_pop stop s =
     (if \<not> stop \<and> sched_empty s \<and> \<not> stopped s then Blocked else Returned (sched_try_pop s))"
  by (auto simp: sched_defs split: option.splits)

section \<open>The contract: the oldest of the most urgent tasks\<close>

text \<open>
  What the scheduler promises, without sequence numbers: the waiting tasks in the order of their
  arrival, and a pop that takes the first one of the greatest priority.
\<close>

record 'a sched_spec =
  waiting :: "('a \<times> TaskPriority) list"
  refused :: bool

definition most_urgent :: "('a \<times> TaskPriority) list \<Rightarrow> TaskPriority" where
  "most_urgent xs = Max (snd ` set xs)"

definition spec_pop ::
    "('a \<times> TaskPriority) list \<Rightarrow> (('a \<times> TaskPriority) \<times> ('a \<times> TaskPriority) list) option" where
  "spec_pop xs =
     (if xs = [] then None
      else let less_urgent = (\<lambda>x. snd x \<noteq> most_urgent xs);
               rest = dropWhile less_urgent xs
           in Some (hd rest, takeWhile less_urgent xs @ tl rest))"

definition strip :: "'a PriorityTask \<Rightarrow> 'a \<times> TaskPriority" where
  "strip t = (func t, task_priority t)"

definition sched_abs :: "'a scheduler \<Rightarrow> 'a sched_spec" where
  "sched_abs s = \<lparr>waiting = map strip (queue s), refused = stopped s\<rparr>"

text \<open>
  The invariant of the sequence numbers after at most \<open>n\<close> pushes: the next number is \<open>n\<close>
  itself as long as the 64-bit counter has not wrapped, and the queued numbers increase.
\<close>

definition sched_inv :: "nat \<Rightarrow> 'a scheduler \<Rightarrow> bool" where
  "sched_inv n s \<longleftrightarrow> unat (next_seq s) \<le> n \<and> sorted_wrt (\<lambda>a b. sequence a < sequence b) (queue s)
     \<and> (\<forall>t \<in> set (queue s). sequence t < next_seq s)"

lemma sched_inv_init: "sched_inv 0 PriorityScheduler"
  by (simp add: sched_inv_def PriorityScheduler_def)

lemma next_seq_Suc: "unat s \<le> n \<Longrightarrow> Suc n < 2 ^ 64 \<Longrightarrow> unat (s + 1) = Suc (unat s)" for s :: uint64
  by (simp add: unat_word_ariths)

lemma sched_inv_push:
  assumes inv: "sched_inv n s" and bound: "Suc n < 2 ^ 64"
  shows "sched_inv (Suc n) (snd (sched_push f p s))"
proof -
  from inv have le: "unat (next_seq s) \<le> n" by (simp add: sched_inv_def)
  note suc = next_seq_Suc [OF le bound]
  from suc have lt: "next_seq s < next_seq s + 1"
    by (simp add: word_less_nat_alt)
  show ?thesis
    using inv le lt suc
    by (auto simp: sched_inv_def sched_push_def pq_push_def sorted_wrt_append intro: less_trans)
qed

text \<open>Where the element the max-queue extracts stood in the queue.\<close>

lemma pq_extract_split:
  assumes "pq_extract q = Some (x, q')" and "sorted_wrt (\<lambda>a b. sequence a < sequence b) q"
  obtains pre post where "q = pre @ x # post" and "q' = pre @ post"
    and "\<forall>y \<in> set pre. task_priority y < task_priority x"
    and "\<forall>y \<in> set post. task_priority y \<le> task_priority x"
proof -
  have "\<exists>pre post. q = pre @ x # post \<and> q' = pre @ post"
    using assms(1)
  proof (induction q arbitrary: x q')
    case (Cons z zs)
    then show ?case
      by (fastforce split: option.splits if_splits intro: exI [of _ "z # _"] exI [of _ "[]"])
  qed simp
  then obtain pre post where q: "q = pre @ x # post" "q' = pre @ post" by blast
  have max: "\<not> ptask_less x y" if "y \<in> set pre \<union> set post" for y
    using pq_extract_max [OF assms(1)] that q by auto
  have "task_priority y < task_priority x" if "y \<in> set pre" for y
    using max [of y] that assms(2) q
    by (auto simp: ptask_less_alt sorted_wrt_append)
  moreover have "task_priority y \<le> task_priority x" if "y \<in> set post" for y
    using max [of y] that by (auto simp: ptask_less_alt)
  ultimately show thesis using that q by blast
qed

lemma spec_pop_split:
  assumes "\<forall>y \<in> set pre. snd y < snd x" and "\<forall>y \<in> set post. snd y \<le> snd x"
  shows "spec_pop (pre @ x # post) = Some (x, pre @ post)"
proof -
  have m: "most_urgent (pre @ x # post) = snd x"
    unfolding most_urgent_def using assms by (intro Max_eqI) force+
  have "takeWhile (\<lambda>y. snd y \<noteq> snd x) (pre @ x # post) = pre"
    and "dropWhile (\<lambda>y. snd y \<noteq> snd x) (pre @ x # post) = x # post"
    using assms(1) by (auto simp: takeWhile_append dropWhile_append)
  then show ?thesis by (simp add: spec_pop_def m Let_def)
qed

lemma pq_extract_abs:
  assumes "sorted_wrt (\<lambda>a b. sequence a < sequence b) q"
  shows "map_option (map_prod strip (map strip)) (pq_extract q) = spec_pop (map strip q)"
proof (cases "pq_extract q")
  case None
  then show ?thesis by (simp add: spec_pop_def)
next
  case (Some p)
  obtain x q' where p: "p = (x, q')" by (cases p)
  obtain pre post where s: "q = pre @ x # post" "q' = pre @ post"
    "\<forall>y \<in> set pre. task_priority y < task_priority x"
    "\<forall>y \<in> set post. task_priority y \<le> task_priority x"
    by (rule pq_extract_split [OF Some [unfolded p] assms])
  have "spec_pop (map strip pre @ strip x # map strip post) = Some (strip x, map strip pre @ map strip post)"
    using s by (intro spec_pop_split) (auto simp: strip_def)
  then show ?thesis using Some p s by simp
qed

lemma pq_extract_inv:
  assumes "pq_extract (queue s) = Some (x, q')" and "sched_inv n s"
  shows "sched_inv n (s\<lparr>queue := q'\<rparr>)"
proof -
  have "sorted_wrt (\<lambda>a b. sequence a < sequence b) (queue s)"
    using assms(2) by (simp add: sched_inv_def)
  with assms(1) obtain pre post where "queue s = pre @ x # post" "q' = pre @ post"
    by (rule pq_extract_split)
  then show ?thesis using assms(2) by (auto simp: sched_inv_def sorted_wrt_append)
qed

section \<open>Refinement for every sequence of operations\<close>

text \<open>
  The calls of all the threads, in the order in which they take the mutex, and what they return.
  A blocked wait leaves the state alone.
\<close>

datatype 'a sched_op =
  Op_push 'a TaskPriority | Op_try_pop | Op_wait_and_pop bool | Op_shutdown | Op_size | Op_empty

datatype 'a sched_ret =
  Ret_bool bool | Ret_task "('a \<times> TaskPriority) option" | Ret_blocked | Ret_unit | Ret_size nat

fun sched_exec :: "'a sched_op \<Rightarrow> 'a scheduler \<Rightarrow> 'a sched_ret \<times> 'a scheduler" where
  "sched_exec (Op_push f p) s = map_prod Ret_bool id (sched_push f p s)"
| "sched_exec Op_try_pop s = map_prod (Ret_task \<circ> map_option strip) id (sched_try_pop s)"
| "sched_exec (Op_wait_and_pop stop) s =
     (case sched_wait_and_pop stop s of
        Blocked \<Rightarrow> (Ret_blocked, s)
      | Returned r \<Rightarrow> map_prod (Ret_task \<circ> map_option strip) id r)"
| "sched_exec Op_shutdown s = (Ret_unit, sched_shutdown s)"
| "sched_exec Op_size s = (Ret_size (sched_size s), s)"
| "sched_exec Op_empty s = (Ret_bool (sched_empty s), s)"

definition spec_take :: "'a sched_spec \<Rightarrow> 'a sched_ret \<times> 'a sched_spec" where
  "spec_take a =
     (case spec_pop (waiting a) of
        None \<Rightarrow> (Ret_task None, a)
      | Some (x, rest) \<Rightarrow> (Ret_task (Some x), a\<lparr>waiting := rest\<rparr>))"

fun spec_exec :: "'a sched_op \<Rightarrow> 'a sched_spec \<Rightarrow> 'a sched_ret \<times> 'a sched_spec" where
  "spec_exec (Op_push f p) a =
     (if refused a then (Ret_bool False, a)
      else (Ret_bool True, a\<lparr>waiting := waiting a @ [(f, p)]\<rparr>))"
| "spec_exec Op_try_pop a = spec_take a"
| "spec_exec (Op_wait_and_pop stop) a =
     (if \<not> stop \<and> waiting a = [] \<and> \<not> refused a then (Ret_blocked, a)
      else spec_take a)"
| "spec_exec Op_shutdown a = (Ret_unit, a\<lparr>refused := True\<rparr>)"
| "spec_exec Op_size a = (Ret_size (length (waiting a)), a)"
| "spec_exec Op_empty a = (Ret_bool (waiting a = []), a)"

fun exec_all :: "('o \<Rightarrow> 's \<Rightarrow> 'r \<times> 's) \<Rightarrow> 'o list \<Rightarrow> 's \<Rightarrow> 'r list \<times> 's" where
  "exec_all ex [] s = ([], s)"
| "exec_all ex (c # cs) s =
     (let (r, s') = ex c s; (rs, s'') = exec_all ex cs s' in (r # rs, s''))"

lemma sched_abs_simps [simp]:
  "waiting (sched_abs s) = map strip (queue s)"
  "refused (sched_abs s) = stopped s"
  by (simp_all add: sched_abs_def)

lemma sched_try_pop_refines:
  assumes "sched_inv n s"
  shows "map_prod id sched_abs (sched_exec Op_try_pop s) = spec_take (sched_abs s)"
  using pq_extract_abs [of "queue s", symmetric] assms
  by (auto simp: sched_try_pop_def spec_take_def sched_inv_def sched_abs_def split: option.splits)

lemma sched_exec_refines:
  assumes "sched_inv n s"
  shows "map_prod id sched_abs (sched_exec c s) = spec_exec c (sched_abs s)"
proof (cases c)
  case (Op_push f p)
  then show ?thesis by (simp add: sched_push_def sched_abs_def pq_push_def strip_def)
next
  case (Op_wait_and_pop stop)
  then show ?thesis
    using sched_try_pop_refines [OF assms]
    by (auto simp: sched_wait_and_pop_eq sched_empty_def)
next
  case Op_try_pop
  then show ?thesis using sched_try_pop_refines [OF assms] by simp
qed (auto simp: sched_defs sched_abs_def)

lemma sched_inv_mono: "sched_inv n s \<Longrightarrow> n \<le> m \<Longrightarrow> sched_inv m s"
  by (simp add: sched_inv_def)

lemma sched_try_pop_inv: "sched_inv n s \<Longrightarrow> sched_inv n (snd (sched_try_pop s))"
  by (auto simp: sched_try_pop_def split: option.splits intro: pq_extract_inv)

lemma sched_exec_inv:
  assumes "sched_inv n s" and "Suc n < 2 ^ 64"
  shows "sched_inv (Suc n) (snd (sched_exec c s))"
proof (cases c)
  case (Op_push f p)
  then show ?thesis using sched_inv_push [OF assms] by simp
next
  case Op_shutdown
  then show ?thesis using assms by (simp add: sched_inv_def sched_shutdown_def)
qed (use assms in \<open>auto simp: sched_wait_and_pop_eq intro: sched_inv_mono dest: sched_try_pop_inv\<close>)

lemma exec_all_refines:
  assumes "sched_inv n s" and "n + length cs < 2 ^ 64"
  shows "map_prod id sched_abs (exec_all sched_exec cs s) = exec_all spec_exec cs (sched_abs s)"
  using assms
proof (induction cs arbitrary: n s)
  case Nil
  then show ?case by simp
next
  case (Cons c cs)
  obtain r s' where ex: "sched_exec c s = (r, s')" by fastforce
  have "sched_inv (Suc n) s'"
    using sched_exec_inv [OF Cons.prems(1), of c] Cons.prems(2) ex by simp
  then have "map_prod id sched_abs (exec_all sched_exec cs s') = exec_all spec_exec cs (sched_abs s')"
    using Cons.prems(2) by (intro Cons.IH) auto
  moreover have "spec_exec c (sched_abs s) = (r, sched_abs s')"
    using sched_exec_refines [OF Cons.prems(1), of c] ex by simp
  ultimately show ?case using ex by (auto split: prod.splits)
qed

section \<open>Draining\<close>

primrec sched_drain :: "nat \<Rightarrow> 'a scheduler \<Rightarrow> 'a PriorityTask list" where
  "sched_drain 0 s = []"
| "sched_drain (Suc n) s =
     (case sched_try_pop s of (None, s') \<Rightarrow> [] | (Some t, s') \<Rightarrow> t # sched_drain n s')"

lemma sched_drain_eq: "sched_drain n s = pq.extract_n n (queue s)"
  by (induction n arbitrary: s) (auto simp: sched_try_pop_def split: option.splits)

text \<open>The key that sorts the most urgent tasks to the front.\<close>

definition urgency_key :: "'a \<times> TaskPriority \<Rightarrow> nat" where
  "urgency_key x = 3 - task_priority_value (snd x)"

lemma urgency_key_less: "urgency_key x < urgency_key y \<longleftrightarrow> snd y < snd x"
  by (cases "snd x"; cases "snd y") (auto simp: urgency_key_def less_TaskPriority_def)

lemma urgency_key_le: "urgency_key x \<le> urgency_key y \<longleftrightarrow> snd y \<le> snd x"
  using urgency_key_less [of y x] by (auto simp: not_less [symmetric])

lemma sort_key_first:
  assumes "\<forall>y \<in> set pre. k x < k y" and "\<forall>y \<in> set post. k x \<le> k y"
  shows "sort_key k (pre @ x # post) = x # sort_key k (pre @ post)"
  using assms
proof (induction pre)
  case Nil
  then show ?case by (simp add: insort_is_Cons)
next
  case (Cons y pre)
  then show ?case by auto
qed

lemma spec_pop_cases:
  assumes "xs \<noteq> []"
  obtains pre x post where "xs = pre @ x # post" and "spec_pop xs = Some (x, pre @ post)"
    and "\<forall>y \<in> set pre. snd y < snd x" and "\<forall>y \<in> set post. snd y \<le> snd x"
proof -
  let ?m = "most_urgent xs"
  have le: "snd y \<le> ?m" if "y \<in> set xs" for y
    using that by (simp add: most_urgent_def)
  have "?m \<in> snd ` set xs" unfolding most_urgent_def using assms by (intro Max_in) auto
  then have "\<exists>z \<in> set xs. snd z = ?m" by force
  then obtain pre x post where xs: "xs = pre @ x # post" and x: "snd x = ?m"
    and pre: "\<forall>y \<in> set pre. snd y \<noteq> ?m"
    using split_list_first_prop [of xs "\<lambda>y. snd y = ?m"] by blast
  have "\<forall>y \<in> set pre. snd y < snd x" using pre le xs x by (auto simp: less_le)
  moreover have "\<forall>y \<in> set post. snd y \<le> snd x" using le xs x by auto
  ultimately show thesis using that [OF xs] xs spec_pop_split by metis
qed

lemma spec_pop_sort:
  assumes "xs \<noteq> []"
  shows "\<exists>x r. spec_pop xs = Some (x, r) \<and> length xs = Suc (length r)
    \<and> sort_key urgency_key xs = x # sort_key urgency_key r"
proof -
  obtain pre x post where "xs = pre @ x # post" and "spec_pop xs = Some (x, pre @ post)"
    and "\<forall>y \<in> set pre. snd y < snd x" and "\<forall>y \<in> set post. snd y \<le> snd x"
    by (rule spec_pop_cases [OF assms])
  then show ?thesis
    using sort_key_first [of pre urgency_key x post] by (simp add: urgency_key_less urgency_key_le)
qed

lemma spec_pops_sort:
  "fst (exec_all spec_exec (replicate (length (waiting a)) Op_try_pop) a)
     = map (Ret_task \<circ> Some) (sort_key urgency_key (waiting a))"
proof (induction "length (waiting a)" arbitrary: a)
  case 0
  then show ?case by simp
next
  case (Suc n)
  then have "waiting a \<noteq> []" by auto
  then obtain x r where *: "spec_pop (waiting a) = Some (x, r)" "length (waiting a) = Suc (length r)"
    "sort_key urgency_key (waiting a) = x # sort_key urgency_key r"
    using spec_pop_sort by blast
  have "fst (exec_all spec_exec (replicate (length r) Op_try_pop) (a\<lparr>waiting := r\<rparr>))
      = map (Ret_task \<circ> Some) (sort_key urgency_key r)"
    using Suc(1) [of "a\<lparr>waiting := r\<rparr>"] Suc(2) * by simp
  then show ?case using * by (auto simp: spec_take_def split: prod.splits)
qed

lemma exec_all_append:
  "exec_all ex (cs @ ds) s =
     (let (rs, s') = exec_all ex cs s; (qs, s'') = exec_all ex ds s' in (rs @ qs, s''))"
  by (induction cs arbitrary: s) (auto split: prod.splits)

lemma spec_pushes:
  "\<not> refused a \<Longrightarrow> exec_all spec_exec (map (\<lambda>(f, p). Op_push f p) xs) a
     = (replicate (length xs) (Ret_bool True), a\<lparr>waiting := waiting a @ xs\<rparr>)"
  by (induction xs arbitrary: a) auto

section \<open>Properties\<close>

text \<open>
  C4: Refinement. For every sequence of calls (in the order in which the threads take the mutex),
  starting from the constructed scheduler, every returned value is the one the contract gives:
  pushes are accepted until shutdown, a pop yields the longest-waiting task of the highest
  priority present, and an empty open scheduler blocks a waiter. The 64-bit sequence counter is
  kept at its width: the refinement holds below \<open>2 ^ 64\<close> calls.
\<close>

theorem sched_refines_spec:
  assumes "length cs < 2 ^ 64"
  shows "fst (exec_all sched_exec cs PriorityScheduler)
     = fst (exec_all spec_exec cs \<lparr>waiting = [], refused = False\<rparr>)"
proof -
  have "sched_abs PriorityScheduler = \<lparr>waiting = [], refused = False\<rparr>"
    by (simp add: sched_abs_def PriorityScheduler_def)
  then show ?thesis
    using exec_all_refines [OF sched_inv_init, of cs] assms
    by (metis add_0 fst_map_prod id_apply)
qed

theorem sched_refines_spec_witness:
  "fst (exec_all sched_exec
      [Op_push (1 :: nat) TaskPriority_Low, Op_push 2 TaskPriority_High, Op_push 3 TaskPriority_High,
       Op_try_pop, Op_shutdown, Op_push 4 TaskPriority_Critical, Op_wait_and_pop False]
      PriorityScheduler)
   = [Ret_bool True, Ret_bool True, Ret_bool True, Ret_task (Some (2, TaskPriority_High)), Ret_unit,
      Ret_bool False, Ret_task (Some (3, TaskPriority_High))]"
  by (subst sched_refines_spec, simp, code_simp)

text \<open>
  C25: Pushing a list of tasks and popping them all returns exactly the stable sort of the list
  by descending priority: higher priorities first, FIFO among equals.
\<close>

theorem sched_stable_sort:
  assumes "2 * length xs < 2 ^ 64"
  shows "fst (exec_all sched_exec
      (map (\<lambda>(f, p). Op_push f p) xs @ replicate (length xs) Op_try_pop) PriorityScheduler)
    = replicate (length xs) (Ret_bool True) @ map (Ret_task \<circ> Some) (sort_key urgency_key xs)"
proof -
  let ?cs = "map (\<lambda>(f, p). Op_push f p) xs @ replicate (length xs) Op_try_pop"
  let ?a = "\<lparr>waiting = [], refused = False\<rparr>"
  have "sched_abs PriorityScheduler = ?a"
    by (simp add: sched_abs_def PriorityScheduler_def)
  then have "fst (exec_all sched_exec ?cs PriorityScheduler) = fst (exec_all spec_exec ?cs ?a)"
    using exec_all_refines [OF sched_inv_init, of ?cs] assms
    by (metis add_0 fst_map_prod id_apply length_append length_map length_replicate mult_2)
  then show ?thesis
    using spec_pushes [of ?a xs] spec_pops_sort [of "?a\<lparr>waiting := xs\<rparr>"]
    by (auto simp: exec_all_append split: prod.splits)
qed

theorem sched_stable_sort_witness:
  "let xs = [(1 :: nat, TaskPriority_Low), (2, TaskPriority_Critical), (3, TaskPriority_Low)]
   in fst (exec_all sched_exec
        (map (\<lambda>(f, p). Op_push f p) xs @ replicate (length xs) Op_try_pop) PriorityScheduler)
      = replicate (length xs) (Ret_bool True) @ map (Ret_task \<circ> Some) (sort_key urgency_key xs)
    \<and> sort_key urgency_key xs
      = [(2, TaskPriority_Critical), (1, TaskPriority_Low), (3, TaskPriority_Low)]"
  unfolding Let_def by (rule conjI [OF sched_stable_sort]) (simp, simp add: urgency_key_def)

text \<open>
  From any state, wrapped counter included, draining the scheduler returns every queued task
  exactly once and never a task before one that outranks it.
\<close>

lemma sched_drain_complete_ordered:
  "mset (sched_drain (sched_size s) s) = mset (queue s)
   \<and> sorted_wrt (\<lambda>a b. \<not> ptask_less a b) (sched_drain (sched_size s) s)"
  by (simp add: sched_drain_eq pq.extract_n_all pq.extract_n_ordered sched_size_def)

text \<open>
  After shutdown every push is refused without effect, the queued tasks stay available to
  the pops, and no waiter sleeps any more.
\<close>

theorem sched_shutdown_semantics:
  "sched_push f p (sched_shutdown s) = (False, sched_shutdown s)
   \<and> queue (sched_shutdown s) = queue s
   \<and> sched_wait_and_pop stop (sched_shutdown s) = Returned (sched_try_pop (sched_shutdown s))"
  by (simp add: sched_wait_and_pop_eq) (simp add: sched_push_def sched_shutdown_def)

end
