(* ===== verification/Blocking_Queue.thy ===== *)
theory Blocking_Queue
  imports Task_Queue Scheduler
begin

text \<open>
  Many threads on one blocking queue: producers, consumers in \<open>wait_and_pop\<close>, polling consumers,
  shutdown and stop requests, with the condition variable made explicit. The task queue and the
  priority scheduler use the same protocol (change the state under the mutex, release it, then
  notify), so the system is defined for any queue operations and its properties are proved once,
  in the locale \<open>blocking_queue\<close>, for which both queues are interpretations.
\<close>

section \<open>The system\<close>

text \<open>A consumer about to evaluate its wait under the mutex, asleep in it, or answered.\<close>

datatype 'r waiter = Evaluating | Sleeping | Answered "'r option"

text \<open>
  \<open>notify_ones\<close> and \<open>notify_alls\<close> count the pushes and shutdowns that have released the mutex
  but not yet notified. \<open>gone_in\<close> and \<open>come_out\<close> are history: what was accepted, what was popped.
\<close>

record ('q, 'r, 'a) monitor =
  shared_queue :: 'q
  waiters :: "'r waiter list"
  stops :: "bool list"
  notify_ones :: nat
  notify_alls :: nat
  gone_in :: "'a list"
  come_out :: "'r list"

definition mon_start :: "'q \<Rightarrow> nat \<Rightarrow> ('q, 'r, 'a) monitor" where
  "mon_start q n = \<lparr>shared_queue = q, waiters = replicate n Evaluating, stops = replicate n False,
     notify_ones = 0, notify_alls = 0, gone_in = [], come_out = []\<rparr>"

definition mon_produce ::
    "('a \<Rightarrow> 'q \<Rightarrow> bool \<times> 'q) \<Rightarrow> 'a \<Rightarrow> ('q, 'r, 'a) monitor \<Rightarrow> ('q, 'r, 'a) monitor" where
  "mon_produce push_op x m =
     (case push_op x (shared_queue m) of
        (True, q) \<Rightarrow> m\<lparr>shared_queue := q, notify_ones := notify_ones m + 1, gone_in := gone_in m @ [x]\<rparr>
      | (False, q) \<Rightarrow> m\<lparr>shared_queue := q\<rparr>)"

definition mon_evaluate ::
    "(bool \<Rightarrow> 'q \<Rightarrow> ('r option \<times> 'q) waited) \<Rightarrow> nat \<Rightarrow> ('q, 'r, 'a) monitor
     \<Rightarrow> ('q, 'r, 'a) monitor option" where
  "mon_evaluate wait_op i m =
     (if i < length (waiters m) \<and> waiters m ! i = Evaluating
      then Some (case wait_op (stops m ! i) (shared_queue m) of
          Blocked \<Rightarrow> m\<lparr>waiters := (waiters m)[i := Sleeping]\<rparr>
        | Returned (r, q) \<Rightarrow>
            m\<lparr>shared_queue := q, waiters := (waiters m)[i := Answered r],
              come_out := come_out m @ (case r of None \<Rightarrow> [] | Some x \<Rightarrow> [x])\<rparr>)
      else None)"

text \<open>A consumer that has its answer calls \<open>wait_and_pop\<close> again.\<close>

definition mon_again :: "nat \<Rightarrow> ('q, 'r, 'a) monitor \<Rightarrow> ('q, 'r, 'a) monitor" where
  "mon_again i m =
     (if i < length (waiters m) \<and> waiters m ! i \<noteq> Sleeping
      then m\<lparr>waiters := (waiters m)[i := Evaluating]\<rparr> else m)"

definition mon_poll ::
    "('q \<Rightarrow> 'r option \<times> 'q) \<Rightarrow> ('q, 'r, 'a) monitor \<Rightarrow> ('q, 'r, 'a) monitor" where
  "mon_poll pop_op m =
     (case pop_op (shared_queue m) of (r, q) \<Rightarrow>
        m\<lparr>shared_queue := q, come_out := come_out m @ (case r of None \<Rightarrow> [] | Some x \<Rightarrow> [x])\<rparr>)"

definition mon_notify_one :: "nat \<Rightarrow> ('q, 'r, 'a) monitor \<Rightarrow> ('q, 'r, 'a) monitor option" where
  "mon_notify_one i m =
     (if notify_ones m = 0 then None
      else if i < length (waiters m) \<and> waiters m ! i = Sleeping
        then Some (m\<lparr>waiters := (waiters m)[i := Evaluating], notify_ones := notify_ones m - 1\<rparr>)
      else if Sleeping \<in> set (waiters m) then None
      else Some (m\<lparr>notify_ones := notify_ones m - 1\<rparr>))"

definition rouse :: "'r waiter \<Rightarrow> 'r waiter" where
  "rouse w = (if w = Sleeping then Evaluating else w)"

definition mon_notify_all :: "('q, 'r, 'a) monitor \<Rightarrow> ('q, 'r, 'a) monitor option" where
  "mon_notify_all m =
     (if notify_alls m = 0 then None
      else Some (m\<lparr>waiters := map rouse (waiters m), notify_alls := notify_alls m - 1\<rparr>))"

definition mon_close :: "('q \<Rightarrow> 'q) \<Rightarrow> ('q, 'r, 'a) monitor \<Rightarrow> ('q, 'r, 'a) monitor" where
  "mon_close close_op m =
     m\<lparr>shared_queue := close_op (shared_queue m), notify_alls := notify_alls m + 1\<rparr>"

text \<open>A stop request on a consumer's token, which wakes it if it sleeps.\<close>

definition mon_stop :: "nat \<Rightarrow> ('q, 'r, 'a) monitor \<Rightarrow> ('q, 'r, 'a) monitor" where
  "mon_stop i m =
     (if i < length (waiters m)
      then m\<lparr>stops := (stops m)[i := True], waiters := (waiters m)[i := rouse (waiters m ! i)]\<rparr>
      else m)"

definition mon_spurious :: "nat \<Rightarrow> ('q, 'r, 'a) monitor \<Rightarrow> ('q, 'r, 'a) monitor" where
  "mon_spurious i m =
     (if i < length (waiters m) then m\<lparr>waiters := (waiters m)[i := rouse (waiters m ! i)]\<rparr> else m)"

inductive mon_step ::
    "('a \<Rightarrow> 'q \<Rightarrow> bool \<times> 'q) \<Rightarrow> (bool \<Rightarrow> 'q \<Rightarrow> ('r option \<times> 'q) waited) \<Rightarrow> ('q \<Rightarrow> 'r option \<times> 'q)
     \<Rightarrow> ('q \<Rightarrow> 'q) \<Rightarrow> ('q, 'r, 'a) monitor \<Rightarrow> ('q, 'r, 'a) monitor \<Rightarrow> bool"
  for push_op wait_op pop_op close_op where
  produce: "mon_step push_op wait_op pop_op close_op m (mon_produce push_op x m)"
| evaluate: "mon_evaluate wait_op i m = Some m' \<Longrightarrow> mon_step push_op wait_op pop_op close_op m m'"
| again: "mon_step push_op wait_op pop_op close_op m (mon_again i m)"
| poll: "mon_step push_op wait_op pop_op close_op m (mon_poll pop_op m)"
| notify_one: "mon_notify_one i m = Some m' \<Longrightarrow> mon_step push_op wait_op pop_op close_op m m'"
| notify_all: "mon_notify_all m = Some m' \<Longrightarrow> mon_step push_op wait_op pop_op close_op m m'"
| close: "mon_step push_op wait_op pop_op close_op m (mon_close close_op m)"
| stop: "mon_step push_op wait_op pop_op close_op m (mon_stop i m)"
| spurious: "mon_step push_op wait_op pop_op close_op m (mon_spurious i m)"

inductive_cases mon_stepE: "mon_step push_op wait_op pop_op close_op m m'"

inductive mon_init :: "'q \<Rightarrow> ('q, 'r, 'a) monitor \<Rightarrow> bool" for q0 where
  "mon_init q0 (mon_start q0 n)"

text \<open>The same steps as labelled actions, to run schedules.\<close>

datatype 'a mon_action =
  Do_produce 'a | Do_evaluate nat | Do_again nat | Do_poll | Do_notify_one nat | Do_notify_all
  | Do_close | Do_stop nat | Do_spurious nat

primrec mon_act ::
    "('a \<Rightarrow> 'q \<Rightarrow> bool \<times> 'q) \<Rightarrow> (bool \<Rightarrow> 'q \<Rightarrow> ('r option \<times> 'q) waited) \<Rightarrow> ('q \<Rightarrow> 'r option \<times> 'q)
     \<Rightarrow> ('q \<Rightarrow> 'q) \<Rightarrow> 'a mon_action \<Rightarrow> ('q, 'r, 'a) monitor \<Rightarrow> ('q, 'r, 'a) monitor option" where
  "mon_act push_op wait_op pop_op close_op (Do_produce x) m = Some (mon_produce push_op x m)"
| "mon_act push_op wait_op pop_op close_op (Do_evaluate i) m = mon_evaluate wait_op i m"
| "mon_act push_op wait_op pop_op close_op (Do_again i) m = Some (mon_again i m)"
| "mon_act push_op wait_op pop_op close_op Do_poll m = Some (mon_poll pop_op m)"
| "mon_act push_op wait_op pop_op close_op (Do_notify_one i) m = mon_notify_one i m"
| "mon_act push_op wait_op pop_op close_op Do_notify_all m = mon_notify_all m"
| "mon_act push_op wait_op pop_op close_op Do_close m = Some (mon_close close_op m)"
| "mon_act push_op wait_op pop_op close_op (Do_stop i) m = Some (mon_stop i m)"
| "mon_act push_op wait_op pop_op close_op (Do_spurious i) m = Some (mon_spurious i m)"

lemma mon_act_step:
  "mon_act push_op wait_op pop_op close_op a m = Some m' \<Longrightarrow> mon_step push_op wait_op pop_op close_op m m'"
  by (cases a) (auto intro: mon_step.intros)

lemma mon_reach:
  "run_schedule (mon_act push_op wait_op pop_op close_op) ls (mon_start q n) = Some m \<Longrightarrow>
     reach (mon_init q) (mon_step push_op wait_op pop_op close_op) (length ls) m"
  by (erule run_schedule_reach [rotated 2]) (auto intro: mon_init.intros mon_act_step)

text \<open>
  The actions that are under way on their own account: calls that hold or are about to take the
  mutex, and notifications. A measure bounds how many of them can follow one another.
\<close>

fun mon_internal :: "'a mon_action \<Rightarrow> bool" where
  "mon_internal (Do_evaluate i) \<longleftrightarrow> True"
| "mon_internal (Do_notify_one i) \<longleftrightarrow> True"
| "mon_internal Do_notify_all \<longleftrightarrow> True"
| "mon_internal a \<longleftrightarrow> False"

definition mon_weight :: "('q, 'r, 'a) monitor \<Rightarrow> nat" where
  "mon_weight m = count_list (waiters m) Evaluating + 2 * notify_ones m
     + Suc (length (waiters m)) * notify_alls m"

text \<open>Nothing moves any more: no wait is being evaluated and no notification is due.\<close>

definition mon_quiet :: "('q, 'r, 'a) monitor \<Rightarrow> bool" where
  "mon_quiet m \<longleftrightarrow> Evaluating \<notin> set (waiters m) \<and> notify_ones m = 0 \<and> notify_alls m = 0"

section \<open>Termination\<close>

lemma evaluate_weight:
  assumes "mon_evaluate wait_op i m = Some m'"
  shows "mon_weight m' < mon_weight m"
proof -
  have i: "i < length (waiters m)" "waiters m ! i = Evaluating"
    using assms by (auto simp: mon_evaluate_def split: if_splits)
  have "count_list ((waiters m)[i := w]) Evaluating < count_list (waiters m) Evaluating"
    if "w \<noteq> Evaluating" for w
    using count_list_update [OF i(1), of w Evaluating] i(2) that by simp
  then show ?thesis
    using assms i by (auto simp: mon_evaluate_def mon_weight_def split: waited.splits prod.splits)
qed

lemma notify_one_weight:
  assumes "mon_notify_one i m = Some m'"
  shows "mon_weight m' < mon_weight m"
proof (cases "i < length (waiters m) \<and> waiters m ! i = Sleeping")
  case True
  then have "count_list ((waiters m)[i := Evaluating]) Evaluating = Suc (count_list (waiters m) Evaluating)"
    using count_list_update [of i "waiters m" Evaluating Evaluating] by simp
  then show ?thesis
    using assms True by (auto simp: mon_notify_one_def mon_weight_def split: if_splits)
next
  case False
  then show ?thesis
    using assms by (auto simp: mon_notify_one_def mon_weight_def split: if_splits)
qed

lemma notify_all_weight:
  assumes "mon_notify_all m = Some m'"
  shows "mon_weight m' < mon_weight m"
proof -
  have m': "0 < notify_alls m" "m' = m\<lparr>waiters := map rouse (waiters m), notify_alls := notify_alls m - 1\<rparr>"
    using assms by (auto simp: mon_notify_all_def split: if_splits)
  then obtain k where "notify_alls m = Suc k" by (cases "notify_alls m") auto
  then show ?thesis
    using m' count_le_length [of "map rouse (waiters m)" Evaluating] by (simp add: mon_weight_def)
qed

lemma mon_internal_weight:
  "mon_internal a \<Longrightarrow> mon_act push_op wait_op pop_op close_op a m = Some m' \<Longrightarrow>
     mon_weight m' < mon_weight m"
  by (cases a) (auto dest: evaluate_weight notify_one_weight notify_all_weight)

lemma mon_run_weight:
  assumes "list_all mon_internal ls"
    and "run_schedule (mon_act push_op wait_op pop_op close_op) ls m = Some m'"
  shows "length ls + mon_weight m' \<le> mon_weight m"
  using assms
proof (induction ls arbitrary: m)
  case (Cons a ls)
  then obtain u where u: "mon_act push_op wait_op pop_op close_op a m = Some u"
      "run_schedule (mon_act push_op wait_op pop_op close_op) ls u = Some m'"
    by (auto split: option.splits)
  then show ?case
    using Cons.IH [of u] Cons.prems(1) mon_internal_weight [OF _ u(1)] by force
qed simp

text \<open>When no such action is possible the system is quiet.\<close>

lemma mon_evaluate_None:
  "mon_evaluate wait_op i m = None \<longleftrightarrow> \<not> (i < length (waiters m) \<and> waiters m ! i = Evaluating)"
  by (simp add: mon_evaluate_def)

lemma mon_notify_one_None:
  "mon_notify_one i m = None \<longleftrightarrow> notify_ones m = 0 \<or>
     Sleeping \<in> set (waiters m) \<and> \<not> (i < length (waiters m) \<and> waiters m ! i = Sleeping)"
  by (auto simp: mon_notify_one_def)

lemma stuck_quiet:
  assumes "\<And>a. mon_internal a \<Longrightarrow> mon_act push_op wait_op pop_op close_op a m = None"
  shows "mon_quiet m"
proof -
  have "mon_evaluate wait_op i m = None" for i using assms [of "Do_evaluate i"] by simp
  then have "Evaluating \<notin> set (waiters m)" by (simp add: in_set_conv_nth mon_evaluate_None)
  moreover have "mon_notify_one i m = None" for i using assms [of "Do_notify_one i"] by simp
  then have "notify_ones m = 0"
    unfolding mon_notify_one_None in_set_conv_nth by blast
  moreover have "notify_alls m = 0"
    using assms [of Do_notify_all] by (auto simp: mon_notify_all_def split: if_splits)
  ultimately show ?thesis by (simp add: mon_quiet_def)
qed

section \<open>The contract of the queue and what follows from it\<close>

definition mon_inv ::
    "('q \<Rightarrow> 'a multiset) \<Rightarrow> ('r \<Rightarrow> 'a) \<Rightarrow> ('q \<Rightarrow> bool) \<Rightarrow> ('q, 'r, 'a) monitor \<Rightarrow> bool" where
  "mon_inv content payload closed_q m \<longleftrightarrow>
     length (stops m) = length (waiters m) \<and>
     mset (gone_in m) = mset (map payload (come_out m)) + content (shared_queue m) \<and>
     (Sleeping \<in> set (waiters m) \<longrightarrow>
        size (content (shared_queue m)) \<le> notify_ones m + count_list (waiters m) Evaluating) \<and>
     (Sleeping \<in> set (waiters m) \<longrightarrow> closed_q (shared_queue m) \<longrightarrow> 0 < notify_alls m) \<and>
     (\<forall>i < length (waiters m). waiters m ! i = Sleeping \<longrightarrow> \<not> stops m ! i)"

lemma mon_invI:
  assumes "length (stops m) = length (waiters m)"
    and "mset (gone_in m) = mset (map payload (come_out m)) + content (shared_queue m)"
    and "Sleeping \<in> set (waiters m) \<Longrightarrow>
        size (content (shared_queue m)) \<le> notify_ones m + count_list (waiters m) Evaluating"
    and "Sleeping \<in> set (waiters m) \<Longrightarrow> closed_q (shared_queue m) \<Longrightarrow> 0 < notify_alls m"
    and "\<And>i. i < length (waiters m) \<Longrightarrow> waiters m ! i = Sleeping \<Longrightarrow> \<not> stops m ! i"
  shows "mon_inv content payload closed_q m"
  using assms unfolding mon_inv_def by blast

lemma mon_invD:
  assumes "mon_inv content payload closed_q m"
  shows "length (stops m) = length (waiters m)"
    and "mset (gone_in m) = mset (map payload (come_out m)) + content (shared_queue m)"
    and "Sleeping \<in> set (waiters m) \<Longrightarrow>
        size (content (shared_queue m)) \<le> notify_ones m + count_list (waiters m) Evaluating"
    and "Sleeping \<in> set (waiters m) \<Longrightarrow> closed_q (shared_queue m) \<Longrightarrow> 0 < notify_alls m"
    and "\<And>i. i < length (waiters m) \<Longrightarrow> waiters m ! i = Sleeping \<Longrightarrow> \<not> stops m ! i"
  using assms unfolding mon_inv_def by blast+

lemma rouse_simps [simp]:
  "rouse w \<noteq> Sleeping" "rouse Sleeping = Evaluating" "w \<noteq> Sleeping \<Longrightarrow> rouse w = w"
  by (auto simp: rouse_def)

lemma update_Sleeping [simp]:
  "i < length ws \<Longrightarrow> w \<noteq> Sleeping \<Longrightarrow> ws[i := w] ! j = Sleeping \<longleftrightarrow> j \<noteq> i \<and> ws ! j = Sleeping"
  by (cases "j = i") auto

lemma update_asleep: "Sleeping \<in> set (ws[i := w]) \<Longrightarrow> w \<noteq> Sleeping \<Longrightarrow> Sleeping \<in> set ws"
  using set_update_subset_insert [of ws i w] by auto

text \<open>A consumer that starts, or goes on, evaluating never breaks the invariant.\<close>

lemma mon_inv_waken:
  assumes inv: "mon_inv content payload closed_q m" and i: "i < length (waiters m)"
    and k: "k + of_bool (waiters m ! i \<noteq> Evaluating) \<ge> notify_ones m"
  shows "mon_inv content payload closed_q
     (m\<lparr>waiters := (waiters m)[i := Evaluating], notify_ones := k\<rparr>)"
proof (rule mon_invI, goal_cases)
  case 3
  then have "Sleeping \<in> set (waiters m)" by (auto dest: update_asleep)
  then show ?case
    using mon_invD(3) [OF inv] count_list_update [OF i, of Evaluating Evaluating] k
    by (cases "waiters m ! i = Evaluating") auto
next
  case 4
  then have "Sleeping \<in> set (waiters m)" by (auto dest: update_asleep)
  then show ?case using 4 mon_invD(4) [OF inv] by simp
qed (use mon_invD [OF inv] i in simp_all)

locale blocking_queue =
  fixes push_op :: "'a \<Rightarrow> 'q \<Rightarrow> bool \<times> 'q"
    and wait_op :: "bool \<Rightarrow> 'q \<Rightarrow> ('r option \<times> 'q) waited"
    and pop_op :: "'q \<Rightarrow> 'r option \<times> 'q"
    and close_op :: "'q \<Rightarrow> 'q"
    and content :: "'q \<Rightarrow> 'a multiset"
    and payload :: "'r \<Rightarrow> 'a"
    and closed_q :: "'q \<Rightarrow> bool"
    and q0 :: 'q
  assumes push_law: "push_op x q = (ok, q') \<Longrightarrow>
      content q' = (if ok then add_mset x (content q) else content q) \<and> closed_q q' = closed_q q"
    and wait_law: "wait_op stop q =
      (if \<not> stop \<and> content q = {#} \<and> \<not> closed_q q then Blocked else Returned (pop_op q))"
    and pop_None: "pop_op q = (None, q') \<Longrightarrow> content q = {#} \<and> content q' = {#} \<and> closed_q q' = closed_q q"
    and pop_Some: "pop_op q = (Some y, q') \<Longrightarrow>
      content q = add_mset (payload y) (content q') \<and> closed_q q' = closed_q q"
    and close_law: "content (close_op q) = content q \<and> closed_q (close_op q)"
    and start_empty: "content q0 = {#}"
begin

abbreviation inv_m :: "('q, 'r, 'a) monitor \<Rightarrow> bool" where
  "inv_m \<equiv> mon_inv content payload closed_q"

lemma inv_init: "mon_init q0 m \<Longrightarrow> inv_m m"
  by (auto simp: mon_init.simps mon_start_def mon_inv_def start_empty)

lemma inv_produce: "inv_m m \<Longrightarrow> inv_m (mon_produce push_op x m)"
  using push_law [of x "shared_queue m"]
  by (auto simp: mon_produce_def mon_inv_def split: prod.splits bool.splits)

lemma inv_poll:
  assumes inv: "inv_m m" shows "inv_m (mon_poll pop_op m)"
proof -
  obtain r q where pop: "pop_op (shared_queue m) = (r, q)" by (cases "pop_op (shared_queue m)")
  show ?thesis
  proof (cases r)
    case None
    then show ?thesis using inv pop pop_None [of "shared_queue m" q] by (simp add: mon_poll_def mon_inv_def)
  next
    case (Some y)
    then have law: "content (shared_queue m) = add_mset (payload y) (content q)"
      "closed_q q = closed_q (shared_queue m)"
      using pop pop_Some by auto
    show ?thesis
      using mon_invD [OF inv] pop Some law
      by (intro mon_invI) (auto simp: mon_poll_def)
  qed
qed

lemma inv_sleep:
  assumes inv: "inv_m m" and i: "i < length (waiters m)"
    and empty: "content (shared_queue m) = {#}" "\<not> closed_q (shared_queue m)" "\<not> stops m ! i"
  shows "inv_m (m\<lparr>waiters := (waiters m)[i := Sleeping]\<rparr>)"
  using mon_invD [OF inv] empty i
  by (intro mon_invI) (auto simp: nth_list_update split: if_splits)

lemma inv_answer:
  assumes inv: "inv_m m" and i: "i < length (waiters m)" "waiters m ! i = Evaluating"
    and pop: "pop_op (shared_queue m) = (r, q)"
  shows "inv_m (m\<lparr>shared_queue := q, waiters := (waiters m)[i := Answered r],
      come_out := come_out m @ (case r of None \<Rightarrow> [] | Some x \<Rightarrow> [x])\<rparr>)"
proof -
  have asleep: "Sleeping \<in> set ((waiters m)[i := Answered r]) \<Longrightarrow> Sleeping \<in> set (waiters m)"
    by (auto dest: update_asleep)
  have count: "Suc (count_list ((waiters m)[i := Answered r]) Evaluating)
      = count_list (waiters m) Evaluating"
    using count_list_update [OF i(1), of "Answered r" Evaluating] i(2) by simp
  show ?thesis
  proof (cases r)
    case None
    then have "content (shared_queue m) = {#}" "content q = {#}" "closed_q q = closed_q (shared_queue m)"
      using pop pop_None by auto
    then show ?thesis
      using mon_invD [OF inv] None asleep i(1)
      by (intro mon_invI) auto
  next
    case (Some y)
    then have law: "content (shared_queue m) = add_mset (payload y) (content q)"
      "closed_q q = closed_q (shared_queue m)"
      using pop pop_Some by auto
    show ?thesis
      using mon_invD [OF inv] law asleep count Some i(1)
      by (intro mon_invI) auto
  qed
qed

lemma inv_evaluate:
  assumes inv: "inv_m m" and step: "mon_evaluate wait_op i m = Some m'"
  shows "inv_m m'"
proof -
  obtain r q where pop: "pop_op (shared_queue m) = (r, q)" by (cases "pop_op (shared_queue m)")
  show ?thesis
    using step inv_sleep [OF inv, of i] inv_answer [OF inv, of i, OF _ _ pop] pop
    by (auto simp: mon_evaluate_def wait_law split: if_splits)
qed

lemma inv_again: "inv_m m \<Longrightarrow> inv_m (mon_again i m)"
  using mon_inv_waken [of content payload closed_q m i "notify_ones m"]
  by (auto simp: mon_again_def)

lemma inv_spurious: "inv_m m \<Longrightarrow> inv_m (mon_spurious i m)"
  using mon_inv_waken [of content payload closed_q m i "notify_ones m"]
  by (cases "waiters m ! i = Sleeping") (auto simp: mon_spurious_def)

lemma inv_stop: 
  assumes "inv_m m" shows "inv_m (mon_stop i m)"
proof -
  have "inv_m (mon_spurious i m)" by (rule inv_spurious [OF assms])
  then show ?thesis
    using assms unfolding mon_inv_def mon_stop_def mon_spurious_def
    by (auto simp: nth_list_update split: if_splits)
qed

lemma inv_notify_one:
  assumes inv: "inv_m m" and step: "mon_notify_one i m = Some m'"
  shows "inv_m m'"
proof (cases "i < length (waiters m) \<and> waiters m ! i = Sleeping")
  case True
  then show ?thesis
    using step mon_inv_waken [OF inv, of i "notify_ones m - 1"]
    by (auto simp: mon_notify_one_def split: if_splits)
next
  case False
  then have "m' = m\<lparr>notify_ones := notify_ones m - 1\<rparr>" "Sleeping \<notin> set (waiters m)"
    using step by (auto simp: mon_notify_one_def split: if_splits)
  then show ?thesis using inv by (auto simp: mon_inv_def)
qed

lemma inv_notify_all:
  assumes "inv_m m" and "mon_notify_all m = Some m'"
  shows "inv_m m'"
proof -
  have "Sleeping \<notin> set (map rouse (waiters m))" by (auto dest: sym)
  then show ?thesis
    using assms by (auto simp: mon_notify_all_def mon_inv_def split: if_splits)
qed

lemma inv_close: "inv_m m \<Longrightarrow> inv_m (mon_close close_op m)"
  using close_law [of "shared_queue m"] by (auto simp: mon_close_def mon_inv_def)

lemma inv_step: "inv_m m \<Longrightarrow> mon_step push_op wait_op pop_op close_op m m' \<Longrightarrow> inv_m m'"
  by (erule mon_stepE)
    (auto intro: inv_produce inv_evaluate inv_again inv_poll inv_notify_one inv_notify_all
      inv_close inv_stop inv_spurious)

text \<open>No lost wake-up: a consumer is asleep in a quiet system only for lack of anything to do.\<close>

lemma quiet_sleeper:
  assumes "inv_m m" and "mon_quiet m" and "i < length (waiters m)" "waiters m ! i = Sleeping"
  shows "content (shared_queue m) = {#} \<and> \<not> closed_q (shared_queue m) \<and> \<not> stops m ! i
    \<and> mset (gone_in m) = mset (map payload (come_out m))"
proof -
  have asleep: "Sleeping \<in> set (waiters m)" using assms(3,4) nth_mem by metis
  have "content (shared_queue m) = {#}"
    using mon_invD(3) [OF assms(1) asleep] assms(2) by (simp add: mon_quiet_def count_list_0_iff)
  moreover have "\<not> closed_q (shared_queue m)"
    using mon_invD(4) [OF assms(1) asleep] assms(2) by (auto simp: mon_quiet_def)
  ultimately show ?thesis
    using mon_invD(2,5) [OF assms(1)] assms(3,4) by simp
qed

end

sublocale blocking_queue \<subseteq> safe: state_invariant "mon_init q0"
    "mon_step push_op wait_op pop_op close_op" "mon_inv content payload closed_q"
  by unfold_locales (auto intro: inv_init inv_step)

section \<open>A first-in-first-out queue under the protocol\<close>

text \<open>
  A \<open>fifo_queue\<close> with a blocking pop meets the contract, and keeps the order as well: across all
  threads the elements come out in the order in which they went in.
\<close>

definition mon_fifo :: "('q \<Rightarrow> 'a list) \<Rightarrow> ('q, 'a, 'a) monitor \<Rightarrow> bool" where
  "mon_fifo items m \<longleftrightarrow> gone_in m = come_out m @ items (shared_queue m)"

locale fifo_monitor = fifo_queue enq deq close_q items closed
  for enq :: "'a \<Rightarrow> 'q \<Rightarrow> bool \<times> 'q" and deq close_q items closed +
  fixes wait_deq :: "bool \<Rightarrow> 'q \<Rightarrow> ('a option \<times> 'q) waited" and new_q :: 'q
  assumes wait_deq: "wait_deq stop q =
      (if \<not> stop \<and> items q = [] \<and> \<not> closed q then Blocked else Returned (deq q))"
    and new_q: "items new_q = []"

sublocale fifo_monitor \<subseteq> blocking_queue enq wait_deq deq close_q "\<lambda>q. mset (items q)" "\<lambda>x. x" closed new_q
proof (unfold_locales, goal_cases)
  case (1 x q ok q')
  then show ?case using enq_accepts [of x q] enq_items [of x q] enq_closed [of x q] by auto
next
  case (3 q q')
  then show ?case
    using deq_result [of q] deq_items [of q] deq_closed [of q] by (auto split: list.splits)
next
  case (4 q y q')
  then show ?case
    using deq_result [of q] deq_items [of q] deq_closed [of q] by (auto split: list.splits)
qed (auto simp: wait_deq new_q close_items close_closed)

context fifo_monitor begin

lemma mon_fifo_start: "mon_init new_q m \<Longrightarrow> mon_fifo items m"
  by (auto simp: mon_init.simps mon_start_def mon_fifo_def new_q)

lemma deq_order: "deq q = (r, q') \<Longrightarrow> items q = (case r of None \<Rightarrow> [] | Some x \<Rightarrow> [x]) @ items q'"
  using deq_result [of q] deq_items [of q] by (auto split: list.splits)

lemma fifo_step:
  assumes "mon_fifo items m" and "mon_step enq wait_deq deq close_q m m'"
  shows "mon_fifo items m'"
  using assms(2)
proof (cases rule: mon_step.cases)
  case (produce x)
  then show ?thesis
    using assms(1) enq_accepts [of x "shared_queue m"] enq_items [of x "shared_queue m"]
    by (auto simp: mon_fifo_def mon_produce_def split: prod.splits bool.splits)
next
  case (evaluate i)
  then show ?thesis
    using assms(1) deq_order [of "shared_queue m"]
    by (auto simp: mon_fifo_def mon_evaluate_def wait_deq split: if_splits prod.splits)
next
  case poll
  then show ?thesis
    using assms(1) deq_order [of "shared_queue m"]
    by (auto simp: mon_fifo_def mon_poll_def split: prod.splits)
qed (use assms(1) in \<open>auto simp: mon_fifo_def mon_again_def mon_notify_one_def mon_notify_all_def
    mon_close_def mon_stop_def mon_spurious_def close_items split: if_splits\<close>)

end

sublocale fifo_monitor \<subseteq> order: state_invariant "mon_init new_q" "mon_step enq wait_deq deq close_q"
    "mon_fifo items"
  by unfold_locales (auto intro: mon_fifo_start fifo_step)

section \<open>The two queues of the engine\<close>

interpretation tqm: fifo_monitor push try_pop shutdown tasks is_shutdown wait_and_pop TaskQueue
  by unfold_locales (simp add: wait_and_pop_eq is_shutdown_def, simp add: TaskQueue_def)

abbreviation sched_push_pair :: "'a \<times> TaskPriority \<Rightarrow> 'a scheduler \<Rightarrow> bool \<times> 'a scheduler" where
  "sched_push_pair x \<equiv> sched_push (fst x) (snd x)"

lemma sched_try_pop_content:
  "sched_try_pop s = (None, s') \<Longrightarrow> queue s = [] \<and> s' = s"
  "sched_try_pop s = (Some y, s') \<Longrightarrow> mset (queue s) = add_mset y (mset (queue s')) \<and> stopped s' = stopped s"
  by (auto simp: sched_try_pop_def dest: pq_extract_mset split: option.splits)

interpretation schm: blocking_queue sched_push_pair sched_wait_and_pop sched_try_pop sched_shutdown
    "\<lambda>s. mset (map strip (queue s))" strip stopped PriorityScheduler
proof (unfold_locales, goal_cases)
  case (3 q q')
  then show ?case using sched_try_pop_content(1) [of q q'] by simp
next
  case (4 q y q')
  then show ?case using sched_try_pop_content(2) [of q y q'] by simp
qed (simp_all add: sched_wait_and_pop_eq, auto simp: sched_push_def sched_shutdown_def sched_empty_def
    PriorityScheduler_def pq_push_def strip_def split: if_splits)

abbreviation tq_step :: "('a task_queue, 'a, 'a) monitor \<Rightarrow> ('a task_queue, 'a, 'a) monitor \<Rightarrow> bool" where
  "tq_step \<equiv> mon_step push wait_and_pop try_pop shutdown"

abbreviation tq_act ::
    "'a mon_action \<Rightarrow> ('a task_queue, 'a, 'a) monitor \<Rightarrow> ('a task_queue, 'a, 'a) monitor option" where
  "tq_act \<equiv> mon_act push wait_and_pop try_pop shutdown"

abbreviation sched_step ::
    "('a scheduler, 'a PriorityTask, 'a \<times> TaskPriority) monitor
     \<Rightarrow> ('a scheduler, 'a PriorityTask, 'a \<times> TaskPriority) monitor \<Rightarrow> bool" where
  "sched_step \<equiv> mon_step sched_push_pair sched_wait_and_pop sched_try_pop sched_shutdown"

abbreviation sched_act ::
    "('a \<times> TaskPriority) mon_action \<Rightarrow> ('a scheduler, 'a PriorityTask, 'a \<times> TaskPriority) monitor
     \<Rightarrow> ('a scheduler, 'a PriorityTask, 'a \<times> TaskPriority) monitor option" where
  "sched_act \<equiv> mon_act sched_push_pair sched_wait_and_pop sched_try_pop sched_shutdown"

section \<open>Properties\<close>

text \<open>
  C16: The task queue among any number of threads, in every interleaving of pushes, blocking and
  polling pops, notifications, stop requests, spurious wake-ups and shutdowns: the tasks come out
  in the order in which they were accepted, none twice and none lost (what went in is what came
  out followed by what is queued), and when nothing moves any more a consumer still sleeps only
  if the queue is empty and open and its stop has not been requested.
\<close>

theorem tq_concurrent_fifo:
  assumes "reach (mon_init TaskQueue) tq_step n m"
  shows "gone_in m = come_out m @ tasks (shared_queue m) \<and>
    (mon_quiet m \<longrightarrow> (\<forall>i < length (waiters m). waiters m ! i = Sleeping \<longrightarrow>
       tasks (shared_queue m) = [] \<and> \<not> is_shutdown (shared_queue m) \<and> \<not> stops m ! i))"
  using tqm.order.reach_state [OF assms] tqm.quiet_sleeper [OF tqm.safe.reach_state [OF assms]]
  by (simp add: mon_fifo_def)

theorem tq_concurrent_fifo_witness:
  "\<exists>m n. reach (mon_init TaskQueue) tq_step n m \<and> mon_quiet m \<and> waiters m ! 1 = Sleeping \<and>
     gone_in m = [7, 8, 9 :: nat] \<and> come_out m = [7, 8, 9] \<and> tasks (shared_queue m) = [] \<and>
     gone_in m = come_out m @ tasks (shared_queue m)"
proof -
  define ls :: "nat mon_action list" where
    "ls = [Do_evaluate 0, Do_evaluate 1, Do_produce 7, Do_notify_one 1, Do_produce 8, Do_poll,
       Do_evaluate 1, Do_notify_one 0, Do_evaluate 0, Do_produce 9, Do_again 1, Do_notify_one 0,
       Do_evaluate 1, Do_again 1, Do_evaluate 1, Do_evaluate 0]"
  have "\<exists>m. run_schedule tq_act ls (mon_start TaskQueue 2) = Some m \<and> mon_quiet m \<and>
      waiters m ! 1 = Sleeping \<and> gone_in m = [7, 8, 9] \<and> come_out m = [7, 8, 9] \<and>
      tasks (shared_queue m) = []"
    by (simp add: ls_def mon_start_def mon_evaluate_def mon_produce_def mon_notify_one_def
        mon_again_def mon_poll_def mon_quiet_def tq_defs cv_wait_def numeral_2_eq_2)
  then obtain m where run: "run_schedule tq_act ls (mon_start TaskQueue 2) = Some m"
    and m: "mon_quiet m" "waiters m ! 1 = Sleeping" "gone_in m = [7, 8, 9]" "come_out m = [7, 8, 9]"
      "tasks (shared_queue m) = []"
    by blast
  have "reach (mon_init TaskQueue) tq_step (length ls) m"
    by (rule mon_reach [OF run])
  then show ?thesis using tq_concurrent_fifo [of "length ls" m] m by blast
qed

text \<open>
  C15: No consumer of the priority scheduler is forgotten. From every reachable state, with any
  number of producers and consumers, the calls and notifications already under way make at most
  \<open>mon_weight\<close> further steps; once they can make none, every consumer has its answer or sleeps
  on a scheduler that is empty and open, with no stop requested, and everything accepted has
  been popped.
\<close>

theorem sched_consumers_served:
  assumes "reach (mon_init PriorityScheduler) sched_step n m"
    and "list_all mon_internal ls" and "run_schedule sched_act ls m = Some m'"
  shows "length ls \<le> mon_weight m \<and>
    ((\<forall>a. mon_internal a \<longrightarrow> sched_act a m' = None) \<longrightarrow>
       (\<forall>i < length (waiters m'). (\<exists>r. waiters m' ! i = Answered r) \<or>
          waiters m' ! i = Sleeping \<and> sched_empty (shared_queue m') \<and> \<not> stopped (shared_queue m')
          \<and> \<not> stops m' ! i \<and> mset (gone_in m') = mset (map strip (come_out m'))))"
proof -
  have "reach (mon_init PriorityScheduler) sched_step (n + length ls) m'"
    using assms(1,3) by (rule run_schedule_reach_from [rotated 1]) (rule mon_act_step)
  note inv = schm.safe.reach_state [OF this]
  have "(\<exists>r. waiters m' ! i = Answered r) \<or>
      waiters m' ! i = Sleeping \<and> sched_empty (shared_queue m') \<and> \<not> stopped (shared_queue m')
      \<and> \<not> stops m' ! i \<and> mset (gone_in m') = mset (map strip (come_out m'))"
    if "\<forall>a. mon_internal a \<longrightarrow> sched_act a m' = None" "i < length (waiters m')" for i
  proof -
    have quiet: "mon_quiet m'" using that(1) by (intro stuck_quiet) blast
    then have "waiters m' ! i \<noteq> Evaluating"
      using nth_mem [OF that(2)] by (auto simp: mon_quiet_def)
    then show ?thesis
      using schm.quiet_sleeper [OF inv quiet that(2)]
      by (cases "waiters m' ! i") (auto simp: sched_empty_def)
  qed
  then show ?thesis using mon_run_weight [OF assms(2,3)] by auto
qed

theorem sched_consumers_served_witness:
  "\<exists>m n ls m'. reach (mon_init PriorityScheduler) sched_step n m \<and> list_all mon_internal ls \<and>
     run_schedule sched_act ls m = Some m' \<and> length ls = 3 \<and> length ls \<le> mon_weight m \<and>
     waiters m' = [Answered (Some \<lparr>func = 5 :: nat, task_priority = TaskPriority_High, sequence = 0\<rparr>),
       Sleeping] \<and> sched_empty (shared_queue m')"
proof -
  define ls0 :: "(nat \<times> TaskPriority) mon_action list" where
    "ls0 = [Do_evaluate 0, Do_produce (5, TaskPriority_High)]"
  define ls :: "(nat \<times> TaskPriority) mon_action list" where
    "ls = [Do_notify_one 0, Do_evaluate 0, Do_evaluate 1]"
  have "\<exists>m m'. run_schedule sched_act ls0 (mon_start PriorityScheduler 2) = Some m \<and>
      run_schedule sched_act ls m = Some m' \<and>
      waiters m' = [Answered (Some \<lparr>func = 5, task_priority = TaskPriority_High, sequence = 0\<rparr>),
        Sleeping] \<and> sched_empty (shared_queue m')"
    by (simp add: ls0_def ls_def mon_start_def mon_evaluate_def mon_produce_def mon_notify_one_def
        sched_defs pq_push_def cv_wait_def numeral_2_eq_2)
  then obtain m m' where run: "run_schedule sched_act ls0 (mon_start PriorityScheduler 2) = Some m"
    and run': "run_schedule sched_act ls m = Some m'"
    and m': "waiters m' = [Answered (Some \<lparr>func = 5, task_priority = TaskPriority_High, sequence = 0\<rparr>),
        Sleeping]" "sched_empty (shared_queue m')"
    by blast
  have "reach (mon_init PriorityScheduler) sched_step (length ls0) m"
    by (rule mon_reach [OF run])
  moreover have ls: "list_all mon_internal ls" "length ls = 3" by (simp_all add: ls_def)
  ultimately show ?thesis
    using sched_consumers_served [of "length ls0" m ls m'] run' m' by blast
qed

end
