(* ===== verification/Lockfree_Queue.thy ===== *)
theory Lockfree_Queue
  imports Prelude
begin

unbundle bit_operations_syntax

text \<open>
  \<open>include/ate/lockfree_queue.hpp\<close>: the bounded multi-producer multi-consumer ring buffer.
  This theory holds its data, the constructor with the rounding of the capacity, and the program
  of one thread inside \<open>try_push\<close> or \<open>try_pop\<close>, one atomic access of shared memory per step.
  All counters are 64-bit words with the code's wrap-around; the interleaving of threads is the
  subject of \<open>Lockfree_Conc\<close>.
\<close>

section \<open>Rounding the capacity up to a power of two\<close>

definition smear :: "nat \<Rightarrow> size_t \<Rightarrow> size_t" where
  "smear k n = n OR drop_bit k n"

definition round_up_pow2 :: "size_t \<Rightarrow> size_t" where
  "round_up_pow2 n =
     (if n < 2 then 2
      else smear 32 (smear 16 (smear 8 (smear 4 (smear 2 (smear 1 (n - 1)))))) + 1)"

text \<open>Bit \<open>i\<close> of \<open>x\<close> says whether \<open>n\<close> has a bit among the \<open>m\<close> positions from \<open>i\<close> on.\<close>

definition smeared :: "size_t \<Rightarrow> nat \<Rightarrow> size_t \<Rightarrow> bool" where
  "smeared n m x \<longleftrightarrow> (\<forall>i. bit x i \<longleftrightarrow> (\<exists>j. i \<le> j \<and> j < i + m \<and> bit n j))"

lemma smeared_start: "smeared n 1 n"
  by (auto simp: smeared_def less_Suc_eq_le dest: le_antisym)

lemma window_double:
  "(\<exists>j. i \<le> j \<and> j < i + m \<and> P j) \<or> (\<exists>j. i + m \<le> j \<and> j < i + m + m \<and> P j)
     \<longleftrightarrow> (\<exists>j. i \<le> j \<and> j < i + 2 * m \<and> P j)" (is "?a \<or> ?b \<longleftrightarrow> ?c")
  for i m :: nat
proof
  assume "?a \<or> ?b"
  then obtain j where "i \<le> j \<and> j < i + m \<and> P j \<or> i + m \<le> j \<and> j < i + m + m \<and> P j" by blast
  then show ?c by (intro exI [of _ j]) auto
next
  assume ?c
  then obtain j where j: "i \<le> j" "j < i + 2 * m" "P j" by blast
  then show "?a \<or> ?b" by (cases "j < i + m") auto
qed

lemma smeared_smear:
  assumes "smeared n m x"
  shows "smeared n (2 * m) (smear m x)"
  unfolding smeared_def
proof
  fix i
  have "bit (smear m x) i \<longleftrightarrow> bit x i \<or> bit x (i + m)"
    by (simp add: smear_def bit_or_iff bit_drop_bit_eq add.commute)
  also have "\<dots> \<longleftrightarrow> (\<exists>j. i \<le> j \<and> j < i + m \<and> bit n j) \<or> (\<exists>j. i + m \<le> j \<and> j < i + m + m \<and> bit n j)"
    using assms unfolding smeared_def by simp
  also have "\<dots> \<longleftrightarrow> (\<exists>j. i \<le> j \<and> j < i + 2 * m \<and> bit n j)"
    by (rule window_double)
  finally show "bit (smear m x) i \<longleftrightarrow> (\<exists>j. i \<le> j \<and> j < i + 2 * m \<and> bit n j)" .
qed

lemma smeared_64:
  "smeared n 64 (smear 32 (smear 16 (smear 8 (smear 4 (smear 2 (smear 1 n))))))"
  using smeared_smear [OF smeared_smear [OF smeared_smear [OF smeared_smear
    [OF smeared_smear [OF smeared_smear [OF smeared_start [of n]]]]]]] by simp

lemma bit_size_t_less: "bit (n :: size_t) j \<Longrightarrow> j < 64"
  using bit_imp_le_length [of n j] by simp

text \<open>A fully smeared word is the mask below its highest bit.\<close>

lemma bit_below:
  assumes "unat (n :: size_t) < 2 ^ k" and "k \<le> j"
  shows "\<not> bit n j"
proof -
  have "take_bit k (unat n) = unat n" using assms(1) by (simp add: take_bit_nat_eq_self)
  then have "\<not> bit (unat n) j" using assms(2) by (metis bit_take_bit_iff not_le)
  then show ?thesis by (auto simp: bit_unsigned_iff dest: bit_size_t_less)
qed

lemma bit_top:
  assumes "2 ^ l \<le> unat (n :: size_t)" and "unat n < 2 ^ Suc l"
  shows "bit n l"
proof -
  have "unat n div 2 ^ l = 1" using assms by (intro div_nat_eqI) auto
  then have "bit (unat n) l" by (simp add: bit_iff_odd)
  then show ?thesis by (simp add: bit_unsigned_iff)
qed

lemma smeared_mask:
  assumes "smeared n 64 x" and "2 ^ l \<le> unat n" and "unat n < 2 ^ Suc l"
  shows "x = mask (Suc l)"
proof (rule bit_word_eqI)
  fix i assume "i < LENGTH(64)"
  have l: "bit n l" by (rule bit_top [OF assms(2,3)])
  have "bit x i \<longleftrightarrow> i \<le> l"
  proof
    assume "bit x i"
    then obtain j where "i \<le> j" "bit n j" using assms(1) by (auto simp: smeared_def)
    then show "i \<le> l" using bit_below [OF assms(3), of j] by linarith
  next
    assume "i \<le> l"
    then show "bit x i" using assms(1) l bit_size_t_less [OF l] by (auto simp: smeared_def)
  qed
  then show "bit x i \<longleftrightarrow> bit (mask (Suc l) :: size_t) i"
    using \<open>i < LENGTH(64)\<close> by (auto simp: bit_mask_iff)
qed

lemma round_up_pow2_bounds:
  assumes "2 ^ l < unat n" and "unat n \<le> 2 ^ Suc l" and "Suc l < 64"
  shows "round_up_pow2 n = 2 ^ Suc l"
proof -
  have n1: "unat (n - 1) = unat n - 1"
    using assms(1) by (intro unat_minus_one) auto
  have "\<not> n < 2"
    using le_less_trans [OF one_le_power assms(1)] by (simp add: word_less_nat_alt)
  moreover have "smear 32 (smear 16 (smear 8 (smear 4 (smear 2 (smear 1 (n - 1)))))) = mask (Suc l)"
    using assms(1,2) n1 by (intro smeared_mask [OF smeared_64]) auto
  moreover have "mask (Suc l) + 1 = (2 :: size_t) ^ Suc l"
    by (simp add: mask_eq_exp_minus_1)
  ultimately show ?thesis by (simp add: round_up_pow2_def)
qed

text \<open>Every word from 2 on lies in exactly one such interval.\<close>

lemma pow2_interval:
  fixes m :: nat
  assumes "2 \<le> m"
  obtains l where "2 ^ l < m" and "m \<le> 2 ^ Suc l"
proof -
  let ?P = "\<lambda>k. m \<le> 2 ^ k"
  have ex: "?P m" by (simp add: less_imp_le)
  define k where "k = (LEAST k. ?P k)"
  have k: "m \<le> 2 ^ k" unfolding k_def by (rule LeastI [of ?P, OF ex])
  have "k \<noteq> 0" using k assms by (cases k) auto
  then obtain l where l: "k = Suc l" by (cases k) auto
  have "\<not> ?P l" using not_less_Least [of l ?P] by (simp add: k_def [symmetric] l)
  then show thesis using that [of l] k l by simp
qed

lemma round_up_pow2_is_power:
  assumes "2 \<le> n" and "unat n \<le> 2 ^ 63"
  shows "\<exists>k. 1 \<le> k \<and> k < 64 \<and> round_up_pow2 n = 2 ^ k \<and> unat n \<le> 2 ^ k \<and> 2 ^ k < 2 * unat n"
proof (cases "n = 2")
  case True
  then show ?thesis by (intro exI [of _ 1]) (simp add: round_up_pow2_def smear_def)
next
  case False
  have "2 \<le> unat n" using assms(1) by (simp add: word_le_nat_alt)
  then obtain l where l: "2 ^ l < unat n" "unat n \<le> 2 ^ Suc l"
    by (rule pow2_interval)
  have "l < 63"
  proof (rule ccontr)
    assume "\<not> l < 63"
    then have "(2 :: nat) ^ 63 \<le> 2 ^ l" by (intro power_increasing) auto
    then show False using l assms(2) by linarith
  qed
  then show ?thesis
    using l round_up_pow2_bounds [OF l] by (intro exI [of _ "Suc l"]) auto
qed

lemma round_up_pow2_small: "n < 2 \<Longrightarrow> round_up_pow2 n = 2"
  by (simp add: round_up_pow2_def)

lemma round_up_pow2_overflow:
  assumes "2 ^ 63 < unat n"
  shows "round_up_pow2 n = 0"
proof -
  have n1: "unat (n - 1) = unat n - 1"
    using assms by (intro unat_minus_one) auto
  have "smear 32 (smear 16 (smear 8 (smear 4 (smear 2 (smear 1 (n - 1)))))) = mask (Suc 63)"
    using assms n1 unsigned_less [where ?'a = nat, of n] by (intro smeared_mask [OF smeared_64]) auto
  moreover have "\<not> n < 2" using assms by (simp add: word_less_nat_alt)
  ultimately show ?thesis by (simp add: round_up_pow2_def mask_eq_exp_minus_1)
qed

section \<open>Shared memory\<close>

text \<open>
  A slot of the ring. \<open>data\<close> is \<open>None\<close> while the slot holds no element: the value-initialised
  \<open>T\<close> of a fresh slot, or what is left behind by a move.
\<close>

record 'a slot =
  slot_sequence :: size_t
  slot_data :: "'a option"

record 'a lfq =
  capacity :: size_t
  pos_mask :: size_t
  buffer :: "'a slot list"
  enqueue_pos :: size_t
  dequeue_pos :: size_t

definition LockFreeQueue :: "size_t \<Rightarrow> 'a lfq" where
  [lf_defs]: "LockFreeQueue min_capacity =
     (let c = round_up_pow2 min_capacity in
      \<lparr>capacity = c, pos_mask = c - 1,
       buffer = map (\<lambda>i. \<lparr>slot_sequence = of_nat i, slot_data = None\<rparr>) [0..<unat c],
       enqueue_pos = 0, dequeue_pos = 0\<rparr>)"

definition lf_capacity :: "'a lfq \<Rightarrow> size_t" where
  "lf_capacity q = capacity q"

definition lf_size_approx :: "size_t \<Rightarrow> size_t \<Rightarrow> size_t" where
  "lf_size_approx enq deq = (if enq \<ge> deq then enq - deq else 0)"

section \<open>One thread inside try_push or try_pop\<close>

text \<open>
  Where a thread stands, with its local variables: \<open>value\<close> and \<open>pos\<close> for a push, \<open>pos\<close> and
  \<open>result\<close> for a pop. The states with \<open>load\<close> are before the load of the position counter,
  \<open>seq\<close> before the load of the slot's sequence, \<open>cas\<close> before the compare-exchange; a winner
  then accesses the data and stores the new sequence. \<open>Undefined\<close> stands for undefined
  behaviour: an index outside the buffer, or a signed overflow in the difference.
\<close>

datatype 'a pc =
    Idle
  | Push_load 'a | Push_seq 'a size_t | Push_cas 'a size_t | Push_write 'a size_t
  | Push_publish size_t | Push_done bool
  | Pop_load | Pop_seq size_t | Pop_cas size_t | Pop_read size_t
  | Pop_release size_t "'a option" | Pop_done "'a option option"
  | Undefined

text \<open>
  \<open>static_cast<std::ptrdiff_t>(a) - static_cast<std::ptrdiff_t>(b)\<close>; \<open>None\<close> on overflow.
\<close>

definition ptrdiff :: "size_t \<Rightarrow> size_t \<Rightarrow> int option" where
  "ptrdiff a b =
     (let d = sint a - sint b in if - (2 ^ 63) \<le> d \<and> d < 2 ^ 63 then Some d else None)"

definition slot_index :: "'a lfq \<Rightarrow> size_t \<Rightarrow> nat" where
  "slot_index q pos = unat (pos AND pos_mask q)"

definition update_slot :: "('a slot \<Rightarrow> 'a slot) \<Rightarrow> size_t \<Rightarrow> 'a lfq \<Rightarrow> 'a lfq" where
  "update_slot f pos q =
     (let i = slot_index q pos in q\<lparr>buffer := (buffer q)[i := f (buffer q ! i)]\<rparr>)"

text \<open>
  One atomic step; \<open>spurious\<close> says whether \<open>compare_exchange_weak\<close> fails although the
  values agree. A failed compare-exchange loads the current counter into \<open>pos\<close>.
\<close>

fun push_step :: "bool \<Rightarrow> 'a lfq \<Rightarrow> 'a pc \<Rightarrow> 'a lfq \<times> 'a pc" where
  "push_step spurious q (Push_load v) = (q, Push_seq v (enqueue_pos q))"
| "push_step spurious q (Push_seq v pos) =
     (let i = slot_index q pos in
      if length (buffer q) \<le> i then (q, Undefined)
      else case ptrdiff (slot_sequence (buffer q ! i)) pos of
             None \<Rightarrow> (q, Undefined)
           | Some diff \<Rightarrow>
               (if diff = 0 then (q, Push_cas v pos)
                else if diff < 0 then (q, Push_done False)
                else (q, Push_load v)))"
| "push_step spurious q (Push_cas v pos) =
     (if enqueue_pos q = pos \<and> \<not> spurious
      then (q\<lparr>enqueue_pos := pos + 1\<rparr>, Push_write v pos)
      else (q, Push_seq v (enqueue_pos q)))"
| "push_step spurious q (Push_write v pos) =
     (update_slot (\<lambda>s. s\<lparr>slot_data := Some v\<rparr>) pos q, Push_publish pos)"
| "push_step spurious q (Push_publish pos) =
     (update_slot (\<lambda>s. s\<lparr>slot_sequence := pos + 1\<rparr>) pos q, Push_done True)"
| "push_step spurious q p = (q, p)"

fun pop_step :: "bool \<Rightarrow> 'a lfq \<Rightarrow> 'a pc \<Rightarrow> 'a lfq \<times> 'a pc" where
  "pop_step spurious q Pop_load = (q, Pop_seq (dequeue_pos q))"
| "pop_step spurious q (Pop_seq pos) =
     (let i = slot_index q pos in
      if length (buffer q) \<le> i then (q, Undefined)
      else case ptrdiff (slot_sequence (buffer q ! i)) (pos + 1) of
             None \<Rightarrow> (q, Undefined)
           | Some diff \<Rightarrow>
               (if diff = 0 then (q, Pop_cas pos)
                else if diff < 0 then (q, Pop_done None)
                else (q, Pop_load)))"
| "pop_step spurious q (Pop_cas pos) =
     (if dequeue_pos q = pos \<and> \<not> spurious
      then (q\<lparr>dequeue_pos := pos + 1\<rparr>, Pop_read pos)
      else (q, Pop_seq (dequeue_pos q)))"
| "pop_step spurious q (Pop_read pos) =
     (update_slot (\<lambda>s. s\<lparr>slot_data := None\<rparr>) pos q,
      Pop_release pos (slot_data (buffer q ! slot_index q pos)))"
| "pop_step spurious q (Pop_release pos result) =
     (update_slot (\<lambda>s. s\<lparr>slot_sequence := pos + capacity q\<rparr>) pos q, Pop_done (Some result))"
| "pop_step spurious q p = (q, p)"

fun thread_step :: "bool \<Rightarrow> 'a lfq \<Rightarrow> 'a pc \<Rightarrow> 'a lfq \<times> 'a pc" where
  "thread_step spurious q Pop_load = pop_step spurious q Pop_load"
| "thread_step spurious q (Pop_seq pos) = pop_step spurious q (Pop_seq pos)"
| "thread_step spurious q (Pop_cas pos) = pop_step spurious q (Pop_cas pos)"
| "thread_step spurious q (Pop_read pos) = pop_step spurious q (Pop_read pos)"
| "thread_step spurious q (Pop_release pos r) = pop_step spurious q (Pop_release pos r)"
| "thread_step spurious q p = push_step spurious q p"

text \<open>The call as a whole when no other thread runs and no compare-exchange fails spuriously.\<close>

primrec run_alone :: "nat \<Rightarrow> 'a lfq \<times> 'a pc \<Rightarrow> 'a lfq \<times> 'a pc" where
  "run_alone 0 s = s"
| "run_alone (Suc n) s = run_alone n (thread_step False (fst s) (snd s))"

definition lf_try_push :: "nat \<Rightarrow> 'a \<Rightarrow> 'a lfq \<Rightarrow> (bool \<times> 'a lfq) option" where
  "lf_try_push fuel v q =
     (case run_alone fuel (q, Push_load v) of (q', Push_done b) \<Rightarrow> Some (b, q') | _ \<Rightarrow> None)"

text \<open>The overload for lvalues copies its argument and calls the other one.\<close>

definition lf_try_push_copy :: "nat \<Rightarrow> 'a \<Rightarrow> 'a lfq \<Rightarrow> (bool \<times> 'a lfq) option" where
  "lf_try_push_copy fuel v q = (let copy = v in lf_try_push fuel copy q)"

definition lf_try_pop :: "nat \<Rightarrow> 'a lfq \<Rightarrow> ('a option option \<times> 'a lfq) option" where
  "lf_try_pop fuel q =
     (case run_alone fuel (q, Pop_load) of (q', Pop_done r) \<Rightarrow> Some (r, q') | _ \<Rightarrow> None)"

section \<open>Properties of the constructor\<close>

text \<open>
  C37: The capacity rounding is correct for every request up to \<open>2 ^ 63\<close>: the result is the least
  power of two that is at least the request and at least two.
\<close>

theorem round_up_pow2_correct:
  assumes "unat n \<le> 2 ^ 63"
  shows "\<exists>k. 1 \<le> k \<and> unat (round_up_pow2 n) = 2 ^ k \<and> unat n \<le> 2 ^ k
    \<and> (\<forall>l. 1 \<le> l \<longrightarrow> unat n \<le> 2 ^ l \<longrightarrow> k \<le> l)"
proof (cases "n < 2")
  case True
  then have "unat n < 2" by (simp add: word_less_nat_alt)
  then show ?thesis using True by (intro exI [of _ 1]) (simp add: round_up_pow2_small)
next
  case False
  then obtain k where k: "1 \<le> k" "k < 64" "round_up_pow2 n = 2 ^ k" "unat n \<le> 2 ^ k"
    "2 ^ k < 2 * unat n"
    using round_up_pow2_is_power [of n] assms by (auto simp: not_less)
  have "(2 :: nat) ^ k < 2 ^ 64" using k(2) by (intro power_strict_increasing) auto
  then have "unat (of_nat (2 ^ k) :: size_t) = 2 ^ k" by (simp only: unat_of_nat) simp
  then have unat: "unat (round_up_pow2 n) = 2 ^ k" by (simp add: k(3))
  have "k \<le> l" if "unat n \<le> 2 ^ l" for l
  proof -
    have "(2 :: nat) ^ k < 2 ^ Suc l" using k(5) that by simp
    then have "k < Suc l" by (rule power_less_imp_less_exp [rotated]) simp
    then show ?thesis by simp
  qed
  then show ?thesis using k unat by blast
qed

theorem round_up_pow2_correct_witness:
  "\<exists>k. 1 \<le> k \<and> unat (round_up_pow2 1000) = 2 ^ k \<and> unat (1000 :: size_t) \<le> 2 ^ k
    \<and> (\<forall>l. 1 \<le> l \<longrightarrow> unat (1000 :: size_t) \<le> 2 ^ l \<longrightarrow> k \<le> l)"
  by (rule round_up_pow2_correct) simp

text \<open>
  C40: Above \<open>2 ^ 63\<close> the rounding wraps around to zero. The queue then has no slots at all (only
  the debug assertion stops the constructor), and the first push indexes outside the buffer.
\<close>

theorem capacity_wraps_to_zero:
  assumes "2 ^ 63 < unat n"
  shows "capacity (LockFreeQueue n :: 'a lfq) = 0 \<and> buffer (LockFreeQueue n :: 'a lfq) = []
    \<and> snd (run_alone 2 (LockFreeQueue n, Push_load (v :: 'a))) = Undefined"
  using round_up_pow2_overflow [OF assms] by (simp add: lf_defs numeral_2_eq_2)

theorem capacity_wraps_to_zero_witness:
  "capacity (LockFreeQueue (2 ^ 63 + 1) :: nat lfq) = 0
    \<and> buffer (LockFreeQueue (2 ^ 63 + 1) :: nat lfq) = []
    \<and> snd (run_alone 2 (LockFreeQueue (2 ^ 63 + 1), Push_load (5 :: nat))) = Undefined"
  by (rule capacity_wraps_to_zero) simp

end
