(* ===== verification/Ticket_Ring.thy ===== *)
theory Ticket_Ring
  imports Prelude
begin

text \<open>
  The idea behind the ring buffer of \<open>include/ate/lockfree_queue.hpp\<close>, on unbounded tickets. The
  \<open>t\<close>-th successful push owns ticket \<open>t\<close>, and so does the \<open>t\<close>-th successful pop; ticket \<open>t\<close> uses
  slot \<open>t mod C\<close>, whose sequence is \<open>t\<close> while it is free for the push, \<open>t + 1\<close> once the element is
  published, and \<open>t + C\<close> after the pop has released it. The predicate \<open>ring\<close> is the invariant
  between the two counters, the sequences, the cells and the tickets the threads hold; the six
  lemmas below are the six ways a thread changes shared memory. \<open>Lockfree_Conc\<close> transports them
  to the 64-bit words of the code.
\<close>

section \<open>The invariant\<close>

text \<open>
  \<open>W\<close>: tickets claimed by a push and not yet published, \<open>Wd\<close> those whose element is written;
  \<open>R\<close>: tickets claimed by a pop and not yet released, \<open>Rd\<close> those whose element is taken out;
  \<open>g\<close>: the pushed elements in ticket order.
\<close>

definition slot_ok :: "nat \<Rightarrow> nat \<Rightarrow> nat \<Rightarrow> nat \<Rightarrow> nat set \<Rightarrow> nat set \<Rightarrow> nat \<Rightarrow> bool" where
  "slot_ok C E D s W R i \<longleftrightarrow>
     (\<exists>t. t mod C = i \<and> t < D + C \<and> E \<le> t + C \<and>
        (s = t \<and> D \<le> t \<and> (t < E \<longrightarrow> t \<in> W) \<or> s = Suc t \<and> t < E \<and> (t < D \<longrightarrow> t \<in> R)))"

definition ring :: "nat \<Rightarrow> nat \<Rightarrow> nat \<Rightarrow> (nat \<Rightarrow> nat) \<Rightarrow> (nat \<Rightarrow> 'a option) \<Rightarrow>
    nat set \<Rightarrow> nat set \<Rightarrow> nat set \<Rightarrow> nat set \<Rightarrow> 'a list \<Rightarrow> bool" where
  "ring C E D sq dat W Wd R Rd g \<longleftrightarrow>
     2 \<le> C \<and> D \<le> E \<and> E \<le> D + C \<and> length g = E \<and> Wd \<subseteq> W \<and> Rd \<subseteq> R
     \<and> (\<forall>i < C. slot_ok C E D (sq i) W R i)
     \<and> (\<forall>t \<in> W. D \<le> t \<and> t < E \<and> sq (t mod C) = t)
     \<and> (\<forall>t \<in> R. t < D \<and> sq (t mod C) = Suc t)
     \<and> (\<forall>t \<in> Wd. dat (t mod C) = Some (g ! t))
     \<and> (\<forall>t < E. sq (t mod C) = Suc t \<longrightarrow> t \<notin> Rd \<longrightarrow> dat (t mod C) = Some (g ! t))"

lemma ringD:
  assumes "ring C E D sq dat W Wd R Rd g"
  shows "2 \<le> C" "D \<le> E" "E \<le> D + C" "length g = E" "Wd \<subseteq> W" "Rd \<subseteq> R"
    and "\<And>i. i < C \<Longrightarrow> slot_ok C E D (sq i) W R i"
    and "\<And>t. t \<in> W \<Longrightarrow> D \<le> t \<and> t < E \<and> sq (t mod C) = t"
    and "\<And>t. t \<in> R \<Longrightarrow> t < D \<and> sq (t mod C) = Suc t"
    and "\<And>t. t \<in> Wd \<Longrightarrow> dat (t mod C) = Some (g ! t)"
    and "\<And>t. t < E \<Longrightarrow> sq (t mod C) = Suc t \<Longrightarrow> t \<notin> Rd \<Longrightarrow> dat (t mod C) = Some (g ! t)"
  using assms unfolding ring_def by blast+

lemma ringI:
  assumes "2 \<le> C" "D \<le> E" "E \<le> D + C" "length g = E" "Wd \<subseteq> W" "Rd \<subseteq> R"
    and "\<And>i. i < C \<Longrightarrow> slot_ok C E D (sq i) W R i"
    and "\<And>t. t \<in> W \<Longrightarrow> D \<le> t \<and> t < E \<and> sq (t mod C) = t"
    and "\<And>t. t \<in> R \<Longrightarrow> t < D \<and> sq (t mod C) = Suc t"
    and "\<And>t. t \<in> Wd \<Longrightarrow> dat (t mod C) = Some (g ! t)"
    and "\<And>t. t < E \<Longrightarrow> sq (t mod C) = Suc t \<Longrightarrow> t \<notin> Rd \<Longrightarrow> dat (t mod C) = Some (g ! t)"
  shows "ring C E D sq dat W Wd R Rd g"
  unfolding ring_def using assms by blast

lemma same_slot_less: "t mod C = u mod C \<Longrightarrow> t < u \<Longrightarrow> t + C \<le> u" for t u C :: nat
  by (metis add.commute le_add_diff_inverse less_imp_le_nat mod_eq_dvd_iff_nat dvd_imp_le
      zero_less_diff add_le_mono1)

lemma same_slot_cases:
  fixes t u C :: nat
  assumes "t mod C = u mod C"
  obtains "t = u" | "t + C \<le> u" | "u + C \<le> t"
  using same_slot_less [OF assms] same_slot_less [OF assms [symmetric]] by (meson nat_neq_iff)

lemma not_same_slot_Suc: "2 \<le> C \<Longrightarrow> t mod C \<noteq> Suc t mod C" for t C :: nat
proof
  assume "2 \<le> C" and "t mod C = Suc t mod C"
  then show False using same_slot_less [of t C "Suc t"] by simp
qed

section \<open>Claiming tickets\<close>

lemma ring_claim_push:
  assumes r: "ring C E D sq dat W Wd R Rd g" and free: "sq (E mod C) = E"
  shows "ring C (Suc E) D sq dat (insert E W) Wd R Rd (g @ [v])" and "E \<notin> W" and "E < D + C"
proof -
  note r' = ringD [OF r]
  have "slot_ok C E D (sq (E mod C)) W R (E mod C)" using r'(1,7) by simp
  then show lt: "E < D + C"
    using free not_same_slot_Suc [of C] r'(1) unfolding slot_ok_def by auto
  show "E \<notin> W" using r'(8) by blast
  have slots: "slot_ok C (Suc E) D (sq i) (insert E W) R i" if i: "i < C" for i
  proof -
    obtain t where t: "t mod C = i" "t < D + C" "E \<le> t + C"
      "sq i = t \<and> D \<le> t \<and> (t < E \<longrightarrow> t \<in> W) \<or> sq i = Suc t \<and> t < E \<and> (t < D \<longrightarrow> t \<in> R)"
      using r'(7) [OF i] unfolding slot_ok_def by blast
    have "E \<noteq> t + C"
    proof
      assume E: "E = t + C"
      then have "E mod C = i" using t(1) by simp
      then show False using t(4) free E r'(1) by auto
    qed
    then show ?thesis using t unfolding slot_ok_def by (intro exI [of _ t]) auto
  qed
  have data: "dat (t mod C) = Some ((g @ [v]) ! t)"
    if "t < Suc E" "sq (t mod C) = Suc t" "t \<notin> Rd" for t
  proof -
    have "t \<noteq> E" using that(2) free by auto
    then show ?thesis using r'(4) r'(11) [of t] that by (simp add: nth_append)
  qed
  have "dat (t mod C) = Some ((g @ [v]) ! t)" if "t \<in> Wd" for t
    using r'(4,5,8,10) that by (metis nth_append subsetD)
  note Wd = this
  have W: "D \<le> t \<and> t < Suc E \<and> sq (t mod C) = t" if "t \<in> insert E W" for t
    using r'(2) r'(8) [of t] free that by (cases "t = E") auto
  show "ring C (Suc E) D sq dat (insert E W) Wd R Rd (g @ [v])"
    by (rule ringI [OF r'(1) _ _ _ _ r'(6) slots W r'(9) Wd data]) (use r'(2-5) lt in auto)
qed

lemma ring_claim_pop:
  assumes r: "ring C E D sq dat W Wd R Rd g" and ready: "sq (D mod C) = Suc D"
  shows "ring C E (Suc D) sq dat W Wd (insert D R) Rd g" and "D \<notin> R" and "D < E"
proof -
  note r' = ringD [OF r]
  have "slot_ok C E D (sq (D mod C)) W R (D mod C)" using r'(1,7) by simp
  then show lt: "D < E"
    using ready not_same_slot_Suc [of C D] r'(1) unfolding slot_ok_def by auto
  show "D \<notin> R" using r'(9) by blast
  have slots: "slot_ok C E (Suc D) (sq i) W (insert D R) i" if i: "i < C" for i
  proof -
    obtain t where t: "t mod C = i" "t < D + C" "E \<le> t + C"
      "sq i = t \<and> D \<le> t \<and> (t < E \<longrightarrow> t \<in> W) \<or> sq i = Suc t \<and> t < E \<and> (t < D \<longrightarrow> t \<in> R)"
      using r'(7) [OF i] unfolding slot_ok_def by blast
    have "sq i = t \<Longrightarrow> t \<noteq> D" using t(1) ready by auto
    then show ?thesis using t unfolding slot_ok_def by (intro exI [of _ t]) auto
  qed
  have W: "Suc D \<le> t \<and> t < E \<and> sq (t mod C) = t" if "t \<in> W" for t
    using r'(8) [OF that] ready by (cases "t = D") auto
  have R: "t < Suc D \<and> sq (t mod C) = Suc t" if "t \<in> insert D R" for t
    using r'(9) [of t] ready that by (cases "t = D") auto
  show "ring C E (Suc D) sq dat W Wd (insert D R) Rd g"
    by (rule ringI [OF r'(1) _ _ r'(4,5) _ slots W R r'(10,11)]) (use r'(3,6) lt in auto)
qed

section \<open>Accessing the cell of a ticket one holds\<close>

lemma ring_write:
  assumes r: "ring C E D sq dat W Wd R Rd g" and t: "t \<in> W"
  shows "ring C E D sq (dat(t mod C := Some (g ! t))) W (insert t Wd) R Rd g"
proof -
  note r' = ringD [OF r]
  have own: "sq (t mod C) = t" using r'(8) t by blast
  have "dat (u mod C) = Some (g ! u)" if "u \<in> Wd" for u using r'(10) that .
  moreover have "u = t" if "u \<in> Wd" "u mod C = t mod C" for u
    using r'(5,8) that own by (metis subsetD)
  moreover have apart: "u mod C \<noteq> t mod C" if "sq (u mod C) = Suc u" for u
    using own that not_same_slot_Suc [OF r'(1), of u] by auto
  ultimately have "(dat(t mod C := Some (g ! t))) (u mod C) = Some (g ! u)" if "u \<in> insert t Wd" for u
    using that by (cases "u = t") auto
  note Wd = this
  have data: "(dat(t mod C := Some (g ! t))) (u mod C) = Some (g ! u)"
    if "u < E" "sq (u mod C) = Suc u" "u \<notin> Rd" for u
    using r'(11) [OF that] apart [OF that(2)] by simp
  show ?thesis
    by (rule ringI [OF r'(1-4) _ r'(6-9) Wd data]) (use r'(5) t in auto)
qed

lemma ring_read:
  assumes r: "ring C E D sq dat W Wd R Rd g" and t: "t \<in> R" "t \<notin> Rd"
  shows "ring C E D sq (dat(t mod C := None)) W Wd R (insert t Rd) g"
    and "dat (t mod C) = Some (g ! t)"
proof -
  note r' = ringD [OF r]
  have own: "sq (t mod C) = Suc t" "t < E" using r'(9) [OF t(1)] r'(2) by auto
  then show "dat (t mod C) = Some (g ! t)" using r'(11) t(2) by blast
  have Wd: "(dat(t mod C := None)) (u mod C) = Some (g ! u)" if "u \<in> Wd" for u
  proof -
    have "sq (u mod C) = u" using r'(5,8) that by blast
    then have "u mod C \<noteq> t mod C" using own not_same_slot_Suc [OF r'(1), of t] by auto
    then show ?thesis using r'(10) [OF that] by simp
  qed
  have data: "(dat(t mod C := None)) (u mod C) = Some (g ! u)"
    if "u < E" "sq (u mod C) = Suc u" "u \<notin> insert t Rd" for u
    using r'(11) [of u] that own by auto
  show "ring C E D sq (dat(t mod C := None)) W Wd R (insert t Rd) g"
    by (rule ringI [OF r'(1-5) _ r'(7-9) Wd data]) (use r'(6) t in auto)
qed

section \<open>Handing the slot over\<close>

lemma ring_publish:
  assumes r: "ring C E D sq dat W Wd R Rd g" and t: "t \<in> Wd"
  shows "ring C E D (sq(t mod C := Suc t)) dat (W - {t}) (Wd - {t}) R Rd g"
proof -
  note r' = ringD [OF r]
  have tW: "t \<in> W" using r'(5) t by blast
  have own: "D \<le> t" "t < E" "sq (t mod C) = t" using r'(8) [OF tW] by auto
  have other: "u mod C \<noteq> t mod C" if "sq (u mod C) = u" "u \<noteq> t" for u
    using own(3) that by auto
  have other': "u mod C \<noteq> t mod C" if "sq (u mod C) = Suc u" for u
    using own(3) that not_same_slot_Suc [OF r'(1), of u] by auto
  have slots: "slot_ok C E D ((sq(t mod C := Suc t)) i) (W - {t}) R i" if i: "i < C" for i
  proof (cases "i = t mod C")
    case True
    then show ?thesis using own r'(3) unfolding slot_ok_def by (intro exI [of _ t]) auto
  next
    case False
    then show ?thesis using r'(7) [OF i] unfolding slot_ok_def by auto
  qed
  have data: "dat (u mod C) = Some (g ! u)"
    if "u < E" "(sq(t mod C := Suc t)) (u mod C) = Suc u" "u \<notin> Rd" for u
  proof (cases "u mod C = t mod C")
    case True
    then have "u = t" using that(2) by simp
    then show ?thesis using r'(10) [OF t] by simp
  next
    case False
    then show ?thesis using that r'(11) [of u] by simp
  qed
  have W: "D \<le> u \<and> u < E \<and> (sq(t mod C := Suc t)) (u mod C) = u" if "u \<in> W - {t}" for u
    using r'(8) [of u] other [of u] that by auto
  have R: "u < D \<and> (sq(t mod C := Suc t)) (u mod C) = Suc u" if "u \<in> R" for u
    using r'(9) [of u] other' [of u] that by auto
  show ?thesis
    by (rule ringI [OF r'(1-4) _ r'(6) slots W R r'(10) data]) (use r'(5) in auto)
qed

lemma ring_release:
  assumes r: "ring C E D sq dat W Wd R Rd g" and t: "t \<in> Rd"
  shows "ring C E D (sq(t mod C := t + C)) dat W Wd (R - {t}) (Rd - {t}) g"
proof -
  note r' = ringD [OF r]
  have tR: "t \<in> R" using r'(6) t by blast
  have own: "t < D" "sq (t mod C) = Suc t" using r'(9) [OF tR] by auto
  have "slot_ok C E D (sq (t mod C)) W R (t mod C)" using r'(1,7) by simp
  then have Et: "E \<le> t + C"
    using own(2) not_same_slot_Suc [OF r'(1), of t] unfolding slot_ok_def by auto
  have other: "u mod C \<noteq> t mod C" if "sq (u mod C) = u" for u
    using own(2) that not_same_slot_Suc [OF r'(1), of t] by auto
  have other': "u mod C \<noteq> t mod C" if "sq (u mod C) = Suc u" "u \<noteq> t" for u
    using own(2) that by auto
  have slots: "slot_ok C E D ((sq(t mod C := t + C)) i) W (R - {t}) i" if i: "i < C" for i
  proof (cases "i = t mod C")
    case True
    then show ?thesis
      using own Et r'(2) unfolding slot_ok_def by (intro exI [of _ "t + C"]) auto
  next
    case False
    then show ?thesis using r'(7) [OF i] own unfolding slot_ok_def by auto
  qed
  have data: "dat (u mod C) = Some (g ! u)"
    if "u < E" "(sq(t mod C := t + C)) (u mod C) = Suc u" "u \<notin> Rd - {t}" for u
  proof (cases "u mod C = t mod C")
    case True
    then have "Suc u = t + C" using that(2) by simp
    then show ?thesis using True r'(1) own not_same_slot_Suc [OF r'(1), of u] by auto
  next
    case False
    then show ?thesis using that r'(11) [of u] by auto
  qed
  have W: "D \<le> u \<and> u < E \<and> (sq(t mod C := t + C)) (u mod C) = u" if "u \<in> W" for u
    using r'(8) [of u] other [of u] that by auto
  have R: "u < D \<and> (sq(t mod C := t + C)) (u mod C) = Suc u" if "u \<in> R - {t}" for u
    using r'(9) [of u] other' [of u] that by auto
  show ?thesis
    by (rule ringI [OF r'(1-5) _ slots W R r'(10) data]) (use r'(6) in auto)
qed

section \<open>What a sequence tells a thread\<close>

text \<open>
  A push that finds the sequence behind its position looks at the current position, and either all
  the slots are claimed or a pop has claimed the slot's previous element and not yet released it.
\<close>

lemma ring_push_behind:
  assumes r: "ring C E D sq dat W Wd R Rd g" and "pos \<le> E" and "sq (pos mod C) < pos"
  shows "pos = E \<and> (E = D + C \<or> C \<le> E \<and> E - C \<in> R)"
proof -
  note r' = ringD [OF r]
  have "slot_ok C E D (sq (pos mod C)) W R (pos mod C)" using r'(1,7) by simp
  then obtain t where t: "t mod C = pos mod C" "t < D + C" "E \<le> t + C"
    "sq (pos mod C) = t \<and> D \<le> t \<and> (t < E \<longrightarrow> t \<in> W)
     \<or> sq (pos mod C) = Suc t \<and> t < E \<and> (t < D \<longrightarrow> t \<in> R)"
    unfolding slot_ok_def by blast
  then have "t < pos" using assms(3) by auto
  then have "t + C \<le> pos" by (rule same_slot_less [OF t(1)])
  then have "pos = E" "E = t + C" using assms(2) t(3) by auto
  then show ?thesis using t(4) r'(3) by (cases "t < D") auto
qed

text \<open>
  A pop that finds the sequence behind looks at the current position, and either no ticket is
  waiting or the push that claimed it has not published its element yet.
\<close>

lemma ring_pop_behind:
  assumes r: "ring C E D sq dat W Wd R Rd g" and "pos \<le> D" and "sq (pos mod C) \<le> pos"
  shows "pos = D \<and> (D = E \<or> D \<in> W)"
proof -
  note r' = ringD [OF r]
  have "slot_ok C E D (sq (pos mod C)) W R (pos mod C)" using r'(1,7) by simp
  then obtain t where t: "t mod C = pos mod C" "t < D + C" "E \<le> t + C"
    "sq (pos mod C) = t \<and> D \<le> t \<and> (t < E \<longrightarrow> t \<in> W)
     \<or> sq (pos mod C) = Suc t \<and> t < E \<and> (t < D \<longrightarrow> t \<in> R)"
    unfolding slot_ok_def by blast
  show ?thesis
  proof (cases "sq (pos mod C) = t \<and> D \<le> t")
    case True
    then have "t = D" "pos = D" using assms(2,3) by auto
    then show ?thesis using t(4) True r'(2) by (cases "D < E") auto
  next
    case False
    then have "t < pos" using t(4) assms(3) by auto
    then have "t + C \<le> pos" by (rule same_slot_less [OF t(1)])
    then show ?thesis using assms(2) t(3) r'(2) by auto
  qed
qed

lemma ring_slot_cases:
  assumes r: "ring C E D sq dat W Wd R Rd g"
  obtains t where "t mod C = u mod C" and "t < D + C" and "E \<le> t + C"
    and "sq (u mod C) = t \<and> D \<le> t \<or> sq (u mod C) = Suc t \<and> t < E"
proof -
  have "slot_ok C E D (sq (u mod C)) W R (u mod C)" using ringD(1,7) [OF r] by simp
  then show thesis using that unfolding slot_ok_def by blast
qed

text \<open>At the current position the sequence is never ahead, so a fresh load never retries.\<close>

lemma ring_push_not_ahead:
  assumes r: "ring C E D sq dat W Wd R Rd g"
  shows "sq (E mod C) \<le> E"
proof -
  note r' = ringD [OF r]
  obtain t where t: "t mod C = E mod C" "t < D + C"
    "sq (E mod C) = t \<and> D \<le> t \<or> sq (E mod C) = Suc t \<and> t < E"
    using ring_slot_cases [OF r, of E] by metis
  have "t \<le> E" using same_slot_less [of E C t] t(1,2) r'(2) by (cases "E < t") auto
  then show ?thesis using t(3) by auto
qed

lemma ring_pop_not_ahead:
  assumes r: "ring C E D sq dat W Wd R Rd g"
  shows "sq (D mod C) \<le> Suc D"
proof -
  obtain t where t: "t mod C = D mod C" "t < D + C"
    "sq (D mod C) = t \<and> D \<le> t \<or> sq (D mod C) = Suc t \<and> t < E"
    using ring_slot_cases [OF r, of D] by metis
  have "t \<le> D" using same_slot_less [of D C t] t(1,2) by (cases "D < t") auto
  then show ?thesis using t(3) by auto
qed

lemma ring_sq_bound:
  assumes "ring C E D sq dat W Wd R Rd g"
  shows "sq (u mod C) < D + C \<or> sq (u mod C) \<le> E"
  by (rule ring_slot_cases [OF assms, of u]) auto

text \<open>With no operation under way the two counters decide.\<close>

lemma ring_quiet_free:
  assumes r: "ring C E D sq dat {} Wd {} Rd g" and "E < D + C"
  shows "sq (E mod C) = E"
  using ring_push_behind [OF r le_refl] ring_push_not_ahead [OF r] assms(2)
  by (cases "sq (E mod C) < E") auto

lemma ring_quiet_ready:
  assumes r: "ring C E D sq dat {} Wd {} Rd g" and "D < E"
  shows "sq (D mod C) = Suc D"
  using ring_pop_behind [OF r le_refl] ring_pop_not_ahead [OF r] assms(2)
  by (cases "sq (D mod C) \<le> D") auto

lemma ring_init: "2 \<le> C \<Longrightarrow> (\<And>i. i < C \<Longrightarrow> sq i = i) \<Longrightarrow> ring C 0 0 sq dat {} {} {} {} []"
  unfolding ring_def slot_ok_def by (auto intro: mod_less)

end
