(* ===== verification/Lockfree_Conc.thy ===== *)
theory Lockfree_Conc
  imports Lockfree_Queue Ticket_Ring
begin

text \<open>
  Any number of threads inside \<open>try_push\<close> and \<open>try_pop\<close> of one lock-free queue, interleaved at
  their atomic accesses, under sequential consistency. The invariant of \<open>Ticket_Ring\<close> is
  transported to the 64-bit counters for executions of at most \<open>2 ^ 62\<close> steps, and gives the
  safety of the queue: no undefined behaviour, exclusive access to the cells, each pushed element
  popped at most once and in ticket order, what a refusal means, and that a call needs no other thread.
\<close>

section \<open>The system\<close>

text \<open>
  \<open>pushed\<close> (the elements in ticket order) and \<open>taken\<close> (which ticket was read out, and what was
  found) are history variables: no step reads them.
\<close>

record 'a sys =
  shared :: "'a lfq"
  threads :: "nat \<Rightarrow> 'a pc"
  pushed :: "'a list"
  taken :: "(nat \<times> 'a option) list"

fun note_push :: "'a pc \<Rightarrow> 'a pc \<Rightarrow> 'a list \<Rightarrow> 'a list" where
  "note_push (Push_cas v pos) (Push_write v' pos') g = g @ [v]"
| "note_push p p' g = g"

fun note_pop :: "'a pc \<Rightarrow> 'a pc \<Rightarrow> (nat \<times> 'a option) list \<Rightarrow> (nat \<times> 'a option) list" where
  "note_pop (Pop_read pos) (Pop_release pos' x) h = h @ [(unat pos, x)]"
| "note_pop p p' h = h"

definition run_thread :: "bool \<Rightarrow> nat \<Rightarrow> 'a sys \<Rightarrow> 'a sys" where
  "run_thread spurious th s =
     (let p = threads s th; (q', p') = thread_step spurious (shared s) p in
      \<lparr>shared = q', threads = (threads s)(th := p'),
       pushed = note_push p p' (pushed s), taken = note_pop p p' (taken s)\<rparr>)"

fun finished :: "'a pc \<Rightarrow> bool" where
  "finished (Push_done b) = True"
| "finished (Pop_done r) = True"
| "finished p = False"

inductive lf_step :: "'a sys \<Rightarrow> 'a sys \<Rightarrow> bool" where
  call_push: "threads s th = Idle \<Longrightarrow> lf_step s (s\<lparr>threads := (threads s)(th := Push_load v)\<rparr>)"
| call_pop: "threads s th = Idle \<Longrightarrow> lf_step s (s\<lparr>threads := (threads s)(th := Pop_load)\<rparr>)"
| run: "lf_step s (run_thread spurious th s)"
| return: "finished (threads s th) \<Longrightarrow> lf_step s (s\<lparr>threads := (threads s)(th := Idle)\<rparr>)"

definition lf_start :: "size_t \<Rightarrow> 'a sys" where
  "lf_start m = \<lparr>shared = LockFreeQueue m, threads = (\<lambda>_. Idle), pushed = [], taken = []\<rparr>"

text \<open>A queue constructed for at most \<open>2 ^ 62\<close> elements, and no thread inside a call.\<close>

inductive lf_init :: "'a sys \<Rightarrow> bool" where
  lf_init: "unat m \<le> 2 ^ 62 \<Longrightarrow> lf_init (lf_start m)"

text \<open>The same steps as labelled actions, to run a concrete schedule.\<close>

datatype 'a lf_action = Call_push nat 'a | Call_pop nat | Run bool nat | Return nat

fun lf_act :: "'a lf_action \<Rightarrow> 'a sys \<Rightarrow> 'a sys option" where
  "lf_act (Call_push th v) s =
     (case threads s th of
        Idle \<Rightarrow> Some (s\<lparr>threads := (threads s)(th := Push_load v)\<rparr>) | _ \<Rightarrow> None)"
| "lf_act (Call_pop th) s =
     (case threads s th of
        Idle \<Rightarrow> Some (s\<lparr>threads := (threads s)(th := Pop_load)\<rparr>) | _ \<Rightarrow> None)"
| "lf_act (Run sp th) s = Some (run_thread sp th s)"
| "lf_act (Return th) s =
     (if finished (threads s th) then Some (s\<lparr>threads := (threads s)(th := Idle)\<rparr>) else None)"

lemma lf_act_step: "lf_act a s = Some t \<Longrightarrow> lf_step s t"
  by (cases a) (auto intro: lf_step.intros split: pc.splits if_splits)

section \<open>The counters as numbers\<close>

abbreviation cap :: "'a lfq \<Rightarrow> nat" where "cap q \<equiv> unat (capacity q)"
abbreviation enq_t :: "'a lfq \<Rightarrow> nat" where "enq_t q \<equiv> unat (enqueue_pos q)"
abbreviation deq_t :: "'a lfq \<Rightarrow> nat" where "deq_t q \<equiv> unat (dequeue_pos q)"

definition seqn :: "'a lfq \<Rightarrow> nat \<Rightarrow> nat" where
  "seqn q i = unat (slot_sequence (buffer q ! i))"

definition cell :: "'a lfq \<Rightarrow> nat \<Rightarrow> 'a option" where
  "cell q i = slot_data (buffer q ! i)"

definition geometry_ok :: "'a lfq \<Rightarrow> bool" where
  "geometry_ok q \<longleftrightarrow>
     (\<exists>k. 1 \<le> k \<and> k \<le> 62 \<and> cap q = 2 ^ k \<and> pos_mask q = mask k \<and> length (buffer q) = 2 ^ k)"

lemma slot_index_mod:
  assumes "geometry_ok q"
  shows "slot_index q pos = unat pos mod cap q"
proof -
  obtain k where k: "cap q = 2 ^ k" "pos_mask q = mask k" using assms by (auto simp: geometry_ok_def)
  have "slot_index q pos = unat (take_bit k pos)"
    by (simp add: slot_index_def k(2) take_bit_eq_mask)
  also have "\<dots> = take_bit k (unat pos)" by (rule unsigned_take_bit_eq)
  finally show ?thesis by (simp add: take_bit_eq_mod k(1))
qed

lemma geometry_length: "geometry_ok q \<Longrightarrow> length (buffer q) = cap q"
  by (auto simp: geometry_ok_def)

lemma geometry_cap: "geometry_ok q \<Longrightarrow> cap q \<le> 2 ^ 62" "geometry_ok q \<Longrightarrow> 0 < cap q"
  using power_increasing [of _ 62 "2 :: nat"] by (auto simp: geometry_ok_def)

lemma slot_index_in: "geometry_ok q \<Longrightarrow> slot_index q pos < length (buffer q)"
  using geometry_cap(2) [of q] by (simp add: slot_index_mod geometry_length)

lemma update_slot_frame [simp]:
  "capacity (update_slot f pos q) = capacity q"
  "pos_mask (update_slot f pos q) = pos_mask q"
  "enqueue_pos (update_slot f pos q) = enqueue_pos q"
  "dequeue_pos (update_slot f pos q) = dequeue_pos q"
  "length (buffer (update_slot f pos q)) = length (buffer q)"
  by (simp_all add: update_slot_def Let_def)

lemma geometry_update [simp]:
  "geometry_ok (update_slot f pos q) = geometry_ok q"
  "geometry_ok (q\<lparr>enqueue_pos := x\<rparr>) = geometry_ok q"
  "geometry_ok (q\<lparr>dequeue_pos := x\<rparr>) = geometry_ok q"
  by (simp_all add: geometry_ok_def)

lemma view_update [simp]:
  "seqn (q\<lparr>enqueue_pos := x\<rparr>) = seqn q" "cell (q\<lparr>enqueue_pos := x\<rparr>) = cell q"
  "seqn (q\<lparr>dequeue_pos := x\<rparr>) = seqn q" "cell (q\<lparr>dequeue_pos := x\<rparr>) = cell q"
  by (simp_all add: seqn_def cell_def fun_eq_iff)

lemma view_update_slot:
  assumes "geometry_ok q"
  shows "seqn (update_slot (slot_data_update f) pos q) = seqn q"
    and "cell (update_slot (slot_data_update (\<lambda>_. x)) pos q) = (cell q)(unat pos mod cap q := x)"
    and "seqn (update_slot (slot_sequence_update (\<lambda>_. w)) pos q)
           = (seqn q)(unat pos mod cap q := unat w)"
    and "cell (update_slot (slot_sequence_update h) pos q) = cell q"
  using slot_index_in [OF assms, of pos] slot_index_mod [OF assms, of pos]
  by (auto simp: update_slot_def Let_def seqn_def cell_def fun_eq_iff nth_list_update)

lemma small_sint:
  assumes "unat (w :: size_t) < 2 ^ 63"
  shows "sint w = int (unat w)" and "int (unat w) < 2 ^ 63"
proof -
  have "int (unat w) < int (2 ^ 63)" using assms by (simp only: of_nat_less_iff)
  then show lt: "int (unat w) < 2 ^ 63" by (simp only: of_nat_power of_nat_numeral)
  have "signed_take_bit 63 (uint w) = uint w"
  proof (rule signed_take_bit_int_eq_self)
    show "- (2 ^ 63) \<le> uint w" by (rule order_trans [OF _ uint_ge_0]) simp
    show "uint w < 2 ^ 63" using lt by simp
  qed
  then show "sint w = int (unat w)" by (simp add: sint_uint)
qed

lemma ptrdiff_nat:
  assumes "unat a < 2 ^ 63" and "unat b < 2 ^ 63"
  shows "ptrdiff a b = Some (int (unat a) - int (unat b))"
  unfolding ptrdiff_def Let_def small_sint(1) [OF assms(1)] small_sint(1) [OF assms(2)]
  using small_sint(2) [OF assms(1)] small_sint(2) [OF assms(2)]
  by (simp del: of_nat_unat)

section \<open>The invariant of the system\<close>

text \<open>The ticket a thread holds for writing or reading, and whether its cell is done.\<close>

fun write_ticket :: "'a pc \<Rightarrow> nat option" where
  "write_ticket (Push_write v pos) = Some (unat pos)"
| "write_ticket (Push_publish pos) = Some (unat pos)"
| "write_ticket p = None"

fun written_ticket :: "'a pc \<Rightarrow> nat option" where
  "written_ticket (Push_publish pos) = Some (unat pos)"
| "written_ticket p = None"

fun read_ticket :: "'a pc \<Rightarrow> nat option" where
  "read_ticket (Pop_read pos) = Some (unat pos)"
| "read_ticket (Pop_release pos r) = Some (unat pos)"
| "read_ticket p = None"

fun emptied_ticket :: "'a pc \<Rightarrow> nat option" where
  "emptied_ticket (Pop_release pos r) = Some (unat pos)"
| "emptied_ticket p = None"

definition held :: "('a pc \<Rightarrow> nat option) \<Rightarrow> (nat \<Rightarrow> 'a pc) \<Rightarrow> nat set" where
  "held f ts = {t. \<exists>th. f (ts th) = Some t}"

definition exclusive :: "('a pc \<Rightarrow> nat option) \<Rightarrow> (nat \<Rightarrow> 'a pc) \<Rightarrow> bool" where
  "exclusive f ts \<longleftrightarrow> (\<forall>i j t. f (ts i) = Some t \<longrightarrow> f (ts j) = Some t \<longrightarrow> i = j)"

lemma held_update:
  assumes "exclusive f ts"
  shows "held f (ts(i := p)) = (held f ts - set_option (f (ts i))) \<union> set_option (f p)"
  using assms unfolding held_def exclusive_def by (auto simp: elem_set split: if_splits)

lemma exclusive_update:
  assumes "exclusive f ts" and "\<And>t. f p = Some t \<Longrightarrow> f (ts i) = Some t \<or> t \<notin> held f ts"
  shows "exclusive f (ts(i := p))"
  using assms unfolding exclusive_def held_def by (auto split: if_splits)

lemma heldI: "f (ts i) = Some t \<Longrightarrow> t \<in> held f ts"
  by (auto simp: held_def)

lemma written_write: "written_ticket p = Some t \<Longrightarrow> write_ticket p = Some t"
  by (cases p) auto

lemma emptied_read: "emptied_ticket p = Some t \<Longrightarrow> read_ticket p = Some t"
  by (cases p) auto

lemma exclusive_written: "exclusive write_ticket ts \<Longrightarrow> exclusive written_ticket ts"
  unfolding exclusive_def by (meson written_write)

lemma exclusive_emptied: "exclusive read_ticket ts \<Longrightarrow> exclusive emptied_ticket ts"
  unfolding exclusive_def by (meson emptied_read)

text \<open>What a thread knows from its own reads and writes.\<close>

fun thread_ok :: "nat \<Rightarrow> nat \<Rightarrow> nat \<Rightarrow> (nat \<Rightarrow> nat) \<Rightarrow> 'a list \<Rightarrow> (nat \<times> 'a option) list \<Rightarrow> 'a pc \<Rightarrow> bool" where
  "thread_ok C E D sq g h (Push_seq v pos) \<longleftrightarrow> unat pos \<le> E"
| "thread_ok C E D sq g h (Push_cas v pos) \<longleftrightarrow>
     unat pos \<le> E \<and> (unat pos = E \<longrightarrow> sq (E mod C) = E)"
| "thread_ok C E D sq g h (Push_write v pos) \<longleftrightarrow> unat pos < length g \<and> g ! unat pos = v"
| "thread_ok C E D sq g h (Pop_seq pos) \<longleftrightarrow> unat pos \<le> D"
| "thread_ok C E D sq g h (Pop_cas pos) \<longleftrightarrow>
     unat pos \<le> D \<and> (unat pos = D \<longrightarrow> sq (D mod C) = Suc D)"
| "thread_ok C E D sq g h (Pop_release pos r) \<longleftrightarrow> (unat pos, r) \<in> set h"
| "thread_ok C E D sq g h (Pop_done r) \<longleftrightarrow>
     (case r of None \<Rightarrow> True | Some x \<Rightarrow> \<exists>t. (t, x) \<in> set h)"
| "thread_ok C E D sq g h Undefined \<longleftrightarrow> False"
| "thread_ok C E D sq g h p \<longleftrightarrow> True"

lemma thread_ok_mono:
  assumes "thread_ok C E D sq g h p"
    and "E \<le> E'" and "E' = E \<Longrightarrow> sq (E mod C) = E \<Longrightarrow> sq' (E mod C) = E"
    and "D \<le> D'" and "D' = D \<Longrightarrow> sq (D mod C) = Suc D \<Longrightarrow> sq' (D mod C) = Suc D"
    and "\<exists>more. g' = g @ more" and "set h \<subseteq> set h'"
  shows "thread_ok C E' D' sq' g' h' p"
proof -
  obtain more where "g' = g @ more" using assms(6) by blast
  then show ?thesis
    using assms by (cases p; cases "E' = E"; cases "D' = D")
      (auto simp: nth_append split: option.splits)
qed

text \<open>Every ticket below the pop counter is either read out, once, or about to be (\<open>U\<close>).\<close>

definition taken_ok :: "nat \<Rightarrow> nat set \<Rightarrow> (nat \<times> 'a option) list \<Rightarrow> 'a list \<Rightarrow> bool" where
  "taken_ok D U h g \<longleftrightarrow>
     distinct (map fst h) \<and> fst ` set h \<inter> U = {} \<and> fst ` set h \<union> U = {..<D}
     \<and> (\<forall>(t, x) \<in> set h. t < length g \<and> x = Some (g ! t))"

lemma taken_okD:
  assumes "taken_ok D U h g" and "(t, x) \<in> set h"
  shows "t < D" "t \<notin> U" "t < length g" "x = Some (g ! t)"
proof -
  have "t \<in> fst ` set h" using assms(2) by force
  then show "t < D" "t \<notin> U" using assms(1) unfolding taken_ok_def by blast+
  show "t < length g" "x = Some (g ! t)" using assms unfolding taken_ok_def by auto
qed

lemma taken_ok_push: "taken_ok D U h g \<Longrightarrow> taken_ok D U h (g @ [v])"
  unfolding taken_ok_def by (auto simp: nth_append)

lemma taken_ok_claim: "taken_ok D U h g \<Longrightarrow> taken_ok (Suc D) (insert D U) h g"
  unfolding taken_ok_def by (auto simp: lessThan_Suc)

lemma taken_ok_take:
  assumes tk: "taken_ok D U h g" and t: "t \<in> U" and x: "x = Some (g ! t)" and "t < length g"
  shows "taken_ok D (U - {t}) (h @ [(t, x)]) g"
proof -
  have fresh: "t \<notin> fst ` set h" using tk t unfolding taken_ok_def by blast
  have sets: "insert t (fst ` set h) \<inter> (U - {t}) = {}"
    "insert t (fst ` set h) \<union> (U - {t}) = {..<D}"
    using tk t unfolding taken_ok_def by blast+
  show ?thesis
    using tk assms(3,4) fresh sets unfolding taken_ok_def by simp
qed

definition lf_inv :: "nat \<Rightarrow> 'a sys \<Rightarrow> bool" where
  "lf_inv n s \<longleftrightarrow>
     (let q = shared s; ts = threads s; C = cap q; E = enq_t q; D = deq_t q in
      geometry_ok q \<and> E \<le> n
      \<and> ring C E D (seqn q) (cell q) (held write_ticket ts) (held written_ticket ts)
          (held read_ticket ts) (held emptied_ticket ts) (pushed s)
      \<and> exclusive write_ticket ts \<and> exclusive read_ticket ts
      \<and> (\<forall>th. thread_ok C E D (seqn q) (pushed s) (taken s) (ts th))
      \<and> taken_ok D (held read_ticket ts - held emptied_ticket ts) (taken s) (pushed s))"

lemma lf_invD:
  assumes "lf_inv n s"
  shows "geometry_ok (shared s)" and "enq_t (shared s) \<le> n"
    and "ring (cap (shared s)) (enq_t (shared s)) (deq_t (shared s)) (seqn (shared s))
      (cell (shared s)) (held write_ticket (threads s)) (held written_ticket (threads s))
      (held read_ticket (threads s)) (held emptied_ticket (threads s)) (pushed s)"
    and "exclusive write_ticket (threads s)" and "exclusive read_ticket (threads s)"
    and "\<And>th. thread_ok (cap (shared s)) (enq_t (shared s)) (deq_t (shared s)) (seqn (shared s))
      (pushed s) (taken s) (threads s th)"
    and "taken_ok (deq_t (shared s)) (held read_ticket (threads s) - held emptied_ticket (threads s))
      (taken s) (pushed s)"
  using assms unfolding lf_inv_def Let_def by blast+

text \<open>
  The general shape of a step of thread \<open>th\<close>: new shared memory, a new local state, and longer
  histories.
\<close>

lemma lf_inv_thread:
  assumes inv: "lf_inv n s"
    and geo: "geometry_ok q'" and cap: "capacity q' = capacity (shared s)"
    and E: "enq_t (shared s) \<le> enq_t q'" "enq_t q' \<le> m" and D: "deq_t (shared s) \<le> deq_t q'"
    and Eframe: "enq_t q' = enq_t (shared s) \<Longrightarrow>
      seqn (shared s) (enq_t (shared s) mod cap q') = enq_t (shared s) \<Longrightarrow>
      seqn q' (enq_t (shared s) mod cap q') = enq_t (shared s)"
    and Dframe: "deq_t q' = deq_t (shared s) \<Longrightarrow>
      seqn (shared s) (deq_t (shared s) mod cap q') = Suc (deq_t (shared s)) \<Longrightarrow>
      seqn q' (deq_t (shared s) mod cap q') = Suc (deq_t (shared s))"
    and more: "\<exists>more. g' = pushed s @ more" "set (taken s) \<subseteq> set h'"
    and r: "ring (cap q') (enq_t q') (deq_t q') (seqn q') (cell q')
      (held write_ticket ((threads s)(th := p'))) (held written_ticket ((threads s)(th := p')))
      (held read_ticket ((threads s)(th := p'))) (held emptied_ticket ((threads s)(th := p'))) g'"
    and ex: "\<And>t. write_ticket p' = Some t \<Longrightarrow>
        write_ticket (threads s th) = Some t \<or> t \<notin> held write_ticket (threads s)"
      "\<And>t. read_ticket p' = Some t \<Longrightarrow>
        read_ticket (threads s th) = Some t \<or> t \<notin> held read_ticket (threads s)"
    and own: "thread_ok (cap q') (enq_t q') (deq_t q') (seqn q') g' h' p'"
    and tk: "taken_ok (deq_t q') (held read_ticket ((threads s)(th := p'))
        - held emptied_ticket ((threads s)(th := p'))) h' g'"
  shows "lf_inv m \<lparr>shared = q', threads = (threads s)(th := p'), pushed = g', taken = h'\<rparr>"
proof -
  note i = lf_invD [OF inv]
  have "thread_ok (cap q') (enq_t q') (deq_t q') (seqn q') g' h' (((threads s)(th := p')) k)" for k
    using own thread_ok_mono [OF i(6) [of k] E(1) _ D _ more] Eframe Dframe
    by (cases "k = th") (simp_all add: cap)
  then show ?thesis
    unfolding lf_inv_def Let_def
    using geo E(2) r exclusive_update [OF i(4) ex(1)] exclusive_update [OF i(5) ex(2)] tk by simp
qed

lemma word_Suc: "unat (p :: size_t) \<le> 2 ^ 62 \<Longrightarrow> unat (p + 1) = Suc (unat p)"
  by (simp add: unat_word_ariths)

lemma word_add_cap:
  "unat (p :: size_t) \<le> 2 ^ 62 \<Longrightarrow> unat c \<le> 2 ^ 62 \<Longrightarrow> unat (p + c) = unat p + unat c"
  by (simp add: unat_word_ariths)

lemma note_simps [simp]:
  "note_push p (Push_seq v pos) g = g" "note_push p (Push_cas v pos) g = g"
  "note_push p (Push_load v) g = g" "note_push p (Push_publish pos) g = g"
  "note_push p (Push_done b) g = g" "note_push p (Pop_seq pos) g = g"
  by (cases p; simp)+

text \<open>Steps of thread \<open>th\<close> that change neither shared memory nor the tickets it holds.\<close>

lemma lf_inv_local:
  assumes inv: "lf_inv n s" and "n \<le> m"
    and "write_ticket p' = None" "write_ticket (threads s th) = None"
    and "read_ticket p' = None" "read_ticket (threads s th) = None"
    and own: "thread_ok (cap (shared s)) (enq_t (shared s)) (deq_t (shared s)) (seqn (shared s))
      (pushed s) (taken s) p'"
  shows "lf_inv m (s\<lparr>threads := (threads s)(th := p')\<rparr>)"
proof -
  note i = lf_invD [OF inv]
  have written: "written_ticket p = None" if "write_ticket p = None" for p :: "'a pc"
    using that by (cases p) auto
  have emptied: "emptied_ticket p = None" if "read_ticket p = None" for p :: "'a pc"
    using that by (cases p) auto
  have held: "held f ((threads s)(th := p')) = held f (threads s)"
    if "f p' = None" "f (threads s th) = None" for f :: "'a pc \<Rightarrow> nat option"
    using that unfolding held_def by (auto, metis option.distinct(1))
  have "lf_inv m \<lparr>shared = shared s, threads = (threads s)(th := p'), pushed = pushed s,
      taken = taken s\<rparr>"
    by (rule lf_inv_thread [OF inv])
      (use i assms(2-6) own in \<open>simp_all add: held written emptied\<close>)
  moreover have "s\<lparr>threads := (threads s)(th := p')\<rparr> = \<lparr>shared = shared s,
      threads = (threads s)(th := p'), pushed = pushed s, taken = taken s\<rparr>" by (cases s) simp
  ultimately show ?thesis by (simp only:)
qed

text \<open>The bounds that keep the word arithmetic exact.\<close>

lemma lf_bounds:
  assumes "lf_inv n s" and "n \<le> 2 ^ 62" and "q = shared s"
  shows "cap q \<le> 2 ^ 62" "2 \<le> cap q" "enq_t q \<le> 2 ^ 62" "deq_t q \<le> enq_t q"
    and "seqn q (i mod cap q) < 2 ^ 63"
proof -
  note i = lf_invD [OF assms(1), folded assms(3)]
  show b: "cap q \<le> 2 ^ 62" using geometry_cap(1) [OF i(1)] .
  show "2 \<le> cap q" "deq_t q \<le> enq_t q" using ringD(1,2) [OF i(3)] by auto
  show e: "enq_t q \<le> 2 ^ 62" using i(2) assms(2) by linarith
  have "seqn q (i mod cap q) < deq_t q + cap q \<or> seqn q (i mod cap q) \<le> enq_t q"
    by (rule ring_sq_bound [OF i(3)])
  then show "seqn q (i mod cap q) < 2 ^ 63"
    using b e \<open>deq_t q \<le> enq_t q\<close> by auto
qed

text \<open>The comparison a push makes, and the one a pop makes.\<close>

lemma push_compare:
  assumes "lf_inv n s" and "n \<le> 2 ^ 62" and "q = shared s" and "unat pos \<le> enq_t q"
  shows "thread_step spurious q (Push_seq v pos) =
    (let k = seqn q (unat pos mod cap q) in
     (q, if k = unat pos then Push_cas v pos else if k < unat pos then Push_done False
         else Push_load v))"
proof -
  note b = lf_bounds [OF assms(1-3)]
  note geo = lf_invD(1) [OF assms(1), folded assms(3)]
  let ?w = "slot_sequence (buffer q ! slot_index q pos)"
  have k: "unat ?w = seqn q (unat pos mod cap q)"
    by (simp add: seqn_def slot_index_mod [OF geo])
  have "unat pos < 2 ^ 63" using assms(4) b(3) by simp
  then have "ptrdiff ?w pos = Some (int (unat ?w) - int (unat pos))"
    using b(5) by (intro ptrdiff_nat) (simp_all add: k)
  then show ?thesis
    using slot_index_in [OF geo, of pos] by (simp add: Let_def k del: of_nat_unat)
qed

lemma pop_compare:
  assumes "lf_inv n s" and "n \<le> 2 ^ 62" and "q = shared s" and "unat pos \<le> deq_t q"
  shows "thread_step spurious q (Pop_seq pos) =
    (let k = seqn q (unat pos mod cap q) in
     (q, if k = Suc (unat pos) then Pop_cas pos else if k \<le> unat pos then Pop_done None
         else Pop_load))"
proof -
  note b = lf_bounds [OF assms(1-3)]
  note geo = lf_invD(1) [OF assms(1), folded assms(3)]
  let ?w = "slot_sequence (buffer q ! slot_index q pos)"
  have k: "unat ?w = seqn q (unat pos mod cap q)"
    by (simp add: seqn_def slot_index_mod [OF geo])
  have "unat pos \<le> 2 ^ 62" using assms(4) b(3,4) by simp
  note suc = word_Suc [OF this]
  have "ptrdiff ?w (pos + 1) = Some (int (unat ?w) - int (unat (pos + 1)))"
    using b(5) \<open>unat pos \<le> 2 ^ 62\<close> by (intro ptrdiff_nat) (simp_all add: k suc)
  then show ?thesis
    using slot_index_in [OF geo, of pos]
    by (simp add: Let_def k suc del: of_nat_unat of_nat_Suc)
qed

section \<open>Every step keeps the invariant\<close>

lemma run_thread_eq:
  assumes "thread_step spurious (shared s) (threads s th) = (q', p')"
  shows "run_thread spurious th s = \<lparr>shared = q', threads = (threads s)(th := p'),
      pushed = note_push (threads s th) p' (pushed s),
      taken = note_pop (threads s th) p' (taken s)\<rparr>"
  using assms by (simp add: run_thread_def Let_def)

lemma run_thread_local:
  assumes "thread_step spurious (shared s) (threads s th) = (shared s, p')"
    and "note_push (threads s th) p' (pushed s) = pushed s"
    and "note_pop (threads s th) p' (taken s) = taken s"
  shows "run_thread spurious th s = s\<lparr>threads := (threads s)(th := p')\<rparr>"
  using assms by (cases s) (simp add: run_thread_eq)

lemma inv_push_claim:
  assumes inv: "lf_inv n s" and n: "n < 2 ^ 62" and p: "threads s th = Push_cas v pos"
    and won: "enqueue_pos (shared s) = pos"
  shows "lf_inv (Suc n) (run_thread False th s)"
proof -
  note i = lf_invD [OF inv] and b = lf_bounds [OF inv less_imp_le [OF n] refl]
  let ?q = "shared s" and ?ts = "threads s"
  let ?p' = "Push_write v pos :: 'a pc" and ?q' = "?q\<lparr>enqueue_pos := pos + 1\<rparr>"
  have suc: "unat (pos + 1) = Suc (enq_t ?q)" using word_Suc [of pos] b(3) won by simp
  have free: "seqn ?q (enq_t ?q mod cap ?q) = enq_t ?q" using i(6) [of th] p won by simp
  note claim = ring_claim_push(1) [OF i(3) free, of v] ring_claim_push(2,3) [OF i(3) free]
  have W: "held write_ticket (?ts(th := ?p')) = insert (enq_t ?q) (held write_ticket ?ts)"
    using held_update [OF i(4), of th ?p'] p won by simp
  have Wd: "held written_ticket (?ts(th := ?p')) = held written_ticket ?ts"
    using held_update [OF exclusive_written [OF i(4)], of th ?p'] p by simp
  have R: "held read_ticket (?ts(th := ?p')) = held read_ticket ?ts"
    using held_update [OF i(5), of th ?p'] p by simp
  have Rd: "held emptied_ticket (?ts(th := ?p')) = held emptied_ticket ?ts"
    using held_update [OF exclusive_emptied [OF i(5)], of th ?p'] p by simp
  have "lf_inv (Suc n) \<lparr>shared = ?q', threads = ?ts(th := ?p'), pushed = pushed s @ [v],
      taken = taken s\<rparr>"
    by (rule lf_inv_thread [OF inv])
      (use i(1,2) claim p won suc W Wd R Rd ringD(4) [OF i(3)] taken_ok_push [OF i(7)]
        in \<open>auto simp: nth_append\<close>)
  then show ?thesis by (subst run_thread_eq) (use p won in auto)
qed

lemma inv_pop_claim:
  assumes inv: "lf_inv n s" and n: "n < 2 ^ 62" and p: "threads s th = Pop_cas pos"
    and won: "dequeue_pos (shared s) = pos"
  shows "lf_inv (Suc n) (run_thread False th s)"
proof -
  note i = lf_invD [OF inv] and b = lf_bounds [OF inv less_imp_le [OF n] refl]
  let ?q = "shared s" and ?ts = "threads s"
  let ?p' = "Pop_read pos :: 'a pc" and ?q' = "?q\<lparr>dequeue_pos := pos + 1\<rparr>"
  have suc: "unat (pos + 1) = Suc (deq_t ?q)" using word_Suc [of pos] b(3,4) won by simp
  have ready: "seqn ?q (deq_t ?q mod cap ?q) = Suc (deq_t ?q)" using i(6) [of th] p won by simp
  note claim = ring_claim_pop [OF i(3) ready]
  have W: "held write_ticket (?ts(th := ?p')) = held write_ticket ?ts"
    using held_update [OF i(4), of th ?p'] p by simp
  have Wd: "held written_ticket (?ts(th := ?p')) = held written_ticket ?ts"
    using held_update [OF exclusive_written [OF i(4)], of th ?p'] p by simp
  have R: "held read_ticket (?ts(th := ?p')) = insert (deq_t ?q) (held read_ticket ?ts)"
    using held_update [OF i(5), of th ?p'] p won by simp
  have Rd: "held emptied_ticket (?ts(th := ?p')) = held emptied_ticket ?ts"
    using held_update [OF exclusive_emptied [OF i(5)], of th ?p'] p by simp
  have notRd: "deq_t ?q \<notin> held emptied_ticket ?ts" using claim(2) ringD(6) [OF i(3)] by blast
  have "lf_inv (Suc n) \<lparr>shared = ?q', threads = ?ts(th := ?p'), pushed = pushed s,
      taken = taken s\<rparr>"
    by (rule lf_inv_thread [OF inv])
      (use i(1,2) claim p won suc W Wd R Rd taken_ok_claim [OF i(7)] notRd
        in \<open>auto simp: insert_Diff_if\<close>)
  then show ?thesis by (subst run_thread_eq) (use p won in auto)
qed

lemma inv_push_write:
  assumes inv: "lf_inv n s" and n: "n < 2 ^ 62" and p: "threads s th = Push_write v pos"
  shows "lf_inv (Suc n) (run_thread spurious th s)"
proof -
  note i = lf_invD [OF inv] and b = lf_bounds [OF inv less_imp_le [OF n] refl]
  let ?q = "shared s" and ?ts = "threads s" and ?t = "unat pos"
  let ?p' = "Push_publish pos :: 'a pc"
  let ?q' = "update_slot (\<lambda>s. s\<lparr>slot_data := Some v\<rparr>) pos ?q"
  have t: "?t \<in> held write_ticket ?ts" using p by (intro heldI [of _ _ th]) simp
  have gv: "pushed s ! ?t = v" using i(6) [of th] p by simp
  note view = view_update_slot(1,2) [OF i(1)]
  have W: "held write_ticket (?ts(th := ?p')) = held write_ticket ?ts"
    using held_update [OF i(4), of th ?p'] p t by auto
  have Wd: "held written_ticket (?ts(th := ?p')) = insert ?t (held written_ticket ?ts)"
    using held_update [OF exclusive_written [OF i(4)], of th ?p'] p by auto
  have R: "held read_ticket (?ts(th := ?p')) = held read_ticket ?ts"
    using held_update [OF i(5), of th ?p'] p by simp
  have Rd: "held emptied_ticket (?ts(th := ?p')) = held emptied_ticket ?ts"
    using held_update [OF exclusive_emptied [OF i(5)], of th ?p'] p by simp
  have "lf_inv (Suc n) \<lparr>shared = ?q', threads = ?ts(th := ?p'), pushed = pushed s,
      taken = taken s\<rparr>"
    by (rule lf_inv_thread [OF inv])
      (use i(1,2,7) ring_write [OF i(3) t] p in \<open>simp_all add: view W Wd R Rd gv\<close>)
  then show ?thesis by (subst run_thread_eq) (use p in auto)
qed

lemma inv_pop_read:
  assumes inv: "lf_inv n s" and n: "n < 2 ^ 62" and p: "threads s th = Pop_read pos"
  shows "lf_inv (Suc n) (run_thread spurious th s)"
proof -
  note i = lf_invD [OF inv] and b = lf_bounds [OF inv less_imp_le [OF n] refl]
  let ?q = "shared s" and ?ts = "threads s" and ?t = "unat pos"
  let ?x = "cell ?q (?t mod cap ?q)"
  let ?p' = "Pop_release pos ?x" and ?h = "taken s @ [(?t, ?x)]"
  let ?q' = "update_slot (\<lambda>s. s\<lparr>slot_data := None\<rparr>) pos ?q"
  have t: "?t \<in> held read_ticket ?ts" using p by (intro heldI [of _ _ th]) simp
  have t': "?t \<notin> held emptied_ticket ?ts"
  proof
    assume "?t \<in> held emptied_ticket ?ts"
    then obtain j where j: "emptied_ticket (?ts j) = Some ?t" by (auto simp: held_def)
    then have "j = th" using i(5) p emptied_read unfolding exclusive_def by fastforce
    then show False using j p by simp
  qed
  note read = ring_read [OF i(3) t t']
  note view = view_update_slot(1,2) [OF i(1)]
  have W: "held write_ticket (?ts(th := ?p')) = held write_ticket ?ts"
    using held_update [OF i(4), of th ?p'] p by simp
  have Wd: "held written_ticket (?ts(th := ?p')) = held written_ticket ?ts"
    using held_update [OF exclusive_written [OF i(4)], of th ?p'] p by simp
  have R: "held read_ticket (?ts(th := ?p')) = held read_ticket ?ts"
    using held_update [OF i(5), of th ?p'] p t by auto
  have Rd: "held emptied_ticket (?ts(th := ?p')) = insert ?t (held emptied_ticket ?ts)"
    using held_update [OF exclusive_emptied [OF i(5)], of th ?p'] p by auto
  have less: "?t < length (pushed s)" using ringD(2,4,9) [OF i(3)] t by force
  have tk: "taken_ok (deq_t ?q) (held read_ticket ?ts - insert ?t (held emptied_ticket ?ts)) ?h (pushed s)"
    by (subst Diff_insert) (rule taken_ok_take [OF i(7) DiffI [OF t t'] read(2) less])
  have "lf_inv (Suc n) \<lparr>shared = ?q', threads = ?ts(th := ?p'), pushed = pushed s, taken = ?h\<rparr>"
    by (rule lf_inv_thread [OF inv])
      (use i(1,2) tk read(1) p in \<open>simp_all add: view W Wd R Rd subset_insertI\<close>)
  then show ?thesis
    by (subst run_thread_eq) (use p in \<open>auto simp: cell_def slot_index_mod [OF i(1)]\<close>)
qed

lemma inv_push_publish:
  assumes inv: "lf_inv n s" and n: "n < 2 ^ 62" and p: "threads s th = Push_publish pos"
  shows "lf_inv (Suc n) (run_thread spurious th s)"
proof -
  note i = lf_invD [OF inv] and b = lf_bounds [OF inv less_imp_le [OF n] refl]
  let ?q = "shared s" and ?ts = "threads s" and ?t = "unat pos"
  let ?p' = "Push_done True :: 'a pc"
  let ?q' = "update_slot (\<lambda>s. s\<lparr>slot_sequence := pos + 1\<rparr>) pos ?q"
  have t: "?t \<in> held written_ticket ?ts" using p by (intro heldI [of _ _ th]) simp
  then have "?t \<in> held write_ticket ?ts" using ringD(5) [OF i(3)] by blast
  then have own: "?t < enq_t ?q" "seqn ?q (?t mod cap ?q) = ?t"
    using ringD(8) [OF i(3)] by auto
  have suc: "unat (pos + 1) = Suc ?t" using own(1) b(3) by (intro word_Suc) simp
  note view = view_update_slot(3,4) [OF i(1)]
  have W: "held write_ticket (?ts(th := ?p')) = held write_ticket ?ts - {?t}"
    using held_update [OF i(4), of th ?p'] p by simp
  have Wd: "held written_ticket (?ts(th := ?p')) = held written_ticket ?ts - {?t}"
    using held_update [OF exclusive_written [OF i(4)], of th ?p'] p by simp
  have R: "held read_ticket (?ts(th := ?p')) = held read_ticket ?ts"
    using held_update [OF i(5), of th ?p'] p by simp
  have Rd: "held emptied_ticket (?ts(th := ?p')) = held emptied_ticket ?ts"
    using held_update [OF exclusive_emptied [OF i(5)], of th ?p'] p by simp
  have frame: "enq_t ?q mod cap ?q \<noteq> ?t mod cap ?q" if "seqn ?q (enq_t ?q mod cap ?q) = enq_t ?q"
    using own that by auto
  have frame': "deq_t ?q mod cap ?q \<noteq> ?t mod cap ?q"
    if "seqn ?q (deq_t ?q mod cap ?q) = Suc (deq_t ?q)"
    using own that not_same_slot_Suc [OF b(2), of "deq_t ?q"] by auto
  have "lf_inv (Suc n) \<lparr>shared = ?q', threads = ?ts(th := ?p'), pushed = pushed s,
      taken = taken s\<rparr>"
    by (rule lf_inv_thread [OF inv])
      (use i(1,2,7) ring_publish [OF i(3) t] p frame frame' in \<open>auto simp: view W Wd R Rd suc\<close>)
  then show ?thesis by (subst run_thread_eq) (use p in auto)
qed

lemma inv_pop_release:
  assumes inv: "lf_inv n s" and n: "n < 2 ^ 62" and p: "threads s th = Pop_release pos r"
  shows "lf_inv (Suc n) (run_thread spurious th s)"
proof -
  note i = lf_invD [OF inv] and b = lf_bounds [OF inv less_imp_le [OF n] refl]
  let ?q = "shared s" and ?ts = "threads s" and ?t = "unat pos"
  let ?p' = "Pop_done (Some r)"
  let ?q' = "update_slot (\<lambda>s. s\<lparr>slot_sequence := pos + capacity ?q\<rparr>) pos ?q"
  have t: "?t \<in> held emptied_ticket ?ts" using p by (intro heldI [of _ _ th]) simp
  then have "?t \<in> held read_ticket ?ts" using ringD(6) [OF i(3)] by blast
  then have own: "?t < deq_t ?q" "seqn ?q (?t mod cap ?q) = Suc ?t"
    using ringD(9) [OF i(3)] by auto
  have sum: "unat (pos + capacity ?q) = ?t + cap ?q"
    using own(1) b(1,3,4) by (intro word_add_cap) simp_all
  note view = view_update_slot(3,4) [OF i(1)]
  have W: "held write_ticket (?ts(th := ?p')) = held write_ticket ?ts"
    using held_update [OF i(4), of th ?p'] p by simp
  have Wd: "held written_ticket (?ts(th := ?p')) = held written_ticket ?ts"
    using held_update [OF exclusive_written [OF i(4)], of th ?p'] p by simp
  have R: "held read_ticket (?ts(th := ?p')) = held read_ticket ?ts - {?t}"
    using held_update [OF i(5), of th ?p'] p by simp
  have Rd: "held emptied_ticket (?ts(th := ?p')) = held emptied_ticket ?ts - {?t}"
    using held_update [OF exclusive_emptied [OF i(5)], of th ?p'] p by simp
  have frame: "enq_t ?q mod cap ?q \<noteq> ?t mod cap ?q" if "seqn ?q (enq_t ?q mod cap ?q) = enq_t ?q"
    using own that not_same_slot_Suc [OF b(2), of ?t] by auto
  have frame': "deq_t ?q mod cap ?q \<noteq> ?t mod cap ?q"
    if "seqn ?q (deq_t ?q mod cap ?q) = Suc (deq_t ?q)"
    using own that by auto
  have diff: "held read_ticket ?ts - {?t} - (held emptied_ticket ?ts - {?t})
      = held read_ticket ?ts - held emptied_ticket ?ts" using t by blast
  have "lf_inv (Suc n) \<lparr>shared = ?q', threads = ?ts(th := ?p'), pushed = pushed s,
      taken = taken s\<rparr>"
    by (rule lf_inv_thread [OF inv])
      (use i(1,2,6,7) i(6) [of th] ring_release [OF i(3) t] p frame frame' diff
        in \<open>auto simp: view W Wd R Rd sum\<close>)
  then show ?thesis by (subst run_thread_eq) (use p in auto)
qed

lemma lf_inv_mono: "lf_inv n s \<Longrightarrow> n \<le> m \<Longrightarrow> lf_inv m s"
  unfolding lf_inv_def Let_def by auto

text \<open>Steps that only move the thread's own state.\<close>

lemma inv_run_local:
  assumes inv: "lf_inv n s" and "threads s th = p"
    and "thread_step spurious (shared s) p = (shared s, p')"
    and "write_ticket p = None" "write_ticket p' = None" "read_ticket p = None" "read_ticket p' = None"
    and "thread_ok (cap (shared s)) (enq_t (shared s)) (deq_t (shared s)) (seqn (shared s))
      (pushed s) (taken s) p'"
  shows "lf_inv (Suc n) (run_thread spurious th s)"
proof -
  have "note_push p p' (pushed s) = pushed s"
    using assms(5) by (cases p; cases p') auto
  moreover have "note_pop p p' (taken s) = taken s"
    using assms(6) by (cases p; cases p') auto
  ultimately have "run_thread spurious th s = s\<lparr>threads := (threads s)(th := p')\<rparr>"
    using assms(2,3) by (intro run_thread_local) auto
  then show ?thesis using lf_inv_local [OF inv, of "Suc n" p' th] assms by simp
qed

lemma inv_push_seq:
  assumes inv: "lf_inv n s" and n: "n < 2 ^ 62" and p: "threads s th = Push_seq v pos"
  shows "lf_inv (Suc n) (run_thread spurious th s)"
proof -
  have le: "unat pos \<le> enq_t (shared s)" using lf_invD(6) [OF inv, of th] p by simp
  note cmp = push_compare [OF inv less_imp_le [OF n] refl le, of spurious v]
  show ?thesis
    by (rule inv_run_local [OF inv p cmp [unfolded Let_def]]) (use le in auto)
qed

lemma inv_pop_seq:
  assumes inv: "lf_inv n s" and n: "n < 2 ^ 62" and p: "threads s th = Pop_seq pos"
  shows "lf_inv (Suc n) (run_thread spurious th s)"
proof -
  have le: "unat pos \<le> deq_t (shared s)" using lf_invD(6) [OF inv, of th] p by simp
  note cmp = pop_compare [OF inv less_imp_le [OF n] refl le, of spurious]
  show ?thesis
    by (rule inv_run_local [OF inv p cmp [unfolded Let_def]]) (use le in auto)
qed

lemma inv_push_cas:
  assumes inv: "lf_inv n s" and n: "n < 2 ^ 62" and p: "threads s th = Push_cas v pos"
  shows "lf_inv (Suc n) (run_thread spurious th s)"
proof (cases "enqueue_pos (shared s) = pos \<and> \<not> spurious")
  case True
  then show ?thesis using inv_push_claim [OF inv n p] by simp
next
  case False
  then show ?thesis by (intro inv_run_local [OF inv p]) auto
qed

lemma inv_pop_cas:
  assumes inv: "lf_inv n s" and n: "n < 2 ^ 62" and p: "threads s th = Pop_cas pos"
  shows "lf_inv (Suc n) (run_thread spurious th s)"
proof (cases "dequeue_pos (shared s) = pos \<and> \<not> spurious")
  case True
  then show ?thesis using inv_pop_claim [OF inv n p] by simp
next
  case False
  then show ?thesis by (intro inv_run_local [OF inv p]) auto
qed

lemmas inv_run_cases =
  inv_push_seq inv_push_cas inv_push_write inv_push_publish
  inv_pop_seq inv_pop_cas inv_pop_read inv_pop_release

lemma lf_inv_run:
  assumes inv: "lf_inv n s" and n: "n < 2 ^ 62"
  shows "lf_inv (Suc n) (run_thread spurious th s)"
proof (cases "threads s th")
  case Undefined
  then show ?thesis using lf_invD(6) [OF inv, of th] by simp
qed (use inv_run_cases [OF inv n] lf_invD(6) [OF inv, of th] in
      \<open>auto intro!: inv_run_local [OF inv]\<close>)

lemma lf_inv_step:
  assumes "lf_inv n s" and "lf_step s t" and "n < 2 ^ 62"
  shows "lf_inv (Suc n) t"
  using assms(2)
proof cases
  case (return th)
  then show ?thesis
    using assms(1) by (cases "threads s th") (auto intro!: lf_inv_local)
qed (use assms(1,3) in \<open>auto intro!: lf_inv_run lf_inv_local\<close>)

lemma fresh_geometry:
  assumes "unat n \<le> 2 ^ 62"
  shows "geometry_ok (LockFreeQueue n)"
proof -
  have "\<exists>k. 1 \<le> k \<and> k \<le> 62 \<and> round_up_pow2 n = 2 ^ k"
  proof (cases "n < 2")
    case True
    then show ?thesis by (intro exI [of _ 1]) (simp add: round_up_pow2_small)
  next
    case False
    then obtain k where k: "1 \<le> k" "round_up_pow2 n = 2 ^ k" "2 ^ k < 2 * unat n"
      using round_up_pow2_is_power [of n] assms by (auto simp: not_less)
    have "(2 :: nat) ^ k < 2 ^ 63" using k(3) assms by simp
    then have "k < 63" by (rule power_less_imp_less_exp [rotated]) simp
    then show ?thesis using k by auto
  qed
  then obtain k where k: "1 \<le> k" "k \<le> 62" "round_up_pow2 n = 2 ^ k" by blast
  have "(2 :: nat) ^ k < 2 ^ 64" using k(2) by (intro power_strict_increasing) auto
  then have "unat (of_nat (2 ^ k) :: size_t) = 2 ^ k"
    by (simp only: unat_of_nat) simp
  then have "unat ((2 :: size_t) ^ k) = 2 ^ k" by simp
  then show ?thesis
    using k unfolding geometry_ok_def LockFreeQueue_def Let_def
    by (intro exI [of _ k]) (simp add: mask_eq_exp_minus_1)
qed

lemma lf_inv_init:
  assumes "lf_init s"
  shows "lf_inv 0 s"
  using assms
proof cases
  case (lf_init m)
  note s = lf_init(1) [unfolded lf_start_def]
  let ?q = "LockFreeQueue m :: 'a lfq"
  have geo: "geometry_ok ?q" by (rule fresh_geometry [OF lf_init(2)])
  then have c: "2 \<le> cap ?q" using power_increasing [of 1 _ "2 :: nat"] by (auto simp: geometry_ok_def)
  have "seqn ?q i = i" if "i < cap ?q" for i
    using that geometry_cap(1) [OF geo]
    by (simp add: seqn_def LockFreeQueue_def Let_def unat_of_nat)
  then have "ring (cap ?q) 0 0 (seqn ?q) (cell ?q) {} {} {} {} []" by (intro ring_init c)
  then show ?thesis
    using geo unfolding s lf_inv_def Let_def
    by (simp add: held_def exclusive_def taken_ok_def LockFreeQueue_def Let_def)
qed

interpretation lfi: bounded_invariant lf_init lf_step "2 ^ 62" lf_inv
  by unfold_locales (auto intro: lf_inv_init lf_inv_step)

section \<open>Consequences of the invariant\<close>

text \<open>The slot whose cell a thread owns.\<close>

definition slot_held :: "'a lfq \<Rightarrow> 'a pc \<Rightarrow> nat option" where
  "slot_held q p =
     (case write_ticket p of
        Some t \<Rightarrow> Some (t mod cap q)
      | None \<Rightarrow> map_option (\<lambda>t. t mod cap q) (read_ticket p))"

lemma slot_held_cases:
  assumes "slot_held q p = Some i"
  obtains t where "write_ticket p = Some t" "i = t mod cap q"
    | t where "read_ticket p = Some t" "i = t mod cap q"
  using assms unfolding slot_held_def by (auto split: option.splits)

lemma slot_held_exclusive:
  assumes inv: "lf_inv n s"
    and "slot_held (shared s) (threads s a) = Some i" "slot_held (shared s) (threads s b) = Some i"
  shows "a = b"
proof -
  note i = lf_invD [OF inv]
  note W = ringD(8) [OF i(3)] and R = ringD(9) [OF i(3)]
  have C: "2 \<le> cap (shared s)" using ringD(1) [OF i(3)] .
  have seq: "seqn (shared s) i = t" if "write_ticket (threads s th) = Some t" "i = t mod cap (shared s)"
    for th t using W [OF heldI [of write_ticket "threads s", OF that(1)]] that(2) by simp
  have seq': "seqn (shared s) i = Suc t" if "read_ticket (threads s th) = Some t" "i = t mod cap (shared s)"
    for th t using R [OF heldI [of read_ticket "threads s", OF that(1)]] that(2) by simp
  have mixed: False
    if "write_ticket (threads s x) = Some t" "i = t mod cap (shared s)"
      "read_ticket (threads s y) = Some u" "i = u mod cap (shared s)" for x y t u
    using seq [OF that(1,2)] seq' [OF that(3,4)] that(2,4) not_same_slot_Suc [OF C, of u] by simp
  from assms(2) show ?thesis
  proof (cases rule: slot_held_cases)
    case (1 t)
    from assms(3) show ?thesis
    proof (cases rule: slot_held_cases)
      case inner: (1 u)
      then have "u = t" using seq 1 by metis
      then show ?thesis using i(4) 1(1) inner(1) unfolding exclusive_def by blast
    next
      case (2 u)
      then show ?thesis using mixed 1 by blast
    qed
  next
    case (2 t)
    from assms(3) show ?thesis
    proof (cases rule: slot_held_cases)
      case (1 u)
      then show ?thesis using mixed 2 by blast
    next
      case inner: (2 u)
      then have "Suc u = Suc t" using seq' 2 by metis
      then show ?thesis using i(5) 2(1) inner(1) unfolding exclusive_def by blast
    qed
  qed
qed

text \<open>What a refusal has seen.\<close>

lemma push_refused:
  assumes inv: "lf_inv n s" "n \<le> 2 ^ 62" and p: "threads s th = Push_seq v pos"
    and no: "snd (thread_step spurious (shared s) (threads s th)) = Push_done False"
  shows "enq_t (shared s) = deq_t (shared s) + cap (shared s)
    \<or> (\<exists>k. read_ticket (threads s k) = Some (enq_t (shared s) - cap (shared s)))"
proof -
  note i = lf_invD [OF inv(1)]
  have le: "unat pos \<le> enq_t (shared s)" using i(6) [of th] p by simp
  have "seqn (shared s) (unat pos mod cap (shared s)) < unat pos"
    using no [unfolded p] push_compare [OF inv refl le, of spurious v] by (simp add: Let_def split: if_splits)
  from ring_push_behind [OF i(3) le this] show ?thesis by (auto simp: held_def)
qed

lemma pop_refused:
  assumes inv: "lf_inv n s" "n \<le> 2 ^ 62" and p: "threads s th = Pop_seq pos"
    and no: "snd (thread_step spurious (shared s) (threads s th)) = Pop_done None"
  shows "enq_t (shared s) = deq_t (shared s)
    \<or> (\<exists>k. write_ticket (threads s k) = Some (deq_t (shared s)))"
proof -
  note i = lf_invD [OF inv(1)]
  have le: "unat pos \<le> deq_t (shared s)" using i(6) [of th] p by simp
  have "seqn (shared s) (unat pos mod cap (shared s)) \<le> unat pos"
    using no [unfolded p] pop_compare [OF inv refl le, of spurious] by (simp add: Let_def split: if_splits)
  from ring_pop_behind [OF i(3) le this] show ?thesis by (auto simp: held_def)
qed

text \<open>
  A thread on its own: the state after its steps, one for each flag of the list, which says
  whether a compare-exchange made in this step fails spuriously.
\<close>

primrec run_solo :: "bool list \<Rightarrow> nat \<Rightarrow> 'a sys \<Rightarrow> 'a sys" where
  "run_solo [] th s = s"
| "run_solo (b # bs) th s = run_solo bs th (run_thread b th s)"

lemma lf_inv_solo:
  "lf_inv n s \<Longrightarrow> n + length bs \<le> 2 ^ 62 \<Longrightarrow> lf_inv (n + length bs) (run_solo bs th s)"
proof (induction bs arbitrary: n s)
  case (Cons b bs)
  then show ?case using Cons.IH [of "Suc n"] lf_inv_run [of n s b th] by simp
qed simp

lemma run_thread_pc [simp]:
  "threads (run_thread sp th s) th = snd (thread_step sp (shared s) (threads s th))"
  "shared (run_thread sp th s) = fst (thread_step sp (shared s) (threads s th))"
  by (simp_all add: run_thread_def Let_def split: prod.splits)

lemma finished_stays: "finished p \<Longrightarrow> thread_step sp q p = (q, p)"
  by (cases p) auto

lemma finished_solo: "finished (threads s th) \<Longrightarrow> finished (threads (run_solo bs th s) th)"
proof (induction bs arbitrary: s)
  case (Cons b bs)
  then show ?case using Cons.IH [of "run_thread b th s"] by (simp add: finished_stays)
qed simp

text \<open>
  How many of its own steps a call still needs at most, without spurious failures. A position
  that is up to date saves two steps: one that is not may need another load or compare-exchange.
\<close>

fun solo_steps :: "'a lfq \<Rightarrow> 'a pc \<Rightarrow> nat" where
  "solo_steps q (Push_load v) = 5"
| "solo_steps q (Push_seq v pos) = (if pos = enqueue_pos q then 4 else 6)"
| "solo_steps q (Push_cas v pos) = (if pos = enqueue_pos q then 3 else 5)"
| "solo_steps q (Push_write v pos) = 2"
| "solo_steps q (Push_publish pos) = 1"
| "solo_steps q Pop_load = 5"
| "solo_steps q (Pop_seq pos) = (if pos = dequeue_pos q then 4 else 6)"
| "solo_steps q (Pop_cas pos) = (if pos = dequeue_pos q then 3 else 5)"
| "solo_steps q (Pop_read pos) = 2"
| "solo_steps q (Pop_release pos r) = 1"
| "solo_steps q p = 0"

text \<open>Each step brings the end nearer by one; a spurious failure puts it off by one instead.\<close>

lemma solo_steps_less:
  assumes inv: "lf_inv n s" "n \<le> 2 ^ 62"
    and p: "threads s th \<noteq> Idle" "\<not> finished (threads s th)"
    and step: "thread_step b (shared s) (threads s th) = (q, p)"
  shows "p \<noteq> Idle \<and> Suc (solo_steps q p) \<le> solo_steps (shared s) (threads s th) + (if b then 2 else 0)"
proof (cases "threads s th")
  case (Push_seq v pos)
  have le: "unat pos \<le> enq_t (shared s)" using lf_invD(6) [OF inv(1), of th] Push_seq by simp
  have "seqn (shared s) (enq_t (shared s) mod cap (shared s)) \<le> enq_t (shared s)"
    using ring_push_not_ahead [OF lf_invD(3) [OF inv(1)]] .
  then show ?thesis
    using push_compare [OF inv refl le, of b v] step Push_seq
    by (auto simp: Let_def split: if_splits)
next
  case (Pop_seq pos)
  have le: "unat pos \<le> deq_t (shared s)" using lf_invD(6) [OF inv(1), of th] Pop_seq by simp
  have "seqn (shared s) (deq_t (shared s) mod cap (shared s)) \<le> Suc (deq_t (shared s))"
    using ring_pop_not_ahead [OF lf_invD(3) [OF inv(1)]] .
  then show ?thesis
    using pop_compare [OF inv refl le, of b] step Pop_seq
    by (auto simp: Let_def le_Suc_eq split: if_splits)
next
  case Undefined
  then show ?thesis using lf_invD(6) [OF inv(1), of th] by simp
qed (use p step in \<open>auto split: if_splits\<close>)

lemma solo_run:
  assumes "lf_inv n s" "n + length bs \<le> 2 ^ 62" "threads s th \<noteq> Idle"
    and "solo_steps (shared s) (threads s th) + 2 * count_list bs True \<le> length bs"
  shows "finished (threads (run_solo bs th s) th)"
  using assms
proof (induction bs arbitrary: n s)
  case Nil
  then show ?case using lf_invD(6) [OF Nil(1), of th] by (cases "threads s th") (auto split: if_splits)
next
  case (Cons b bs)
  show ?case
  proof (cases "finished (threads s th)")
    case True
    then show ?thesis by (rule finished_solo)
  next
    case False
    obtain q p where step: "thread_step b (shared s) (threads s th) = (q, p)" by fastforce
    have n: "n \<le> 2 ^ 62" "n < 2 ^ 62" using Cons.prems(2) by simp_all
    note less = solo_steps_less [OF Cons.prems(1) n(1) Cons.prems(3) False step]
    have "finished (threads (run_solo bs th (run_thread b th s)) th)"
      by (rule Cons.IH [OF lf_inv_run [OF Cons.prems(1) n(2)]])
        (use Cons.prems(2,4) less step in \<open>auto split: if_splits\<close>)
    then show ?thesis by simp
  qed
qed

section \<open>Properties\<close>

lemma lf_schedule_reach:
  assumes "unat m \<le> 2 ^ 62" and "run_schedule lf_act ls (lf_start m) = Some t"
  shows "reach lf_init lf_step (length ls) t"
  using assms by (intro run_schedule_reach [where act = lf_act]) (auto intro: lf_act_step lf_init)

fun action_thread :: "'a lf_action \<Rightarrow> nat" where
  "action_thread (Call_push th v) = th" | "action_thread (Call_pop th) = th"
| "action_thread (Run sp th) = th" | "action_thread (Return th) = th"

lemma lf_act_other:
  "lf_act a s = Some t \<Longrightarrow> action_thread a \<noteq> th \<Longrightarrow> threads t th = threads s th"
  by (cases a) (auto simp: run_thread_def Let_def split: pc.splits if_splits prod.splits)

lemma untouched_idle:
  assumes "run_schedule lf_act ls s = Some t" and "\<forall>a \<in> set ls. action_thread a \<noteq> th"
    and "threads s th = Idle"
  shows "threads t th = Idle"
  using assms
proof (induction ls arbitrary: s)
  case (Cons a ls)
  then show ?case using lf_act_other [of a s _ th] by (auto split: option.splits)
qed simp

text \<open>
  Two schedules on a queue of capacity two. In the first, thread 0 stops inside its push after
  claiming ticket 0, thread 1 completes a push, and thread 2 tries to pop. In the second, both
  slots are filled, thread 2 stops inside its pop of ticket 0, thread 3 completes a pop, and
  thread 4 tries to push.
\<close>

definition stalled_push :: "nat lf_action list" where
  "stalled_push =
     Call_push 0 7 # replicate 3 (Run False 0) @ Call_push 1 8 # replicate 5 (Run False 1)
     @ Call_pop 2 # replicate 2 (Run False 2)"

definition stalled_pop :: "nat lf_action list" where
  "stalled_pop =
     Call_push 0 7 # replicate 5 (Run False 0) @ Call_push 1 8 # replicate 5 (Run False 1)
     @ Call_pop 2 # replicate 4 (Run False 2) @ Call_pop 3 # replicate 5 (Run False 3)
     @ Call_push 4 9 # replicate 2 (Run False 4)"

lemma stalled_pop_run:
  "map_option (\<lambda>s. (threads s 2, threads s 3, threads s 4, enq_t (shared s), deq_t (shared s), taken s))
     (run_schedule lf_act stalled_pop (lf_start 2))
   = Some (Pop_release 0 (Some 7), Pop_done (Some (Some 8)), Push_done False, 2, 2,
       [(0, Some 7), (1, Some 8)])"
  by code_simp

lemma demo_reach:
  obtains s where "run_schedule lf_act stalled_pop (lf_start 2) = Some s"
    and "reach lf_init lf_step 26 s" and "threads s 2 = Pop_release 0 (Some 7)"
    and "threads s 3 = Pop_done (Some (Some 8))" and "threads s 4 = Push_done False"
    and "taken s = [(0, Some 7), (1, Some 8)]" and "enq_t (shared s) = 2"
proof -
  obtain s where s: "run_schedule lf_act stalled_pop (lf_start 2) = Some s"
    using stalled_pop_run by (cases "run_schedule lf_act stalled_pop (lf_start 2)") auto
  have "length stalled_pop = 26" by (simp add: stalled_pop_def)
  then show thesis
    using that [OF s] lf_schedule_reach [of 2 stalled_pop s] s stalled_pop_run by simp
qed

text \<open>
  Memory safety. In every interleaving of at most \<open>2 ^ 62\<close> steps no thread ever indexes the
  buffer out of range and no difference of positions overflows \<open>std::ptrdiff_t\<close>.
\<close>

theorem lf_no_undefined:
  assumes "reach lf_init lf_step n s" and "n \<le> 2 ^ 62"
  shows "threads s th \<noteq> Undefined"
  using lf_invD(6) [OF lfi.reach_inv [OF assms], of th] by auto

theorem lf_no_undefined_witness:
  "\<exists>s. run_schedule lf_act stalled_pop (lf_start 2) = Some s \<and> threads s 2 \<noteq> Undefined"
proof (rule demo_reach)
  fix s :: "nat sys"
  assume "run_schedule lf_act stalled_pop (lf_start 2) = Some s" and "reach lf_init lf_step 26 s"
  then show ?thesis using lf_no_undefined [of 26 s 2] by auto
qed

text \<open>
  Absence of data races on the elements. Two threads never own the same slot's data at the
  same time: between its compare-exchange and its store of the sequence, a producer or consumer
  is the only one to touch the cell.
\<close>

lemma lf_cell_exclusive:
  assumes "reach lf_init lf_step n s" and "n \<le> 2 ^ 62"
    and "slot_held (shared s) (threads s a) = Some i"
    and "slot_held (shared s) (threads s b) = Some i"
  shows "a = b"
  by (rule slot_held_exclusive [OF lfi.reach_inv [OF assms(1,2)] assms(3,4)])

lemma lf_cell_exclusive_witness:
  "\<exists>s b. run_schedule lf_act stalled_pop (lf_start 2) = Some s
     \<and> slot_held (shared s) (threads s b) = Some 0
     \<and> (\<forall>a. slot_held (shared s) (threads s a) = Some 0 \<longrightarrow> a = b)"
proof (rule demo_reach)
  fix s :: "nat sys"
  assume s: "run_schedule lf_act stalled_pop (lf_start 2) = Some s" "reach lf_init lf_step 26 s"
    and "threads s 2 = Pop_release 0 (Some 7)"
  then have held: "slot_held (shared s) (threads s 2) = Some 0" by (simp add: slot_held_def)
  have "a = 2" if "slot_held (shared s) (threads s a) = Some 0" for a
    using lf_cell_exclusive [OF s(2) _ that held] by simp
  then show ?thesis using s(1) held by blast
qed

text \<open>
  C1: FIFO without loss or duplication of tickets. The pops read out distinct tickets, all below
  the pop counter, and for each ticket exactly the element the push of that ticket wrote; the
  elements in the queue never exceed its capacity.
\<close>

theorem lf_fifo_tickets:
  assumes "reach lf_init lf_step n s" and "n \<le> 2 ^ 62"
  shows "distinct (map fst (taken s))
    \<and> (\<forall>t x. (t, x) \<in> set (taken s) \<longrightarrow> t < deq_t (shared s) \<and> x = Some (pushed s ! t))
    \<and> length (pushed s) = enq_t (shared s) \<and> deq_t (shared s) \<le> enq_t (shared s)
    \<and> enq_t (shared s) \<le> deq_t (shared s) + cap (shared s)"
proof -
  note i = lf_invD [OF lfi.reach_inv [OF assms]]
  show ?thesis
    using taken_okD(1,4) [OF i(7)] i(7) ringD(2-4) [OF i(3)] by (auto simp: taken_ok_def)
qed

theorem lf_fifo_tickets_witness:
  "\<exists>s. run_schedule lf_act stalled_pop (lf_start 2) = Some s
     \<and> Some 7 = Some (pushed s ! 0) \<and> Some 8 = Some (pushed s ! 1) \<and> length (pushed s) = 2"
proof (rule demo_reach)
  fix s :: "nat sys"
  assume "run_schedule lf_act stalled_pop (lf_start 2) = Some s" "reach lf_init lf_step 26 s"
    and "taken s = [(0, Some 7), (1, Some 8)]" and "enq_t (shared s) = 2"
  then show ?thesis using lf_fifo_tickets [of 26 s] by auto
qed

text \<open>
  Nothing is lost. Whenever no pop is under way, the elements read out so far are, as a
  multiset, exactly the first \<open>dequeue_pos\<close> pushed ones.
\<close>

theorem lf_conservation:
  assumes "reach lf_init lf_step n s" and "n \<le> 2 ^ 62"
    and "\<And>th. read_ticket (threads s th) = None"
  shows "mset (map snd (taken s)) = mset (map Some (take (deq_t (shared s)) (pushed s)))"
proof -
  note i = lf_invD [OF lfi.reach_inv [OF assms(1,2)]]
  let ?D = "deq_t (shared s)" and ?v = "\<lambda>t. Some (pushed s ! t)"
  have none: "held read_ticket (threads s) = {}" using assms(3) by (simp add: held_def)
  then have tickets: "set (map fst (taken s)) = {..<?D}" and dist: "distinct (map fst (taken s))"
    using i(7) by (auto simp: taken_ok_def)
  have "map snd (taken s) = map ?v (map fst (taken s))"
    using taken_okD(4) [OF i(7)] by auto
  then have "mset (map snd (taken s)) = image_mset ?v (mset (map fst (taken s)))"
    by (metis mset_map)
  also have "mset (map fst (taken s)) = mset [0..<?D]"
  proof -
    have "set (map fst (taken s)) = set [0..<?D]" using tickets by (simp only: set_upt lessThan_atLeast0)
    then show ?thesis
      using mset_set_set [OF dist] mset_set_set [OF distinct_upt [of 0 ?D]] by (simp only:)
  qed
  also have "image_mset ?v (mset [0..<?D]) = mset (map ?v [0..<?D])" by simp
  also have "map ?v [0..<?D] = map Some (take ?D (pushed s))"
    using ringD(2,4) [OF i(3)] by (intro nth_equalityI) auto
  finally show ?thesis .
qed

theorem lf_conservation_witness:
  "\<exists>s. run_schedule lf_act (stalled_pop @ [Run False 2]) (lf_start 2) = Some s
     \<and> mset (map snd (taken s)) = mset (map Some (take (deq_t (shared s)) (pushed s)))
     \<and> pushed s = [7, 8]"
proof -
  let ?ls = "stalled_pop @ [Run False 2]"
  have run: "map_option (\<lambda>s. (map (threads s) [0, 1, 2, 3, 4], pushed s))
      (run_schedule lf_act ?ls (lf_start 2))
    = Some ([Push_done True, Push_done True, Pop_done (Some (Some 7)), Pop_done (Some (Some 8)),
        Push_done False], [7, 8])"
    by code_simp
  then obtain s where s: "run_schedule lf_act ?ls (lf_start 2) = Some s"
    by (cases "run_schedule lf_act ?ls (lf_start 2)") auto
  have "read_ticket (threads s th) = None" for th
  proof (cases "th < 5")
    case True
    then have "th \<in> {0, 1, 2, 3, 4}" by auto
    then show ?thesis using run s by auto
  next
    case False
    then have "threads s th = Idle"
      by (intro untouched_idle [OF s]) (auto simp: stalled_pop_def lf_start_def)
    then show ?thesis by simp
  qed
  note idle = this
  have "reach lf_init lf_step (length ?ls) s" by (rule lf_schedule_reach [OF _ s]) simp
  then have "reach lf_init lf_step 27 s" by (simp add: stalled_pop_def)
  from lf_conservation [OF this _ idle]
  have "mset (map snd (taken s)) = mset (map Some (take (deq_t (shared s)) (pushed s)))" by simp
  then show ?thesis using s run by simp
qed

text \<open>
  C17: What \<open>false\<close> from a push means. When a push gives up, either all \<open>capacity\<close> slots are
  claimed by elements not yet popped, or a pop that has claimed the oldest element of the slot
  is still on its way to releasing it.
\<close>

theorem lf_push_refusal:
  assumes "reach lf_init lf_step n s" and "n \<le> 2 ^ 62"
    and "threads s th = Push_seq v pos"
    and "threads (run_thread spurious th s) th = Push_done False"
  shows "enq_t (shared s) = deq_t (shared s) + cap (shared s)
    \<or> (\<exists>k. read_ticket (threads s k) = Some (enq_t (shared s) - cap (shared s)))"
  using push_refused [OF lfi.reach_inv [OF assms(1,2)] assms(2,3)] assms(4) by simp

theorem lf_push_refusal_witness:
  "\<exists>s. run_schedule lf_act (butlast stalled_pop) (lf_start 2) = Some s
     \<and> (enq_t (shared s) = deq_t (shared s) + cap (shared s)
        \<or> (\<exists>k. read_ticket (threads s k) = Some (enq_t (shared s) - cap (shared s))))"
proof -
  have run: "map_option (\<lambda>s. (threads s 4, threads (run_thread False 4 s) 4))
      (run_schedule lf_act (butlast stalled_pop) (lf_start 2))
    = Some (Push_seq 9 2, Push_done False)"
    by code_simp
  then obtain s where s: "run_schedule lf_act (butlast stalled_pop) (lf_start 2) = Some s"
    by (cases "run_schedule lf_act (butlast stalled_pop) (lf_start 2)") auto
  have "reach lf_init lf_step (length (butlast stalled_pop)) s"
    by (rule lf_schedule_reach [OF _ s]) simp
  then have "reach lf_init lf_step 25 s" by (simp add: stalled_pop_def)
  then show ?thesis using lf_push_refusal [of 25 s 4 9 2 False] s run by auto
qed

text \<open>
  C18: What \<open>nullopt\<close> from a pop means. When a pop gives up, either no claimed element waits, or
  the push that claimed the next ticket has not yet published its element.
\<close>

theorem lf_pop_refusal:
  assumes "reach lf_init lf_step n s" and "n \<le> 2 ^ 62"
    and "threads s th = Pop_seq pos"
    and "threads (run_thread spurious th s) th = Pop_done None"
  shows "enq_t (shared s) = deq_t (shared s)
    \<or> (\<exists>k. write_ticket (threads s k) = Some (deq_t (shared s)))"
  using pop_refused [OF lfi.reach_inv [OF assms(1,2)] assms(2,3)] assms(4) by simp

theorem lf_pop_refusal_witness:
  "\<exists>s. run_schedule lf_act (butlast stalled_push) (lf_start 2) = Some s
     \<and> (enq_t (shared s) = deq_t (shared s)
        \<or> (\<exists>k. write_ticket (threads s k) = Some (deq_t (shared s))))"
proof -
  have run: "map_option (\<lambda>s. (threads s 2, threads (run_thread False 2 s) 2))
      (run_schedule lf_act (butlast stalled_push) (lf_start 2))
    = Some (Pop_seq 0, Pop_done None)"
    by code_simp
  then obtain s where s: "run_schedule lf_act (butlast stalled_push) (lf_start 2) = Some s"
    by (cases "run_schedule lf_act (butlast stalled_push) (lf_start 2)") auto
  have "reach lf_init lf_step (length (butlast stalled_push)) s"
    by (rule lf_schedule_reach [OF _ s]) simp
  then have "reach lf_init lf_step 12 s" by (simp add: stalled_push_def)
  then show ?thesis using lf_pop_refusal [of 12 s 2 0 False] s run by auto
qed

text \<open>
  C26: Completion in isolation. From every reachable state, whatever the other threads have left
  unfinished, a call that runs alone finishes within at most six steps of its own and two more
  for every compare-exchange that fails spuriously: neither \<open>try_push\<close> nor \<open>try_pop\<close> waits for
  another thread.
\<close>

theorem lf_solo_termination:
  assumes "reach lf_init lf_step n s" and "n + length bs \<le> 2 ^ 62" and "threads s th \<noteq> Idle"
    and "6 + 2 * count_list bs True \<le> length bs"
  shows "finished (threads (run_solo bs th s) th)"
proof -
  have "lf_inv n s" by (rule lfi.reach_inv [OF assms(1)]) (use assms(2) in simp)
  moreover have "solo_steps (shared s) (threads s th) \<le> 6" by (cases "threads s th") auto
  ultimately show ?thesis using solo_run [OF _ assms(2,3)] assms(4) by simp
qed

theorem lf_solo_termination_witness:
  "\<exists>s. run_schedule lf_act (butlast stalled_pop) (lf_start 2) = Some s
     \<and> finished (threads (run_solo (True # replicate 7 False) 4 s) 4)"
proof -
  have run: "map_option (\<lambda>s. threads s 4) (run_schedule lf_act (butlast stalled_pop) (lf_start 2))
      = Some (Push_seq 9 2)"
    by code_simp
  then obtain s where s: "run_schedule lf_act (butlast stalled_pop) (lf_start 2) = Some s"
    by (cases "run_schedule lf_act (butlast stalled_pop) (lf_start 2)") auto
  have "reach lf_init lf_step (length (butlast stalled_pop)) s"
    by (rule lf_schedule_reach [OF _ s]) simp
  then have "reach lf_init lf_step 25 s" by (simp add: stalled_pop_def)
  moreover have "6 + 2 * count_list (True # replicate 7 False) True \<le> length (True # replicate 7 False)"
    by code_simp
  moreover have "threads s 4 \<noteq> Idle" using s run by simp
  ultimately have "finished (threads (run_solo (True # replicate 7 False) 4 s) 4)"
    by (intro lf_solo_termination [of 25]) simp_all
  then show ?thesis using s by blast
qed

text \<open>
  System-wide progress. A compare-exchange of a push that fails although it did not fail
  spuriously has been overtaken: another push has claimed the ticket in between; and the same
  for pops.
\<close>

theorem lf_cas_failure_progress:
  assumes "reach lf_init lf_step n s" and "n \<le> 2 ^ 62"
  shows "(threads s th = Push_cas v pos \<and> threads (run_thread False th s) th \<noteq> Push_write v pos
      \<longrightarrow> unat pos < enq_t (shared s))
    \<and> (threads s th = Pop_cas pos \<and> threads (run_thread False th s) th \<noteq> Pop_read pos
      \<longrightarrow> unat pos < deq_t (shared s))"
  using lf_invD(6) [OF lfi.reach_inv [OF assms], of th]
  by (auto simp: le_less word_unat_eq_iff split: if_splits)

text \<open>Two producers load the same position; the second compare-exchange comes too late.\<close>

definition cas_race :: "nat lf_action list" where
  "cas_race =
     Call_push 0 7 # replicate 2 (Run False 0) @ Call_push 1 8 # replicate 2 (Run False 1)
     @ [Run False 0]"

theorem lf_cas_failure_progress_witness:
  "\<exists>s. run_schedule lf_act cas_race (lf_start 2) = Some s \<and> threads s 1 = Push_cas 8 0
     \<and> unat (0 :: size_t) < enq_t (shared s)"
proof -
  have run: "map_option (\<lambda>s. (threads s 1, threads (run_thread False 1 s) 1))
      (run_schedule lf_act cas_race (lf_start 2)) = Some (Push_cas 8 0, Push_seq 8 1)"
    by code_simp
  then obtain s where s: "run_schedule lf_act cas_race (lf_start 2) = Some s"
    by (cases "run_schedule lf_act cas_race (lf_start 2)") auto
  have "reach lf_init lf_step (length cas_race) s" by (rule lf_schedule_reach [OF _ s]) simp
  then have "reach lf_init lf_step 7 s" by (simp add: cas_race_def)
  then show ?thesis using lf_cas_failure_progress [of 7 s 1 8 0] s run by auto
qed

end
