(* ===== verification/Lockfree_Seq.thy ===== *)
theory Lockfree_Seq
  imports Lockfree_Conc
begin

text \<open>
  The lock-free queue used by one thread at a time: between calls its memory satisfies the
  invariant with no ticket held, so \<open>try_push\<close> and \<open>try_pop\<close>, run to completion, are the
  operations of a bounded FIFO queue. The interface is the locale \<open>bounded_fifo\<close>; what it gives
  for whole batches rests on its laws alone.
\<close>

section \<open>The interface of a bounded queue\<close>

text \<open>
  \<open>usable k q\<close>: the next \<open>k\<close> operations on \<open>q\<close> are covered (the counters of the ring are of
  fixed width). \<open>None\<close> would be a call that does not return.
\<close>

locale bounded_fifo =
  fixes enq :: "'a \<Rightarrow> 'q \<Rightarrow> (bool \<times> 'q) option"
    and deq :: "'q \<Rightarrow> ('r \<times> 'q) option"
    and found :: "'a \<Rightarrow> 'r" and nothing :: 'r
    and items :: "'q \<Rightarrow> 'a list" and room :: "'q \<Rightarrow> nat" and usable :: "nat \<Rightarrow> 'q \<Rightarrow> bool"
  assumes enq_room: "usable (Suc k) q \<Longrightarrow> length (items q) < room q \<Longrightarrow>
      \<exists>q'. enq x q = Some (True, q') \<and> items q' = items q @ [x] \<and> room q' = room q \<and> usable k q'"
    and enq_full: "usable (Suc k) q \<Longrightarrow> room q \<le> length (items q) \<Longrightarrow> enq x q = Some (False, q)"
    and deq_some: "usable (Suc k) q \<Longrightarrow> items q = x # xs \<Longrightarrow>
      \<exists>q'. deq q = Some (found x, q') \<and> items q' = xs \<and> room q' = room q \<and> usable k q'"
    and deq_none: "usable (Suc k) q \<Longrightarrow> items q = [] \<Longrightarrow> deq q = Some (nothing, q)"
    and usable_less: "usable (Suc k) q \<Longrightarrow> usable k q"
begin

fun enq_list :: "'a list \<Rightarrow> 'q \<Rightarrow> (bool list \<times> 'q) option" where
  "enq_list [] q = Some ([], q)"
| "enq_list (x # xs) q =
     (case enq x q of None \<Rightarrow> None
      | Some (b, q') \<Rightarrow> map_option (map_prod (Cons b) id) (enq_list xs q'))"

fun deq_times :: "nat \<Rightarrow> 'q \<Rightarrow> ('r list \<times> 'q) option" where
  "deq_times 0 q = Some ([], q)"
| "deq_times (Suc n) q =
     (case deq q of None \<Rightarrow> None
      | Some (r, q') \<Rightarrow> map_option (map_prod (Cons r) id) (deq_times n q'))"

lemma enq_list_spec:
  assumes "usable (length xs + k) q" and "free = room q - length (items q)"
  shows "\<exists>q'. enq_list xs q = Some (replicate (min (length xs) free) True
      @ replicate (length xs - free) False, q')
    \<and> items q' = items q @ take free xs \<and> room q' = room q \<and> usable k q'"
  using assms
proof (induction xs arbitrary: q free)
  case Nil
  then show ?case by simp
next
  case (Cons x xs)
  have u: "usable (Suc (length xs + k)) q" using Cons.prems(1) by simp
  show ?case
  proof (cases free)
    case 0
    then have "enq x q = Some (False, q)"
      using Cons.prems(2) by (intro enq_full [OF u]) simp
    then show ?thesis
      using Cons.IH [OF usable_less [OF u] Cons.prems(2)] 0 by auto
  next
    case (Suc f)
    then have "length (items q) < room q" using Cons.prems(2) by simp
    then obtain q' where q': "enq x q = Some (True, q')" "items q' = items q @ [x]"
      "room q' = room q" "usable (length xs + k) q'"
      using enq_room [OF u] by blast
    have "f = room q' - length (items q')" using q'(2,3) Cons.prems(2) Suc by simp
    from Cons.IH [OF q'(4) this] show ?thesis using q'(1-3) Suc by auto
  qed
qed

lemma deq_times_spec:
  assumes "usable (n + k) q"
  shows "\<exists>q'. deq_times n q = Some (map found (take n (items q))
      @ replicate (n - length (items q)) nothing, q')
    \<and> items q' = drop n (items q) \<and> room q' = room q \<and> usable k q'"
  using assms
proof (induction n arbitrary: q)
  case 0
  then show ?case by simp
next
  case (Suc n)
  have u: "usable (Suc (n + k)) q" using Suc.prems by simp
  show ?case
  proof (cases "items q")
    case Nil
    then have "deq q = Some (nothing, q)" by (rule deq_none [OF u])
    then show ?thesis using Suc.IH [OF usable_less [OF u]] Nil by auto
  next
    case (Cons x xs)
    then obtain q' where q': "deq q = Some (found x, q')" "items q' = xs" "room q' = room q"
      "usable (n + k) q'"
      using deq_some [OF u] by blast
    from Suc.IH [OF q'(4)] show ?thesis using q' Cons by auto
  qed
qed

lemma fill_and_drain:
  assumes "usable (length xs + n) q" and "items q = []"
  shows "\<exists>q' q''. enq_list xs q = Some (replicate (min (length xs) (room q)) True
        @ replicate (length xs - room q) False, q')
    \<and> deq_times n q' = Some (map found (take n (take (room q) xs))
        @ replicate (n - min (length xs) (room q)) nothing, q'')"
proof -
  obtain q' where q': "enq_list xs q = Some (replicate (min (length xs) (room q)) True
        @ replicate (length xs - room q) False, q')"
    "items q' = take (room q) xs" "usable n q'"
    using enq_list_spec [OF assms(1), of "room q"] assms(2) by auto
  from deq_times_spec [of n 0 q'] q' show ?thesis by auto
qed

end

section \<open>The contents of a quiet queue\<close>

definition contents :: "'a lfq \<Rightarrow> 'a list" where
  "contents q = map (\<lambda>t. the (cell q (t mod cap q))) [deq_t q..<enq_t q]"

definition lf_quiet :: "'a lfq \<Rightarrow> bool" where
  "lf_quiet q \<longleftrightarrow> (\<exists>g h. lf_inv (enq_t q)
     \<lparr>shared = q, threads = (\<lambda>_. Idle), pushed = g, taken = h\<rparr>)"

lemma ring_quiet_data:
  assumes r: "ring C E D sq dat {} Wd {} Rd g" and "D \<le> t" "t < E"
  shows "dat (t mod C) = Some (g ! t)"
proof -
  note r' = ringD [OF r]
  have "slot_ok C E D (sq (t mod C)) {} {} (t mod C)" using r'(1,7) by simp
  then obtain u where u: "u mod C = t mod C" "u < D + C" "E \<le> u + C"
    "sq (t mod C) = u \<and> D \<le> u \<and> E \<le> u \<or> sq (t mod C) = Suc u \<and> u < E \<and> D \<le> u"
    unfolding slot_ok_def by (auto simp: not_less)
  have "u = t" by (rule same_slot_cases [OF u(1)]) (use u(2,3) assms(2,3) in auto)
  then have "sq (t mod C) = Suc t" using u(4) assms(3) by auto
  moreover have "t \<notin> Rd" using r'(6) by blast
  ultimately show ?thesis using r'(11) assms(3) by blast
qed

lemma all_idle_held [simp]: "held write_ticket (\<lambda>_. Idle) = {}" "held read_ticket (\<lambda>_. Idle) = {}"
  "held written_ticket (\<lambda>_. Idle) = {}" "held emptied_ticket (\<lambda>_. Idle) = {}"
  by (simp_all add: held_def)

lemma quiet_contents:
  assumes "lf_inv n \<lparr>shared = q, threads = (\<lambda>_. Idle), pushed = g, taken = h\<rparr>"
  shows "contents q = drop (deq_t q) g" and "length (contents q) = enq_t q - deq_t q"
proof -
  have r: "ring (cap q) (enq_t q) (deq_t q) (seqn q) (cell q) {} {} {} {} g"
    using lf_invD(3) [OF assms] by simp
  show "contents q = drop (deq_t q) g"
    unfolding contents_def using ringD(2,4) [OF r] ring_quiet_data [OF r]
    by (intro nth_equalityI) auto
  show "length (contents q) = enq_t q - deq_t q" by (simp add: contents_def)
qed

lemma lf_inv_tight: "lf_inv n s \<Longrightarrow> lf_inv (enq_t (shared s)) s"
  unfolding lf_inv_def Let_def by auto

section \<open>One call, run to its end\<close>

lemma run_alone_solo:
  "run_alone k (shared s, threads s th) =
     (shared (run_solo (replicate k False) th s), threads (run_solo (replicate k False) th s) th)"
proof (induction k arbitrary: s)
  case (Suc k)
  have "run_alone (Suc k) (shared s, threads s th)
      = run_alone k (shared (run_thread False th s), threads (run_thread False th s) th)"
    by simp
  then show ?case using Suc.IH [of "run_thread False th s"] by simp
qed simp

text \<open>A system in which only thread 0 is inside a call.\<close>

definition lone :: "'a lfq \<Rightarrow> 'a pc \<Rightarrow> 'a list \<Rightarrow> (nat \<times> 'a option) list \<Rightarrow> 'a sys" where
  "lone q p g h = \<lparr>shared = q, threads = (\<lambda>_. Idle)(0 := p), pushed = g, taken = h\<rparr>"

lemma lone_simps [simp]:
  "shared (lone q p g h) = q" "threads (lone q p g h) 0 = p"
  "pushed (lone q p g h) = g" "taken (lone q p g h) = h"
  by (simp_all add: lone_def)

lemma run_lone:
  "run_thread False 0 (lone q p g h) =
     (let (q', p') = thread_step False q p in lone q' p' (note_push p p' g) (note_pop p p' h))"
  by (simp add: run_thread_def lone_def split: prod.splits)

lemma lone_idle: "lone q Idle g h = \<lparr>shared = q, threads = (\<lambda>_. Idle), pushed = g, taken = h\<rparr>"
  by (simp add: lone_def fun_eq_iff)

lemma lone_local:
  assumes "lf_inv n (lone q p g h)" and "write_ticket p = None" "read_ticket p = None"
    and "write_ticket p' = None" "read_ticket p' = None"
    and "thread_ok (cap q) (enq_t q) (deq_t q) (seqn q) g h p'"
  shows "lf_inv n (lone q p' g h)"
  using lf_inv_local [OF assms(1) le_refl, of p' 0] assms(2-6) by (simp add: lone_def)

lemma lone_finish: "lf_inv n (lone q p g h) \<Longrightarrow> finished p \<Longrightarrow> lf_inv n (lone q Idle g h)"
  by (erule lone_local) (cases p; simp)+

text \<open>The steps other than the comparison, without unfolding the comparison itself.\<close>

lemma plain_steps:
  "thread_step sp q (Push_load v) = (q, Push_seq v (enqueue_pos q))"
  "thread_step False q (Push_cas v (enqueue_pos q))
     = (q\<lparr>enqueue_pos := enqueue_pos q + 1\<rparr>, Push_write v (enqueue_pos q))"
  "thread_step sp q (Push_write v pos)
     = (update_slot (\<lambda>s. s\<lparr>slot_data := Some v\<rparr>) pos q, Push_publish pos)"
  "thread_step sp q (Push_publish pos)
     = (update_slot (\<lambda>s. s\<lparr>slot_sequence := pos + 1\<rparr>) pos q, Push_done True)"
  "thread_step sp q (Push_done b) = (q, Push_done b)"
  "thread_step sp q Pop_load = (q, Pop_seq (dequeue_pos q))"
  "thread_step False q (Pop_cas (dequeue_pos q))
     = (q\<lparr>dequeue_pos := dequeue_pos q + 1\<rparr>, Pop_read (dequeue_pos q))"
  "thread_step sp q (Pop_read pos)
     = (update_slot (\<lambda>s. s\<lparr>slot_data := None\<rparr>) pos q,
        Pop_release pos (slot_data (buffer q ! slot_index q pos)))"
  "thread_step sp q (Pop_release pos r)
     = (update_slot (\<lambda>s. s\<lparr>slot_sequence := pos + capacity q\<rparr>) pos q, Pop_done (Some r))"
  "thread_step sp q (Pop_done x) = (q, Pop_done x)"
  by simp_all

lemma lone_push_room:
  assumes inv: "lf_inv n (lone q Idle g h)" and n: "n + 5 \<le> 2 ^ 62"
    and room: "enq_t q < deq_t q + cap q"
  shows "\<exists>q'. run_alone 5 (q, Push_load v) = (q', Push_done True)
    \<and> lf_inv (n + 5) (lone q' Idle (g @ [v]) h)
    \<and> enq_t q' = Suc (enq_t q) \<and> deq_t q' = deq_t q \<and> cap q' = cap q"
proof -
  let ?s = "\<lambda>p. lone q p g h" and ?E = "enqueue_pos q"
  have inv0: "lf_inv n (?s (Push_load v))" using lone_local [OF inv] by simp
  have inv1: "lf_inv n (?s (Push_seq v ?E))" using lone_local [OF inv] by simp
  have n': "n \<le> 2 ^ 62" using n by simp
  have r: "ring (cap q) (enq_t q) (deq_t q) (seqn q) (cell q) {} {} {} {} g"
    using lf_invD(3) [OF inv] by (simp add: lone_idle)
  have "seqn q (enq_t q mod cap q) = enq_t q" by (rule ring_quiet_free [OF r room])
  then have cmp: "thread_step False q (Push_seq v ?E) = (q, Push_cas v ?E)"
    using push_compare [OF inv1 n' _ le_refl, of q] by simp
  define q3 where "q3 = q\<lparr>enqueue_pos := ?E + 1\<rparr>"
  define q4 where "q4 = update_slot (\<lambda>s. s\<lparr>slot_data := Some v\<rparr>) ?E q3"
  define q5 where "q5 = update_slot (\<lambda>s. s\<lparr>slot_sequence := ?E + 1\<rparr>) ?E q4"
  have inv5: "lf_inv (n + 5) (run_solo (replicate 5 False) 0 (?s (Push_load v)))"
    using lf_inv_solo [OF inv0, of "replicate 5 False" 0] n by simp
  have run: "run_solo (replicate 5 False) 0 (?s (Push_load v)) = lone q5 (Push_done True) (g @ [v]) h"
    by (simp add: eval_nat_numeral run_lone cmp plain_steps q3_def q4_def q5_def
        del: thread_step.simps)
  then have "run_alone 5 (q, Push_load v) = (q5, Push_done True)"
    using run_alone_solo [of 5 "?s (Push_load v)" 0] by simp
  moreover have "lf_inv (n + 5) (lone q5 Idle (g @ [v]) h)"
    by (rule lone_finish [OF inv5 [unfolded run]]) simp
  moreover have "unat (?E + 1) = Suc (enq_t q)"
    using lf_bounds(3) [OF inv n'] by (intro word_Suc) simp
  ultimately show ?thesis
    by (intro exI [of _ q5]) (simp add: q3_def q4_def q5_def)
qed

lemma lone_push_full:
  assumes inv: "lf_inv n (lone q Idle g h)" and n: "n \<le> 2 ^ 62"
    and full: "deq_t q + cap q \<le> enq_t q"
  shows "run_alone 5 (q, Push_load v) = (q, Push_done False)"
proof -
  let ?s = "\<lambda>p. lone q p g h" and ?E = "enqueue_pos q"
  have inv1: "lf_inv n (?s (Push_seq v ?E))" using lone_local [OF inv] by simp
  have r: "ring (cap q) (enq_t q) (deq_t q) (seqn q) (cell q) {} {} {} {} g"
    using lf_invD(3) [OF inv] by (simp add: lone_idle)
  have "seqn q (enq_t q mod cap q) \<noteq> enq_t q" using ring_claim_push(3) [OF r] full by auto
  with ring_push_not_ahead [OF r] have "seqn q (enq_t q mod cap q) < enq_t q" by simp
  then have cmp: "thread_step False q (Push_seq v ?E) = (q, Push_done False)"
    using push_compare [OF inv1 n _ le_refl, of q] by simp
  show ?thesis by (simp add: eval_nat_numeral cmp plain_steps del: thread_step.simps)
qed

lemma lone_pop_some:
  assumes inv: "lf_inv n (lone q Idle g h)" and n: "n + 5 \<le> 2 ^ 62"
    and some: "deq_t q < enq_t q"
  shows "\<exists>q' h'. run_alone 5 (q, Pop_load) = (q', Pop_done (Some (Some (g ! deq_t q))))
    \<and> lf_inv (n + 5) (lone q' Idle g h')
    \<and> enq_t q' = enq_t q \<and> deq_t q' = Suc (deq_t q) \<and> cap q' = cap q"
proof -
  let ?s = "\<lambda>p. lone q p g h" and ?D = "dequeue_pos q"
  have inv0: "lf_inv n (?s Pop_load)" using lone_local [OF inv] by simp
  have inv1: "lf_inv n (?s (Pop_seq ?D))" using lone_local [OF inv] by simp
  have n': "n \<le> 2 ^ 62" using n by simp
  have r: "ring (cap q) (enq_t q) (deq_t q) (seqn q) (cell q) {} {} {} {} g"
    using lf_invD(3) [OF inv] by (simp add: lone_idle)
  have "seqn q (deq_t q mod cap q) = Suc (deq_t q)" by (rule ring_quiet_ready [OF r some])
  then have cmp: "thread_step False q (Pop_seq ?D) = (q, Pop_cas ?D)"
    using pop_compare [OF inv1 n' _ le_refl, of q] by simp
  define q3 where "q3 = q\<lparr>dequeue_pos := ?D + 1\<rparr>"
  define q4 where "q4 = update_slot (\<lambda>s. s\<lparr>slot_data := None\<rparr>) ?D q3"
  define q5 where "q5 = update_slot (\<lambda>s. s\<lparr>slot_sequence := ?D + capacity q\<rparr>) ?D q4"
  have "slot_index q3 ?D = deq_t q mod cap q"
    using slot_index_mod [of q ?D] lf_invD(1) [OF inv] by (simp add: slot_index_def q3_def)
  moreover have "cell q (deq_t q mod cap q) = Some (g ! deq_t q)"
    by (rule ring_quiet_data [OF r le_refl some])
  ultimately have data: "slot_data (buffer q3 ! slot_index q3 ?D) = Some (g ! deq_t q)"
    by (simp add: cell_def q3_def)
  let ?x = "Some (g ! deq_t q)" and ?h = "h @ [(deq_t q, Some (g ! deq_t q))]"
  have caps: "capacity q4 = capacity q" "capacity q3 = capacity q" by (simp_all add: q3_def q4_def)
  have inv5: "lf_inv (n + 5) (run_solo (replicate 5 False) 0 (?s Pop_load))"
    using lf_inv_solo [OF inv0, of "replicate 5 False" 0] n by simp
  have run: "run_solo (replicate 5 False) 0 (?s Pop_load) = lone q5 (Pop_done (Some ?x)) g ?h"
    by (simp add: eval_nat_numeral run_lone cmp plain_steps q3_def [symmetric] data
        q4_def [symmetric] caps q5_def [symmetric] del: thread_step.simps)
  then have "run_alone 5 (q, Pop_load) = (q5, Pop_done (Some ?x))"
    using run_alone_solo [of 5 "?s Pop_load" 0] by simp
  moreover have "lf_inv (n + 5) (lone q5 Idle g ?h)"
    by (rule lone_finish [OF inv5 [unfolded run]]) simp
  moreover have "unat (?D + 1) = Suc (deq_t q)"
    using lf_bounds(3,4) [OF inv n'] by (intro word_Suc) simp
  ultimately show ?thesis
    by (intro exI [of _ q5] exI [of _ ?h]) (simp add: q3_def q4_def q5_def)
qed

lemma lone_pop_none:
  assumes inv: "lf_inv n (lone q Idle g h)" and n: "n \<le> 2 ^ 62"
    and empty: "enq_t q \<le> deq_t q"
  shows "run_alone 5 (q, Pop_load) = (q, Pop_done None)"
proof -
  let ?s = "\<lambda>p. lone q p g h" and ?D = "dequeue_pos q"
  have inv1: "lf_inv n (?s (Pop_seq ?D))" using lone_local [OF inv] by simp
  have r: "ring (cap q) (enq_t q) (deq_t q) (seqn q) (cell q) {} {} {} {} g"
    using lf_invD(3) [OF inv] by (simp add: lone_idle)
  have "seqn q (deq_t q mod cap q) \<noteq> Suc (deq_t q)" using ring_claim_pop(3) [OF r] empty by auto
  with ring_pop_not_ahead [OF r] have "seqn q (deq_t q mod cap q) \<le> deq_t q" by simp
  then have cmp: "thread_step False q (Pop_seq ?D) = (q, Pop_done None)"
    using pop_compare [OF inv1 n _ le_refl, of q] by simp
  show ?thesis by (simp add: eval_nat_numeral cmp plain_steps del: thread_step.simps)
qed

section \<open>The queue implements the interface\<close>

definition lf_usable :: "nat \<Rightarrow> 'a lfq \<Rightarrow> bool" where
  "lf_usable k q \<longleftrightarrow> lf_quiet q \<and> enq_t q + k + 5 \<le> 2 ^ 62"

lemma lf_quietE:
  assumes "lf_quiet q"
  obtains g h where "lf_inv (enq_t q) (lone q Idle g h)"
    and "contents q = drop (deq_t q) g" and "length (contents q) = enq_t q - deq_t q"
    and "length g = enq_t q" and "deq_t q \<le> enq_t q"
proof -
  obtain g h where inv: "lf_inv (enq_t q) \<lparr>shared = q, threads = (\<lambda>_. Idle), pushed = g, taken = h\<rparr>"
    using assms by (auto simp: lf_quiet_def)
  show thesis
    by (rule that [unfolded lone_idle, OF inv quiet_contents [OF inv]])
      (use ringD(2,4) [OF lf_invD(3) [OF inv]] in simp_all)
qed

lemma lf_quietI: "lf_inv n (lone q Idle g h) \<Longrightarrow> lf_quiet q"
  unfolding lf_quiet_def using lf_inv_tight [of n "lone q Idle g h"] by (auto simp: lone_idle)

lemma run_alone_stays: "finished p \<Longrightarrow> run_alone k (q, p) = (q, p)"
  by (induction k) (simp_all add: finished_stays)

lemma run_alone_add: "run_alone (k + l) s = run_alone l (run_alone k s)"
  by (induction k arbitrary: s) simp_all

lemma run_alone_enough:
  assumes "run_alone 5 s = (q, p)" and "finished p" and "5 \<le> fuel"
  shows "run_alone fuel s = (q, p)"
  using run_alone_add [of 5 "fuel - 5" s] assms by (simp add: run_alone_stays)

lemma lf_try_push_room:
  assumes u: "lf_usable (Suc k) q" and room: "length (contents q) < cap q" and fuel: "5 \<le> fuel"
  shows "\<exists>q'. lf_try_push fuel x q = Some (True, q') \<and> contents q' = contents q @ [x]
    \<and> cap q' = cap q \<and> lf_usable k q'"
proof -
  obtain g h where inv: "lf_inv (enq_t q) (lone q Idle g h)" and c: "contents q = drop (deq_t q) g"
    "length (contents q) = enq_t q - deq_t q" "length g = enq_t q" "deq_t q \<le> enq_t q"
    using u by (auto simp: lf_usable_def elim: lf_quietE)
  have n: "enq_t q + 5 \<le> 2 ^ 62" using u by (simp add: lf_usable_def)
  have "enq_t q < deq_t q + cap q" using room c by linarith
  then obtain q' where q': "run_alone 5 (q, Push_load x) = (q', Push_done True)"
    "lf_inv (enq_t q + 5) (lone q' Idle (g @ [x]) h)"
    "enq_t q' = Suc (enq_t q)" "deq_t q' = deq_t q" "cap q' = cap q"
    using lone_push_room [OF inv n] by blast
  have "contents q' = contents q @ [x]"
    using quiet_contents(1) [OF q'(2) [unfolded lone_idle]] c q'(4) by simp
  then show ?thesis
    using q' u run_alone_enough [OF q'(1) _ fuel] lf_quietI [OF q'(2)]
    by (auto simp: lf_try_push_def lf_usable_def)
qed

lemma lf_try_push_full:
  assumes u: "lf_usable (Suc k) q" and full: "cap q \<le> length (contents q)" and fuel: "5 \<le> fuel"
  shows "lf_try_push fuel x q = Some (False, q)"
proof -
  obtain g h where inv: "lf_inv (enq_t q) (lone q Idle g h)"
    and c: "length (contents q) = enq_t q - deq_t q" "deq_t q \<le> enq_t q"
    using u by (auto simp: lf_usable_def elim: lf_quietE)
  have "run_alone 5 (q, Push_load x) = (q, Push_done False)"
    by (rule lone_push_full [OF inv]) (use u c full in \<open>auto simp: lf_usable_def\<close>)
  from run_alone_enough [OF this _ fuel] show ?thesis by (simp add: lf_try_push_def)
qed

lemma lf_try_pop_some:
  assumes u: "lf_usable (Suc k) q" and some: "contents q = x # xs" and fuel: "5 \<le> fuel"
  shows "\<exists>q'. lf_try_pop fuel q = Some (Some (Some x), q') \<and> contents q' = xs
    \<and> cap q' = cap q \<and> lf_usable k q'"
proof -
  obtain g h where inv: "lf_inv (enq_t q) (lone q Idle g h)" and c: "contents q = drop (deq_t q) g"
    "length (contents q) = enq_t q - deq_t q" "length g = enq_t q" "deq_t q \<le> enq_t q"
    using u by (auto simp: lf_usable_def elim: lf_quietE)
  have n: "enq_t q + 5 \<le> 2 ^ 62" using u by (simp add: lf_usable_def)
  have less: "deq_t q < enq_t q" using c(2) some by (cases "deq_t q < enq_t q") auto
  have x: "g ! deq_t q = x" "drop (Suc (deq_t q)) g = xs"
    using c(1) some less c(3) by (metis Cons_nth_drop_Suc list.inject)+
  obtain q' h' where q': "run_alone 5 (q, Pop_load) = (q', Pop_done (Some (Some x)))"
    "lf_inv (enq_t q + 5) (lone q' Idle g h')"
    "enq_t q' = enq_t q" "deq_t q' = Suc (deq_t q)" "cap q' = cap q"
    using lone_pop_some [OF inv n less] x(1) by auto
  have "contents q' = xs"
    using quiet_contents(1) [OF q'(2) [unfolded lone_idle]] x(2) q'(4) by simp
  then show ?thesis
    using q' u run_alone_enough [OF q'(1) _ fuel] lf_quietI [OF q'(2)]
    by (auto simp: lf_try_pop_def lf_usable_def)
qed

lemma lf_try_pop_none:
  assumes u: "lf_usable (Suc k) q" and empty: "contents q = []" and fuel: "5 \<le> fuel"
  shows "lf_try_pop fuel q = Some (None, q)"
proof -
  obtain g h where inv: "lf_inv (enq_t q) (lone q Idle g h)"
    and c: "length (contents q) = enq_t q - deq_t q" "deq_t q \<le> enq_t q"
    using u by (auto simp: lf_usable_def elim: lf_quietE)
  have "run_alone 5 (q, Pop_load) = (q, Pop_done None)"
    by (rule lone_pop_none [OF inv]) (use u c empty in \<open>auto simp: lf_usable_def\<close>)
  from run_alone_enough [OF this _ fuel] show ?thesis by (simp add: lf_try_pop_def)
qed

interpretation lfs: bounded_fifo "lf_try_push 5" "lf_try_pop 5" "\<lambda>x. Some (Some x)" None
    contents cap lf_usable
proof
  show "lf_usable k q" if "lf_usable (Suc k) q" for k and q :: "'a lfq"
    using that by (simp add: lf_usable_def)
qed (rule lf_try_push_room lf_try_push_full lf_try_pop_some lf_try_pop_none; simp)+

lemma fresh_usable:
  assumes "unat m \<le> 2 ^ 62" and "k + 5 \<le> 2 ^ 62"
  shows "lf_usable k (LockFreeQueue m :: 'a lfq)" and "contents (LockFreeQueue m :: 'a lfq) = []"
proof -
  have "lf_inv 0 (lf_start m :: 'a sys)" by (rule lf_inv_init [OF lf_init [OF assms(1)]])
  then have inv: "lf_inv 0 (lone (LockFreeQueue m :: 'a lfq) Idle [] [])"
    by (simp add: lf_start_def lone_idle)
  have "enq_t (LockFreeQueue m :: 'a lfq) = 0" by (simp add: LockFreeQueue_def Let_def)
  then show "lf_usable k (LockFreeQueue m :: 'a lfq)"
    using lf_quietI [OF inv] assms(2) by (simp add: lf_usable_def)
  show "contents (LockFreeQueue m :: 'a lfq) = []"
    by (simp add: contents_def LockFreeQueue_def Let_def)
qed

section \<open>Properties\<close>

text \<open>
  Functional correctness of \<open>try_push\<close> without concurrent calls. On a queue with room it
  returns \<open>true\<close> and appends the element; on a full one it returns \<open>false\<close> and changes nothing.
  Five atomic steps are enough fuel.
\<close>

lemma lf_try_push_correct:
  assumes "lf_usable (Suc k) q" and "5 \<le> fuel"
  shows "\<exists>q'. lf_try_push fuel x q = Some (length (contents q) < cap q, q')
    \<and> contents q' = (if length (contents q) < cap q then contents q @ [x] else contents q)
    \<and> cap q' = cap q \<and> lf_usable k q'"
proof (cases "length (contents q) < cap q")
  case True
  then show ?thesis using lf_try_push_room [OF assms(1) True assms(2)] by simp
next
  case False
  then show ?thesis
    using lf_try_push_full [OF assms(1) _ assms(2)] lfs.usable_less [OF assms(1)] by simp
qed

text \<open>
  Functional correctness of \<open>try_pop\<close> without concurrent calls. It returns the oldest element
  and removes it, or \<open>nullopt\<close> from an empty queue, which it leaves alone.
\<close>

lemma lf_try_pop_correct:
  assumes "lf_usable (Suc k) q" and "5 \<le> fuel"
  shows "\<exists>q'. lf_try_pop fuel q
      = Some (case contents q of [] \<Rightarrow> None | x # xs \<Rightarrow> Some (Some x), q')
    \<and> contents q' = tl (contents q) \<and> cap q' = cap q \<and> lf_usable k q'"
proof (cases "contents q")
  case Nil
  then show ?thesis
    using lf_try_pop_none [OF assms(1) Nil assms(2)] lfs.usable_less [OF assms(1)] by simp
next
  case (Cons x xs)
  then show ?thesis using lf_try_pop_some [OF assms(1) Cons assms(2)] by simp
qed

text \<open>
  The calls of one thread and their answers, on the queue and on its specification: a list that
  holds at most \<open>room\<close> elements.
\<close>

datatype 'a lf_op = Op_try_push 'a | Op_try_pop | Op_capacity | Op_size_approx

datatype 'a lf_ret = Ret_pushed bool | Ret_popped "'a option option" | Ret_count size_t

primrec lf_exec :: "nat \<Rightarrow> 'a lf_op \<Rightarrow> 'a lfq \<Rightarrow> ('a lf_ret \<times> 'a lfq) option" where
  "lf_exec fuel (Op_try_push x) q = map_option (map_prod Ret_pushed id) (lf_try_push fuel x q)"
| "lf_exec fuel Op_try_pop q = map_option (map_prod Ret_popped id) (lf_try_pop fuel q)"
| "lf_exec fuel Op_capacity q = Some (Ret_count (lf_capacity q), q)"
| "lf_exec fuel Op_size_approx q = Some (Ret_count (lf_size_approx (enqueue_pos q) (dequeue_pos q)), q)"

fun lf_calls :: "nat \<Rightarrow> 'a lf_op list \<Rightarrow> 'a lfq \<Rightarrow> 'a lf_ret list option" where
  "lf_calls fuel [] q = Some []"
| "lf_calls fuel (c # cs) q =
     (case lf_exec fuel c q of None \<Rightarrow> None
      | Some (r, q') \<Rightarrow> map_option (Cons r) (lf_calls fuel cs q'))"

primrec bounded_exec :: "nat \<Rightarrow> 'a lf_op \<Rightarrow> 'a list \<Rightarrow> 'a lf_ret \<times> 'a list" where
  "bounded_exec room (Op_try_push x) xs =
     (if length xs < room then (Ret_pushed True, xs @ [x]) else (Ret_pushed False, xs))"
| "bounded_exec room Op_try_pop xs =
     (case xs of [] \<Rightarrow> (Ret_popped None, []) | x # ys \<Rightarrow> (Ret_popped (Some (Some x)), ys))"
| "bounded_exec room Op_capacity xs = (Ret_count (of_nat room), xs)"
| "bounded_exec room Op_size_approx xs = (Ret_count (of_nat (length xs)), xs)"

fun bounded_calls :: "nat \<Rightarrow> 'a lf_op list \<Rightarrow> 'a list \<Rightarrow> 'a lf_ret list" where
  "bounded_calls room [] xs = []"
| "bounded_calls room (c # cs) xs =
     (case bounded_exec room c xs of (r, ys) \<Rightarrow> r # bounded_calls room cs ys)"

lemma quiet_size:
  assumes "lf_quiet q"
  shows "lf_size_approx (enqueue_pos q) (dequeue_pos q) = of_nat (length (contents q))"
proof -
  from assms have *: "length (contents q) = enq_t q - deq_t q" "deq_t q \<le> enq_t q"
    by (auto elim: lf_quietE)
  then show ?thesis
    by (simp add: lf_size_approx_def word_le_nat_alt of_nat_diff)
qed

lemma lf_exec_refines:
  assumes "lf_usable (Suc k) q" and "5 \<le> fuel"
  shows "\<exists>r q'. lf_exec fuel c q = Some (r, q')
    \<and> bounded_exec (cap q) c (contents q) = (r, contents q') \<and> cap q' = cap q \<and> lf_usable k q'"
proof (cases c)
  case (Op_try_push x)
  then show ?thesis using lf_try_push_correct [OF assms, of x] by auto
next
  case Op_try_pop
  then show ?thesis using lf_try_pop_correct [OF assms] by (auto split: list.splits)
next
  case Op_capacity
  then show ?thesis using lfs.usable_less [OF assms(1)] by (simp add: lf_capacity_def)
next
  case Op_size_approx
  then show ?thesis
    using lfs.usable_less [OF assms(1)] quiet_size [of q] assms(1) by (simp add: lf_usable_def)
qed

lemma lf_calls_refine:
  assumes "lf_usable (length cs) q" and "5 \<le> fuel"
  shows "lf_calls fuel cs q = Some (bounded_calls (cap q) cs (contents q))"
  using assms(1)
proof (induction cs arbitrary: q)
  case (Cons c cs)
  then obtain r q' where "lf_exec fuel c q = Some (r, q')"
    "bounded_exec (cap q) c (contents q) = (r, contents q')" "cap q' = cap q" "lf_usable (length cs) q'"
    using lf_exec_refines [of "length cs" q fuel c] assms(2) by auto
  then show ?case using Cons.IH [of q'] by simp
qed simp

text \<open>
  C19: Refinement. Without concurrent calls the lock-free queue is a bounded FIFO queue: every
  sequence of calls returns (five atomic steps per call are enough fuel, when no compare-exchange
  fails spuriously), and the answers are those
  of a list that refuses a push when it holds \<open>capacity\<close> elements. The capacity is the least power
  of two at least the request and two. The 64-bit position counters are kept at their width, so
  the number of calls is bounded.
\<close>

theorem lf_seq_refines:
  assumes "unat m \<le> 2 ^ 62" and "length cs + 5 \<le> 2 ^ 62" and "5 \<le> fuel"
  shows "lf_calls fuel cs (LockFreeQueue m :: 'a lfq) = Some (bounded_calls (unat (round_up_pow2 m)) cs [])"
proof -
  have "cap (LockFreeQueue m :: 'a lfq) = unat (round_up_pow2 m)"
    by (simp add: LockFreeQueue_def Let_def)
  then show ?thesis
    using lf_calls_refine [OF fresh_usable(1) [OF assms(1,2), where 'a = 'a] assms(3)]
      fresh_usable(2) [OF assms(1,2), where 'a = 'a] by simp
qed

theorem lf_seq_refines_witness:
  "lf_calls 5 [Op_try_push (1 :: nat), Op_try_push 2, Op_try_push 3, Op_size_approx, Op_try_pop,
      Op_try_push 4, Op_try_pop, Op_try_pop, Op_try_pop, Op_capacity] (LockFreeQueue 2)
   = Some [Ret_pushed True, Ret_pushed True, Ret_pushed False, Ret_count 2,
      Ret_popped (Some (Some 1)), Ret_pushed True, Ret_popped (Some (Some 2)),
      Ret_popped (Some (Some 4)), Ret_popped None, Ret_count 2]"
  by (subst lf_seq_refines) (simp_all add: round_up_pow2_def smear_def)

text \<open>
  Filling and draining. Pushing a list into a constructed queue and then popping \<open>n\<close> times:
  the first \<open>capacity\<close> pushes succeed and the others are refused, the pops return the accepted
  elements in their order, and then \<open>nullopt\<close>.
\<close>

lemma lf_fill_and_drain:
  assumes "unat m \<le> 2 ^ 62" and "length xs + n + 5 \<le> 2 ^ 62"
    and "C = cap (LockFreeQueue m :: 'a lfq)"
  shows "\<exists>q' q''. lfs.enq_list xs (LockFreeQueue m :: 'a lfq)
      = Some (replicate (min (length xs) C) True @ replicate (length xs - C) False, q')
    \<and> lfs.deq_times n q' = Some (map (\<lambda>x. Some (Some x)) (take n (take C xs))
      @ replicate (n - min (length xs) C) None, q'')"
  unfolding assms(3)
  by (rule lfs.fill_and_drain [OF fresh_usable(1) [OF assms(1,2)] fresh_usable(2) [OF assms(1,2)]])

lemma lf_fill_and_drain_witness:
  "\<exists>q' q''. lfs.enq_list [1, 2, 3 :: nat] (LockFreeQueue 2) = Some ([True, True, False], q')
    \<and> lfs.deq_times 3 q' = Some ([Some (Some 1), Some (Some 2), None], q'')"
proof -
  have "2 = cap (LockFreeQueue 2 :: nat lfq)"
    by (simp add: LockFreeQueue_def Let_def round_up_pow2_def smear_def)
  from lf_fill_and_drain [OF _ _ this, of "[1, 2, 3]" 3] show ?thesis
    by (simp del: lfs.enq_list.simps lfs.deq_times.simps)
qed

end
