(* ===== verification/Lockfree_Lin.thy ===== *)
theory Lockfree_Lin
  imports Lockfree_Conc
begin

text \<open>
  Linearizability of the queue of \<open>include/ate/lockfree_queue.hpp\<close>. A history is the sequence of
  the calls and returns of all threads; it is linearizable if every call can be given one instant
  between its call and its return at which it takes effect on a queue that is a list. The
  instants of the code are its successful compare-exchanges, and for a refusal the load of the
  sequence. The refusals are weaker than those of a bounded queue: \<open>loose_refusal\<close> says how much.
\<close>

section \<open>Histories and linearizations\<close>

datatype 'a request = Enq 'a | Deq

text \<open>What the calls return: \<open>bool\<close>, or \<open>std::optional\<close> of an element.\<close>

datatype 'a answer = Accepted bool | Taken "'a option option"

datatype 'a event = Invoke nat "'a request" | Respond nat "'a answer"

text \<open>
  The abstract object: its elements, and per thread no call, a call that has not taken effect, or
  one that has, with its answer.
\<close>

datatype 'a phase = Ready | Pending "'a request" | Decided "'a answer"

record 'a atomic_queue =
  content :: "'a list"
  phase :: "nat \<Rightarrow> 'a phase"

fun refusal :: "'a request \<Rightarrow> 'a answer" where
  "refusal (Enq v) = Accepted False"
| "refusal Deq = Taken None"

text \<open>The refusals of a bounded queue, and those of the code.\<close>

fun exact_refusal :: "nat \<Rightarrow> 'a request \<Rightarrow> 'a atomic_queue \<Rightarrow> bool" where
  "exact_refusal c (Enq v) a \<longleftrightarrow> c \<le> length (content a)"
| "exact_refusal c Deq a \<longleftrightarrow> content a = []"

fun loose_refusal :: "nat \<Rightarrow> 'a request \<Rightarrow> 'a atomic_queue \<Rightarrow> bool" where
  "loose_refusal c (Enq v) a \<longleftrightarrow>
     c \<le> length (content a) \<or> (\<exists>k x. phase a k = Decided (Taken (Some x)))"
| "loose_refusal c Deq a \<longleftrightarrow>
     content a = [] \<or> (\<exists>k. phase a k = Decided (Accepted True))"

inductive lin_run :: "('a request \<Rightarrow> 'a atomic_queue \<Rightarrow> bool) \<Rightarrow> nat \<Rightarrow> 'a event list \<Rightarrow> 'a atomic_queue \<Rightarrow> bool"
  for refuses :: "'a request \<Rightarrow> 'a atomic_queue \<Rightarrow> bool" and c :: nat where
  fresh: "lin_run refuses c [] \<lparr>content = [], phase = (\<lambda>_. Ready)\<rparr>"
| invoke: "lin_run refuses c h a \<Longrightarrow> phase a th = Ready
    \<Longrightarrow> lin_run refuses c (h @ [Invoke th r]) (a\<lparr>phase := (phase a)(th := Pending r)\<rparr>)"
| accept: "lin_run refuses c h a \<Longrightarrow> phase a th = Pending (Enq v) \<Longrightarrow> length (content a) < c
    \<Longrightarrow> lin_run refuses c h
      \<lparr>content = content a @ [v], phase = (phase a)(th := Decided (Accepted True))\<rparr>"
| take: "lin_run refuses c h a \<Longrightarrow> phase a th = Pending Deq \<Longrightarrow> content a = x # xs
    \<Longrightarrow> lin_run refuses c h
      \<lparr>content = xs, phase = (phase a)(th := Decided (Taken (Some (Some x))))\<rparr>"
| refuse: "lin_run refuses c h a \<Longrightarrow> phase a th = Pending r \<Longrightarrow> refuses r a
    \<Longrightarrow> lin_run refuses c h (a\<lparr>phase := (phase a)(th := Decided (refusal r))\<rparr>)"
| respond: "lin_run refuses c h a \<Longrightarrow> phase a th = Decided w
    \<Longrightarrow> lin_run refuses c (h @ [Respond th w]) (a\<lparr>phase := (phase a)(th := Ready)\<rparr>)"

definition linearizable ::
    "('a request \<Rightarrow> 'a atomic_queue \<Rightarrow> bool) \<Rightarrow> nat \<Rightarrow> 'a event list \<Rightarrow> bool" where
  "linearizable refuses c h \<longleftrightarrow> (\<exists>a. lin_run refuses c h a)"

text \<open>The history of a schedule.\<close>

fun answer_of :: "'a pc \<Rightarrow> 'a answer" where
  "answer_of (Push_done b) = Accepted b"
| "answer_of (Pop_done r) = Taken r"
| "answer_of p = Taken None"

fun lf_event :: "'a lf_action \<Rightarrow> 'a sys \<Rightarrow> 'a event list" where
  "lf_event (Call_push th v) s = [Invoke th (Enq v)]"
| "lf_event (Call_pop th) s = [Invoke th Deq]"
| "lf_event (Run sp th) s = []"
| "lf_event (Return th) s = [Respond th (answer_of (threads s th))]"

fun lf_history :: "'a lf_action list \<Rightarrow> 'a sys \<Rightarrow> 'a event list" where
  "lf_history [] s = []"
| "lf_history (x # ls) s =
     (case lf_act x s of None \<Rightarrow> [] | Some t \<Rightarrow> lf_event x s @ lf_history ls t)"

section \<open>The simulation\<close>

fun phase_of :: "'a list \<Rightarrow> 'a pc \<Rightarrow> 'a phase" where
  "phase_of g (Push_load v) = Pending (Enq v)"
| "phase_of g (Push_seq v pos) = Pending (Enq v)"
| "phase_of g (Push_cas v pos) = Pending (Enq v)"
| "phase_of g (Push_write v pos) = Decided (Accepted True)"
| "phase_of g (Push_publish pos) = Decided (Accepted True)"
| "phase_of g (Push_done b) = Decided (Accepted b)"
| "phase_of g Pop_load = Pending Deq"
| "phase_of g (Pop_seq pos) = Pending Deq"
| "phase_of g (Pop_cas pos) = Pending Deq"
| "phase_of g (Pop_read pos) = Decided (Taken (Some (Some (g ! unat pos))))"
| "phase_of g (Pop_release pos x) = Decided (Taken (Some x))"
| "phase_of g (Pop_done r) = Decided (Taken r)"
| "phase_of g p = Ready"

definition atomic_view :: "'a sys \<Rightarrow> 'a atomic_queue" where
  "atomic_view s = \<lparr>content = drop (deq_t (shared s)) (pushed s),
     phase = (\<lambda>th. phase_of (pushed s) (threads s th))\<rparr>"

lemma phase_finished: "finished p \<Longrightarrow> phase_of g p = Decided (answer_of p)"
  by (cases p) auto

lemma phase_read: "read_ticket p = Some t \<Longrightarrow> \<exists>x. phase_of g p = Decided (Taken (Some x))"
  by (cases p) auto

lemma phase_write: "write_ticket p = Some t \<Longrightarrow> phase_of g p = Decided (Accepted True)"
  by (cases p) auto

lemma phase_of_more:
  assumes "\<And>t. read_ticket p = Some t \<Longrightarrow> t < length g"
  shows "phase_of (g @ g') p = phase_of g p"
  using assms by (cases p) (simp_all add: nth_append)

text \<open>A step of a thread that is not an instant of effect.\<close>

lemma view_stays:
  assumes "thread_step b (shared s) (threads s th) = (q, p)"
    and "note_push (threads s th) p (pushed s) = pushed s" "dequeue_pos q = dequeue_pos (shared s)"
    and "phase_of (pushed s) p = phase_of (pushed s) (threads s th)"
  shows "atomic_view (run_thread b th s) = atomic_view s"
  unfolding run_thread_eq [OF assms(1)] atomic_view_def using assms(2-4) by (auto simp: fun_eq_iff)

text \<open>A step that changes nothing but what the call of the thread has decided.\<close>

lemma view_decides:
  assumes "thread_step b (shared s) (threads s th) = (shared s, p)"
    and "note_push (threads s th) p (pushed s) = pushed s"
  shows "atomic_view (run_thread b th s) =
    (atomic_view s)\<lparr>phase := (phase (atomic_view s))(th := phase_of (pushed s) p)\<rparr>"
  unfolding run_thread_eq [OF assms(1)] atomic_view_def using assms(2) by (auto simp: fun_eq_iff)

lemma phase_atomic_view [simp]: "phase (atomic_view s) th = phase_of (pushed s) (threads s th)"
  by (simp add: atomic_view_def)

lemma content_atomic_view: "content (atomic_view s) = drop (deq_t (shared s)) (pushed s)"
  by (simp add: atomic_view_def)

lemma read_below:
  assumes "lf_inv n s" "read_ticket (threads s k) = Some t"
  shows "t < length (pushed s)"
proof -
  note r = ringD [OF lf_invD(3) [OF assms(1)]]
  have "t < deq_t (shared s)" using r(9) [OF heldI [of read_ticket "threads s", OF assms(2)]] by simp
  then show ?thesis using r(2,4) by simp
qed

text \<open>A push takes effect when it claims its ticket, a pop when it claims its own.\<close>

lemma sim_push_claim:
  assumes inv: "lf_inv n s" "n < 2 ^ 62" and p: "threads s th = Push_cas v pos"
    and won: "enqueue_pos (shared s) = pos"
    and run: "lin_run refuses (cap (shared s)) h (atomic_view s)"
  shows "lin_run refuses (cap (shared s)) h (atomic_view (run_thread False th s))"
proof -
  let ?t = "run_thread False th s"
  have step: "thread_step False (shared s) (threads s th)
      = ((shared s)\<lparr>enqueue_pos := pos + 1\<rparr>, Push_write v pos)"
    using p won by simp
  note t = run_thread_eq [OF step, unfolded p, simplified]
  note r = ringD [OF lf_invD(3) [OF inv(1)]]
  note r' = ringD [OF lf_invD(3) [OF lf_inv_run [OF inv, of False th]], unfolded t, simplified]
  have len: "length (content (atomic_view s)) < cap (shared s)"
    using r(2,4) r'(3,4) by (simp add: content_atomic_view)
  have "atomic_view ?t = \<lparr>content = content (atomic_view s) @ [v],
      phase = (phase (atomic_view s))(th := Decided (Accepted True))\<rparr>"
    unfolding t atomic_view_def
    using r(2,4) phase_of_more [OF read_below [OF inv(1)], where g' = "[v]"] by (auto simp: fun_eq_iff)
  then show ?thesis using lin_run.accept [OF run _ len, of th v] p by simp
qed

lemma sim_pop_claim:
  assumes inv: "lf_inv n s" "n < 2 ^ 62" and p: "threads s th = Pop_cas pos"
    and won: "dequeue_pos (shared s) = pos"
    and run: "lin_run refuses (cap (shared s)) h (atomic_view s)"
  shows "lin_run refuses (cap (shared s)) h (atomic_view (run_thread False th s))"
proof -
  let ?t = "run_thread False th s" and ?d = "deq_t (shared s)"
  have step: "thread_step False (shared s) (threads s th)
      = ((shared s)\<lparr>dequeue_pos := pos + 1\<rparr>, Pop_read pos)"
    using p won by simp
  note t = run_thread_eq [OF step, unfolded p, simplified]
  note r = ringD [OF lf_invD(3) [OF inv(1)]]
  note r' = ringD [OF lf_invD(3) [OF lf_inv_run [OF inv, of False th]], unfolded t, simplified]
  have suc: "unat (pos + 1) = Suc ?d"
    using lf_bounds(3,4) [OF inv(1) less_imp_le [OF inv(2)] refl] won word_Suc [of pos] by simp
  then have "?d < length (pushed s)" using r'(2,4) r(4) by simp
  then have c: "content (atomic_view s) = (pushed s ! ?d) # drop (Suc ?d) (pushed s)"
    by (simp add: content_atomic_view Cons_nth_drop_Suc)
  have "atomic_view ?t = \<lparr>content = drop (Suc ?d) (pushed s),
      phase = (phase (atomic_view s))(th := Decided (Taken (Some (Some (pushed s ! ?d)))))\<rparr>"
    unfolding t atomic_view_def using suc won by (auto simp: fun_eq_iff)
  then show ?thesis using lin_run.take [OF run _ c, of th] p by simp
qed

text \<open>A refusal takes effect when it loads the sequence.\<close>

lemma sim_push_seq:
  assumes inv: "lf_inv n s" "n \<le> 2 ^ 62" and p: "threads s th = Push_seq v pos"
    and run: "lin_run (loose_refusal (cap (shared s))) (cap (shared s)) h (atomic_view s)"
  shows "lin_run (loose_refusal (cap (shared s))) (cap (shared s)) h (atomic_view (run_thread b th s))"
proof -
  have le: "unat pos \<le> enq_t (shared s)" using lf_invD(6) [OF inv(1), of th] p by simp
  obtain w where step: "thread_step b (shared s) (threads s th) = (shared s, w)"
    and w: "w = Push_done False \<or> w = Push_cas v pos \<or> w = Push_load v"
    using push_compare [OF inv refl le, of b v] p by (auto simp: Let_def)
  note r = ringD [OF lf_invD(3) [OF inv(1)]]
  show ?thesis
  proof (cases "w = Push_done False")
    case True
    then have "enq_t (shared s) = deq_t (shared s) + cap (shared s)
        \<or> (\<exists>k. read_ticket (threads s k) = Some (enq_t (shared s) - cap (shared s)))"
      using push_refused [OF inv p, of b] step by simp
    then have "loose_refusal (cap (shared s)) (Enq v) (atomic_view s)"
      using r(4) phase_read by (fastforce simp: content_atomic_view)
    then show ?thesis
      using lin_run.refuse [OF run, of th "Enq v"] p view_decides [OF step] True by simp
  next
    case False
    then have "atomic_view (run_thread b th s) = atomic_view s"
      using w p by (intro view_stays [OF step]) auto
    then show ?thesis using run by simp
  qed
qed

lemma sim_pop_seq:
  assumes inv: "lf_inv n s" "n \<le> 2 ^ 62" and p: "threads s th = Pop_seq pos"
    and run: "lin_run (loose_refusal (cap (shared s))) (cap (shared s)) h (atomic_view s)"
  shows "lin_run (loose_refusal (cap (shared s))) (cap (shared s)) h (atomic_view (run_thread b th s))"
proof -
  have le: "unat pos \<le> deq_t (shared s)" using lf_invD(6) [OF inv(1), of th] p by simp
  obtain w where step: "thread_step b (shared s) (threads s th) = (shared s, w)"
    and w: "w = Pop_done None \<or> w = Pop_cas pos \<or> w = Pop_load"
    using pop_compare [OF inv refl le, of b] p by (auto simp: Let_def)
  note r = ringD [OF lf_invD(3) [OF inv(1)]]
  show ?thesis
  proof (cases "w = Pop_done None")
    case True
    then have "enq_t (shared s) = deq_t (shared s)
        \<or> (\<exists>k. write_ticket (threads s k) = Some (deq_t (shared s)))"
      using pop_refused [OF inv p, of b] step by simp
    then have "loose_refusal (cap (shared s)) Deq (atomic_view s)"
      using r(4) phase_write by (fastforce simp: content_atomic_view)
    then show ?thesis
      using lin_run.refuse [OF run, of th Deq] p view_decides [OF step] True by simp
  next
    case False
    then have "atomic_view (run_thread b th s) = atomic_view s"
      using w p by (intro view_stays [OF step]) auto
    then show ?thesis using run by simp
  qed
qed

text \<open>What a pop reads out is the element its ticket stands for.\<close>

lemma view_pop_read:
  assumes inv: "lf_inv n s" "n < 2 ^ 62" and p: "threads s th = Pop_read pos"
  shows "atomic_view (run_thread b th s) = atomic_view s"
proof -
  obtain q x where step: "thread_step b (shared s) (threads s th) = (q, Pop_release pos x)"
    using p by simp
  have "(unat pos, x) \<in> set (taken (run_thread b th s))"
    unfolding run_thread_eq [OF step] using p by simp
  from taken_okD(4) [OF lf_invD(7) [OF lf_inv_run [OF inv]] this]
  have "x = Some (pushed s ! unat pos)"
    unfolding run_thread_eq [OF step] using p by simp
  then show ?thesis using p step by (intro view_stays [OF step]) auto
qed

lemma note_push_same: "note_push p p g = g"
  by (cases p) simp_all

lemma sim_run:
  assumes inv: "lf_inv n s" "n < 2 ^ 62"
    and run: "lin_run (loose_refusal (cap (shared s))) (cap (shared s)) h (atomic_view s)"
  shows "lin_run (loose_refusal (cap (shared s))) (cap (shared s)) h (atomic_view (run_thread b th s))"
proof -
  obtain q w where step: "thread_step b (shared s) (threads s th) = (q, w)" by fastforce
  have stays: ?thesis
    if "atomic_view (run_thread b th s) = atomic_view s"
    using that run by simp
  show ?thesis
  proof (cases "threads s th")
    case (Push_seq v pos)
    then show ?thesis using sim_push_seq [OF inv(1) _ _ run] inv(2) by simp
  next
    case (Push_cas v pos)
    show ?thesis
    proof (cases "enqueue_pos (shared s) = pos \<and> \<not> b")
      case True
      then show ?thesis using sim_push_claim [OF inv Push_cas _ run] by simp
    next
      case False
      then show ?thesis using Push_cas step by (intro stays view_stays [OF step]) auto
    qed
  next
    case (Pop_seq pos)
    then show ?thesis using sim_pop_seq [OF inv(1) _ _ run] inv(2) by simp
  next
    case (Pop_cas pos)
    show ?thesis
    proof (cases "dequeue_pos (shared s) = pos \<and> \<not> b")
      case True
      then show ?thesis using sim_pop_claim [OF inv Pop_cas _ run] by simp
    next
      case False
      then show ?thesis using Pop_cas step by (intro stays view_stays [OF step]) auto
    qed
  next
    case (Pop_read pos)
    then show ?thesis using stays view_pop_read [OF inv] by blast
  next
    case Undefined
    then show ?thesis using lf_invD(6) [OF inv(1), of th] by simp
  qed (use step note_push_same in \<open>auto intro!: stays view_stays [OF step]\<close>)
qed

lemma run_thread_capacity: "capacity (shared (run_thread b th s)) = capacity (shared s)"
  by (cases "threads s th") (auto simp: Let_def split: if_splits option.splits)

lemma sim_act:
  assumes inv: "lf_inv n s" "n < 2 ^ 62" and act: "lf_act x s = Some t"
    and run: "lin_run (loose_refusal (cap (shared s))) (cap (shared s)) h (atomic_view s)"
  shows "capacity (shared t) = capacity (shared s) \<and>
    lin_run (loose_refusal (cap (shared s))) (cap (shared s)) (h @ lf_event x s) (atomic_view t)"
proof (cases x)
  case (Call_push th v)
  then have t: "threads s th = Idle" "t = s\<lparr>threads := (threads s)(th := Push_load v)\<rparr>"
    using act by (auto split: pc.splits)
  then have "atomic_view t = (atomic_view s)\<lparr>phase := (phase (atomic_view s))(th := Pending (Enq v))\<rparr>"
    by (auto simp: atomic_view_def fun_eq_iff)
  then show ?thesis using lin_run.invoke [OF run, of th "Enq v"] t Call_push by simp
next
  case (Call_pop th)
  then have t: "threads s th = Idle" "t = s\<lparr>threads := (threads s)(th := Pop_load)\<rparr>"
    using act by (auto split: pc.splits)
  then have "atomic_view t = (atomic_view s)\<lparr>phase := (phase (atomic_view s))(th := Pending Deq)\<rparr>"
    by (auto simp: atomic_view_def fun_eq_iff)
  then show ?thesis using lin_run.invoke [OF run, of th Deq] t Call_pop by simp
next
  case (Run b th)
  then show ?thesis using sim_run [OF inv run] run_thread_capacity act by auto
next
  case (Return th)
  then have t: "finished (threads s th)" "t = s\<lparr>threads := (threads s)(th := Idle)\<rparr>"
    using act by (auto split: if_splits)
  then have "atomic_view t = (atomic_view s)\<lparr>phase := (phase (atomic_view s))(th := Ready)\<rparr>"
    by (auto simp: atomic_view_def fun_eq_iff)
  then show ?thesis
    using lin_run.respond [OF run, of th "answer_of (threads s th)"] phase_finished [OF t(1)] t(2) Return
    by simp
qed

lemma sim_schedule:
  assumes "lf_inv n s" "n + length ls \<le> 2 ^ 62" "run_schedule lf_act ls s = Some t"
    and "lin_run (loose_refusal (cap (shared s))) (cap (shared s)) h (atomic_view s)"
  shows "lin_run (loose_refusal (cap (shared s))) (cap (shared s)) (h @ lf_history ls s) (atomic_view t)"
  using assms
proof (induction ls arbitrary: n s h)
  case (Cons x ls)
  then obtain u where u: "lf_act x s = Some u" "run_schedule lf_act ls u = Some t"
    by (auto split: option.splits)
  have n: "n < 2 ^ 62" using Cons.prems(2) by simp
  note S = sim_act [OF Cons.prems(1) n u(1) Cons.prems(4)]
  have "lf_inv (Suc n) u" by (rule lf_inv_step [OF Cons.prems(1) lf_act_step [OF u(1)] n])
  then show ?case
    using Cons.IH [of "Suc n" u "h @ lf_event x s"] Cons.prems(2) S u by simp
qed simp

section \<open>Deciding whether a short history is linearizable\<close>

text \<open>
  All states of the abstract object with the exact refusals after a history, for calls of the
  threads below \<open>m\<close>: the elements, and the phases as a list. \<open>saturate\<close> adds the states that calls
  lead to when they take effect, \<open>m\<close> times; \<open>all_closed\<close> checks that this was enough.
\<close>

type_synonym 'a lin_state = "'a list \<times> 'a phase list"

fun effect :: "nat \<Rightarrow> 'a request \<Rightarrow> 'a list \<Rightarrow> 'a list \<times> 'a answer" where
  "effect c (Enq v) xs = (if length xs < c then (xs @ [v], Accepted True) else (xs, Accepted False))"
| "effect c Deq [] = ([], Taken None)"
| "effect c Deq (x # xs) = (xs, Taken (Some (Some x)))"

definition effects :: "nat \<Rightarrow> 'a lin_state \<Rightarrow> 'a lin_state list" where
  "effects c st = concat (map (\<lambda>i. case snd st ! i of
     Pending r \<Rightarrow> (let (ys, w) = effect c r (fst st) in [(ys, (snd st)[i := Decided w])]) | _ \<Rightarrow> [])
     [0..<length (snd st)])"

fun observe :: "'a event \<Rightarrow> 'a lin_state \<Rightarrow> 'a lin_state list" where
  "observe (Invoke th r) st = (if snd st ! th = Ready then [(fst st, (snd st)[th := Pending r])] else [])"
| "observe (Respond th w) st = (if snd st ! th = Decided w then [(fst st, (snd st)[th := Ready])] else [])"

primrec saturate :: "nat \<Rightarrow> nat \<Rightarrow> 'a lin_state list \<Rightarrow> 'a lin_state list" where
  "saturate c 0 sts = sts"
| "saturate c (Suc k) sts = saturate c k (remdups (sts @ concat (map (effects c) sts)))"

text \<open>The history is given backwards.\<close>

fun lin_states :: "nat \<Rightarrow> nat \<Rightarrow> 'a event list \<Rightarrow> 'a lin_state list" where
  "lin_states c m [] = [([], replicate m Ready)]"
| "lin_states c m (e # h) = saturate c m (concat (map (observe e) (lin_states c m h)))"

fun all_closed :: "nat \<Rightarrow> nat \<Rightarrow> 'a event list \<Rightarrow> bool" where
  "all_closed c m [] \<longleftrightarrow> True"
| "all_closed c m (e # h) \<longleftrightarrow>
     list_all (\<lambda>st. list_all (\<lambda>u. u \<in> set (lin_states c m (e # h))) (effects c st)) (lin_states c m (e # h)) \<and>
     all_closed c m h"

fun event_thread :: "'a event \<Rightarrow> nat" where
  "event_thread (Invoke th r) = th"
| "event_thread (Respond th w) = th"

definition state_view :: "nat \<Rightarrow> 'a atomic_queue \<Rightarrow> 'a lin_state" where
  "state_view m a = (content a, map (phase a) [0..<m])"

lemma saturate_more: "set sts \<subseteq> set (saturate c k sts)"
proof (induction k arbitrary: sts)
  case (Suc k)
  show ?case using Suc [of "remdups (sts @ concat (map (effects c) sts))"] by auto
qed simp

lemma state_view_phase:
  "th < m \<Longrightarrow> state_view m (a\<lparr>phase := (phase a)(th := x)\<rparr>) = (content a, (map (phase a) [0..<m])[th := x])"
  by (auto simp: state_view_def list_eq_iff_nth_eq nth_list_update)

lemma effects_member:
  assumes "th < m" "phase a th = Pending r" "effect c r (content a) = (xs, w)"
  shows "(xs, (map (phase a) [0..<m])[th := Decided w]) \<in> set (effects c (state_view m a))"
proof -
  have "th \<in> set [0..<m]" using assms(1) by simp
  then show ?thesis
    using assms unfolding effects_def state_view_def by (force simp: Let_def)
qed

lemma closed_member:
  assumes "all_closed c m h" "st \<in> set (lin_states c m h)" "u \<in> set (effects c st)"
  shows "u \<in> set (lin_states c m h)"
proof (cases h)
  case Nil
  then show ?thesis using assms by (simp add: effects_def)
next
  case (Cons e h')
  then show ?thesis using assms by (auto simp: list_all_iff)
qed

lemma lin_states_complete:
  assumes "lin_run (exact_refusal c) c h a" "all_closed c m (rev h)" "\<forall>e \<in> set h. event_thread e < m"
  shows "(\<forall>k \<ge> m. phase a k = Ready) \<and> state_view m a \<in> set (lin_states c m (rev h))"
  using assms
proof (induction rule: lin_run.induct)
  case fresh
  then show ?case by (simp add: state_view_def map_replicate_const)
next
  case (invoke h a th r)
  have "(content a, (map (phase a) [0..<m])[th := Pending r]) \<in> set (observe (Invoke th r) (state_view m a))"
    using invoke by (simp add: state_view_def)
  then show ?case
    using invoke saturate_more by (fastforce simp: state_view_phase)
next
  case (accept h a th v)
  have th: "th < m" using accept by (metis not_less phase.distinct(1))
  have "effect c (Enq v) (content a) = (content a @ [v], Accepted True)" using accept by simp
  note e = effects_member [OF th accept(2) this]
  have "(content a @ [v], (map (phase a) [0..<m])[th := Decided (Accepted True)])
      \<in> set (lin_states c m (rev h))"
    by (rule closed_member [OF accept(5) _ e]) (use accept in blast)
  then show ?case
    using accept th state_view_phase [OF th, of "\<lparr>content = content a @ [v], phase = phase a\<rparr>"] by simp
next
  case (take h a th x xs)
  have th: "th < m" using take by (metis not_less phase.distinct(1))
  have "effect c Deq (content a) = (xs, Taken (Some (Some x)))" using take by simp
  note e = effects_member [OF th take(2) this]
  have "(xs, (map (phase a) [0..<m])[th := Decided (Taken (Some (Some x)))])
      \<in> set (lin_states c m (rev h))"
    by (rule closed_member [OF take(5) _ e]) (use take in blast)
  then show ?case
    using take th state_view_phase [OF th, of "\<lparr>content = xs, phase = phase a\<rparr>"] by simp
next
  case (refuse h a th r)
  have th: "th < m" using refuse by (metis not_less phase.distinct(1))
  have "effect c r (content a) = (content a, refusal r)" using refuse by (cases r) auto
  note e = effects_member [OF th refuse(2) this]
  have "(content a, (map (phase a) [0..<m])[th := Decided (refusal r)]) \<in> set (lin_states c m (rev h))"
    by (rule closed_member [OF refuse(5) _ e]) (use refuse in blast)
  then show ?case
    using refuse th state_view_phase [OF th, of a] by simp
next
  case (respond h a th w)
  have "(content a, (map (phase a) [0..<m])[th := Ready]) \<in> set (observe (Respond th w) (state_view m a))"
    using respond by (simp add: state_view_def)
  then show ?case
    using respond saturate_more by (fastforce simp: state_view_phase)
qed

lemma not_linearizable:
  assumes "lin_states c m (rev h) = []" "all_closed c m (rev h)" "list_all (\<lambda>e. event_thread e < m) h"
  shows "\<not> linearizable (exact_refusal c) c h"
  using lin_states_complete [of c h _ m] assms by (auto simp: linearizable_def list_all_iff)

section \<open>Properties\<close>

text \<open>
  Two schedules on a queue of capacity two. In the first, thread 0 stops inside its push after
  claiming ticket 0, thread 1 completes a push, and then thread 2 calls \<open>try_pop\<close>. In the second,
  both slots are filled, thread 2 stops inside its pop of ticket 0, thread 3 completes a pop, and
  then thread 4 calls \<open>try_push\<close>.
\<close>

definition lin_stalled_push :: "nat lf_action list" where
  "lin_stalled_push =
     Call_push 0 7 # replicate 3 (Run False 0) @ Call_push 1 8 # replicate 5 (Run False 1)
     @ Return 1 # Call_pop 2 # replicate 2 (Run False 2) @ [Return 2]"

definition lin_stalled_pop :: "nat lf_action list" where
  "lin_stalled_pop =
     Call_push 0 7 # replicate 5 (Run False 0) @ Return 0 # Call_push 1 8 # replicate 5 (Run False 1)
     @ Return 1 # Call_pop 2 # replicate 4 (Run False 2) @ Call_pop 3 # replicate 5 (Run False 3)
     @ Return 3 # Call_push 4 9 # replicate 2 (Run False 4) @ [Return 4]"

lemma lin_stalled_push_history:
  "lf_history lin_stalled_push (lf_start 2) =
    [Invoke 0 (Enq 7), Invoke 1 (Enq 8), Respond 1 (Accepted True), Invoke 2 Deq, Respond 2 (Taken None)]"
  by code_simp

lemma lin_stalled_pop_history:
  "lf_history lin_stalled_pop (lf_start 2) =
    [Invoke 0 (Enq 7), Respond 0 (Accepted True), Invoke 1 (Enq 8), Respond 1 (Accepted True),
     Invoke 2 Deq, Invoke 3 Deq, Respond 3 (Taken (Some (Some 8))), Invoke 4 (Enq 9),
     Respond 4 (Accepted False)]"
  by code_simp

lemma stalled_runs:
  "run_schedule lf_act lin_stalled_push (lf_start 2) \<noteq> None"
  "run_schedule lf_act lin_stalled_pop (lf_start 2) \<noteq> None"
proof -
  have "map_option (\<lambda>_. ()) (run_schedule lf_act lin_stalled_push (lf_start 2)) = Some ()"
    "map_option (\<lambda>_. ()) (run_schedule lf_act lin_stalled_pop (lf_start 2)) = Some ()"
    by code_simp+
  then show "run_schedule lf_act lin_stalled_push (lf_start 2) \<noteq> None"
    "run_schedule lf_act lin_stalled_pop (lf_start 2) \<noteq> None" by auto
qed

lemma stalled_histories:
  "\<not> linearizable (exact_refusal 2) 2 (lf_history lin_stalled_push (lf_start 2))"
  "\<not> linearizable (exact_refusal 2) 2 (lf_history lin_stalled_pop (lf_start 2))"
  unfolding lin_stalled_push_history lin_stalled_pop_history
  by (rule not_linearizable [where m = 5]; code_simp)+

text \<open>
  C38: The queue is linearizable up to its refusals, and not beyond. The history of every schedule
  of at most \<open>2 ^ 62\<close> steps, of any number of threads, can be linearized to a first-in first-out
  list that never holds more than \<open>capacity\<close> elements, if a push may be refused while the list
  is full or some pop has taken its element but not yet returned, and a pop while the list is
  empty or some push has put its element in but not yet returned. Without this allowance it is
  false for both operations: two schedules on a queue of capacity two have histories with no
  linearization to a bounded queue.
\<close>

theorem lf_linearizable_up_to_refusals:
  assumes "unat m \<le> 2 ^ 62" and "length ls \<le> 2 ^ 62"
    and "run_schedule lf_act ls (lf_start m :: 'a sys) = Some s"
  shows "linearizable (loose_refusal (unat (round_up_pow2 m))) (unat (round_up_pow2 m))
      (lf_history ls (lf_start m :: 'a sys)) \<and>
    run_schedule lf_act lin_stalled_push (lf_start 2) \<noteq> None \<and>
    \<not> linearizable (exact_refusal 2) 2 (lf_history lin_stalled_push (lf_start 2)) \<and>
    run_schedule lf_act lin_stalled_pop (lf_start 2) \<noteq> None \<and>
    \<not> linearizable (exact_refusal 2) 2 (lf_history lin_stalled_pop (lf_start 2))"
proof -
  let ?s = "lf_start m :: 'a sys"
  have "lf_inv 0 ?s" using assms(1) by (intro lf_inv_init lf_init)
  moreover have "atomic_view ?s = \<lparr>content = [], phase = (\<lambda>_. Ready)\<rparr>"
    by (simp add: atomic_view_def lf_start_def)
  moreover have "cap (shared ?s) = unat (round_up_pow2 m)"
    by (simp add: lf_start_def LockFreeQueue_def Let_def)
  ultimately show ?thesis
    using sim_schedule [of 0 ?s ls s "[]"] assms(2,3) lin_run.fresh stalled_histories stalled_runs
    by (auto simp: linearizable_def)
qed

text \<open>In the history of the first schedule the pop is refused while thread 0 is inside its push.\<close>

theorem lf_linearizable_up_to_refusals_witness:
  "linearizable (loose_refusal 2) 2
     [Invoke 0 (Enq (7 :: nat)), Invoke 1 (Enq 8), Respond 1 (Accepted True), Invoke 2 Deq, Respond 2 (Taken None)]"
proof -
  obtain s where s: "run_schedule lf_act lin_stalled_push (lf_start 2) = Some s"
    using stalled_runs by auto
  have "unat (round_up_pow2 (2 :: size_t)) = 2" by code_simp
  moreover have "length lin_stalled_push \<le> 2 ^ 62" by (simp add: lin_stalled_push_def)
  ultimately show ?thesis
    using lf_linearizable_up_to_refusals [OF _ _ s] lin_stalled_push_history by simp
qed

end
