(* ===== verification/Lockfree_Weak.thy ===== *)
theory Lockfree_Weak
  imports Lockfree_Conc
begin

text \<open>
  The lock-free queue under the memory orders its code asks for (\<open>include/ate/lockfree_queue.hpp\<close>):
  relaxed loads and compare-exchanges of the positions, acquire loads and release stores of the
  sequences, plain accesses to the elements. A load may return any value its location ever held,
  however old; a compare-exchange that succeeds acts on the latest one, one that fails has loaded
  any. A release store carries along the accesses that happened before it, an acquire load of it
  makes them happen before what follows, nothing else orders threads. An access to an element that
  some earlier access does not happen before is a data race. This is weaker than C++ in that loads
  are not even coherent, and stronger in that a load never sees a store not yet made.
\<close>

section \<open>The system\<close>

text \<open>
  \<open>core\<close> has the latest values, the threads and the history variables. \<open>seq_msgs\<close> keeps for every
  slot the values its sequence has had, each with the accesses released by its store; access \<open>k\<close> to
  the element of slot \<open>i\<close> is the pair \<open>(i, k)\<close>. \<open>seen\<close> are the accesses that happen before the next
  action of a thread, \<open>accesses\<close> the number of accesses to an element so far.
\<close>

record 'a wsys =
  core :: "'a sys"
  enq_msgs :: "size_t list"
  deq_msgs :: "size_t list"
  seq_msgs :: "(size_t \<times> (nat \<times> nat) set) list list"
  seen :: "nat \<Rightarrow> (nat \<times> nat) set"
  accesses :: "nat \<Rightarrow> nat"
  raced :: bool

definition weak_start :: "size_t \<Rightarrow> 'a wsys" where
  "weak_start m = (let q = LockFreeQueue m :: 'a lfq in
     \<lparr>core = lf_start m, enq_msgs = [enqueue_pos q], deq_msgs = [dequeue_pos q],
      seq_msgs = map (\<lambda>s. [(slot_sequence s, {})]) (buffer q), seen = (\<lambda>_. {}),
      accesses = (\<lambda>_. 0), raced = False\<rparr>)"

text \<open>Shared memory as a thread sees it that loads the given values.\<close>

definition viewed :: "size_t \<Rightarrow> size_t \<Rightarrow> nat \<Rightarrow> size_t \<Rightarrow> 'a lfq \<Rightarrow> 'a lfq" where
  "viewed e d i x q = q\<lparr>enqueue_pos := e, dequeue_pos := d,
     buffer := (buffer q)[i := (buffer q ! i)\<lparr>slot_sequence := x\<rparr>]\<rparr>"

definition relocate :: "nat \<Rightarrow> 'a pc \<Rightarrow> 'a wsys \<Rightarrow> 'a wsys" where
  "relocate th p w = w\<lparr>core := (core w)\<lparr>threads := (threads (core w))(th := p)\<rparr>\<rparr>"

text \<open>
  A relaxed load of a position, alone or by a compare-exchange that fails. \<open>e\<close> and \<open>d\<close> are the values
  loaded. The thread's own step is the one of \<open>push_step\<close> and \<open>pop_step\<close>.
\<close>

definition load_position :: "size_t \<Rightarrow> size_t \<Rightarrow> nat \<Rightarrow> 'a wsys \<Rightarrow> 'a wsys option" where
  "load_position e d th w =
     (let p = threads (core w) th; q = shared (core w) in
      case p of
        Push_load v \<Rightarrow> if e \<in> set (enq_msgs w)
          then Some (relocate th (snd (thread_step True (q\<lparr>enqueue_pos := e\<rparr>) p)) w) else None
      | Push_cas v pos \<Rightarrow> if e \<in> set (enq_msgs w)
          then Some (relocate th (snd (thread_step True (q\<lparr>enqueue_pos := e\<rparr>) p)) w) else None
      | Pop_load \<Rightarrow> if d \<in> set (deq_msgs w)
          then Some (relocate th (snd (thread_step True (q\<lparr>dequeue_pos := d\<rparr>) p)) w) else None
      | Pop_cas pos \<Rightarrow> if d \<in> set (deq_msgs w)
          then Some (relocate th (snd (thread_step True (q\<lparr>dequeue_pos := d\<rparr>) p)) w) else None
      | _ \<Rightarrow> None)"

text \<open>An acquire load of a sequence: message \<open>k\<close> of the slot.\<close>

definition load_sequence :: "nat \<Rightarrow> nat \<Rightarrow> 'a wsys \<Rightarrow> 'a wsys option" where
  "load_sequence k th w =
     (let p = threads (core w) th; q = shared (core w);
          acquire = (\<lambda>pos. let i = slot_index q pos in
            if k < length (seq_msgs w ! i)
            then (let (x, S) = seq_msgs w ! i ! k;
                      q' = viewed (enqueue_pos q) (dequeue_pos q) i x q in
                  Some ((relocate th (snd (thread_step True q' p)) w)
                    \<lparr>seen := (seen w)(th := seen w th \<union> S)\<rparr>))
            else None)
      in case p of Push_seq v pos \<Rightarrow> acquire pos | Pop_seq pos \<Rightarrow> acquire pos | _ \<Rightarrow> None)"

text \<open>A successful compare-exchange.\<close>

definition claim_position :: "nat \<Rightarrow> 'a wsys \<Rightarrow> 'a wsys option" where
  "claim_position th w =
     (case threads (core w) th of
        Push_cas v pos \<Rightarrow> if enqueue_pos (shared (core w)) = pos
          then Some (w\<lparr>core := run_thread False th (core w), enq_msgs := enq_msgs w @ [pos + 1]\<rparr>)
          else None
      | Pop_cas pos \<Rightarrow> if dequeue_pos (shared (core w)) = pos
          then Some (w\<lparr>core := run_thread False th (core w), deq_msgs := deq_msgs w @ [pos + 1]\<rparr>)
          else None
      | _ \<Rightarrow> None)"

text \<open>An access to an element; moving out of it modifies it, so every two accesses conflict.\<close>

definition access_element :: "nat \<Rightarrow> 'a wsys \<Rightarrow> 'a wsys option" where
  "access_element th w =
     (let access = (\<lambda>pos. let i = slot_index (shared (core w)) pos; k = accesses w i in
        Some (w\<lparr>core := run_thread False th (core w), accesses := (accesses w)(i := Suc k),
                seen := (seen w)(th := insert (i, k) (seen w th)),
                raced := (raced w \<or> \<not> list_all (\<lambda>j. (i, j) \<in> seen w th) [0..<k])\<rparr>))
      in case threads (core w) th of
           Push_write v pos \<Rightarrow> access pos | Pop_read pos \<Rightarrow> access pos | _ \<Rightarrow> None)"

text \<open>A release store of a sequence.\<close>

definition store_sequence :: "nat \<Rightarrow> 'a wsys \<Rightarrow> 'a wsys option" where
  "store_sequence th w =
     (let q = shared (core w);
          release = (\<lambda>pos x. let i = slot_index q pos in
            Some (w\<lparr>core := run_thread False th (core w),
                    seq_msgs := (seq_msgs w)[i := seq_msgs w ! i @ [(x, seen w th)]]\<rparr>))
      in case threads (core w) th of
           Push_publish pos \<Rightarrow> release pos (pos + 1)
         | Pop_release pos r \<Rightarrow> release pos (pos + capacity q)
         | _ \<Rightarrow> None)"

inductive weak_step :: "'a wsys \<Rightarrow> 'a wsys \<Rightarrow> bool" where
  call_push: "threads (core w) th = Idle \<Longrightarrow> weak_step w (relocate th (Push_load v) w)"
| call_pop: "threads (core w) th = Idle \<Longrightarrow> weak_step w (relocate th Pop_load w)"
| load_position: "load_position e d th w = Some w' \<Longrightarrow> weak_step w w'"
| load_sequence: "load_sequence k th w = Some w' \<Longrightarrow> weak_step w w'"
| claim: "claim_position th w = Some w' \<Longrightarrow> weak_step w w'"
| "access": "access_element th w = Some w' \<Longrightarrow> weak_step w w'"
| store: "store_sequence th w = Some w' \<Longrightarrow> weak_step w w'"
| return: "finished (threads (core w) th) \<Longrightarrow> weak_step w (relocate th Idle w)"

inductive weak_init :: "'a wsys \<Rightarrow> bool" where
  "unat m \<le> 2 ^ 62 \<Longrightarrow> weak_init (weak_start m)"

section \<open>What happens before what\<close>

text \<open>
  Ticket \<open>t\<close> is the push and the pop number \<open>t div C\<close> of its slot: before its push there have been
  \<open>2 * (t div C)\<close> accesses to the element.
\<close>

definition knows :: "(nat \<times> nat) set \<Rightarrow> nat \<Rightarrow> nat \<Rightarrow> bool" where
  "knows S i k \<longleftrightarrow> {i} \<times> {..<k} \<subseteq> S"

lemma knows_list_all: "list_all (\<lambda>j. (i, j) \<in> S) [0..<k] \<longleftrightarrow> knows S i k"
  by (auto simp: knows_def list_all_iff)

lemma knows_mono: "knows S i k \<Longrightarrow> S \<subseteq> T \<Longrightarrow> knows T i k"
  by (auto simp: knows_def)

lemma knows_insert: "knows S i k \<Longrightarrow> knows (insert (i, k) S) i (Suc k)"
  unfolding knows_def by (auto simp: subset_iff less_Suc_eq)

definition log_ok :: "nat \<Rightarrow> (nat \<Rightarrow> nat) \<Rightarrow> nat set \<Rightarrow> nat set \<Rightarrow> (nat \<Rightarrow> nat) \<Rightarrow> bool" where
  "log_ok C sq Wd Rd acc \<longleftrightarrow>
     (\<forall>t. (sq (t mod C) = t \<longrightarrow> acc (t mod C) = 2 * (t div C) + of_bool (t \<in> Wd)) \<and>
          (sq (t mod C) = Suc t \<longrightarrow> acc (t mod C) = Suc (2 * (t div C)) + of_bool (t \<in> Rd)))"

definition message_ok :: "nat \<Rightarrow> nat \<Rightarrow> size_t \<times> (nat \<times> nat) set \<Rightarrow> bool" where
  "message_ok C i m \<longleftrightarrow>
     (\<forall>t. t mod C = i \<longrightarrow> (unat (fst m) = t \<longrightarrow> knows (snd m) i (2 * (t div C))) \<and>
        (unat (fst m) = Suc t \<longrightarrow> knows (snd m) i (Suc (2 * (t div C)))))"

lemma message_okI:
  assumes "unat x mod C = i \<Longrightarrow> knows S i (2 * (unat x div C))"
    and "\<And>t. unat x = Suc t \<Longrightarrow> t mod C = i \<Longrightarrow> knows S i (Suc (2 * (t div C)))"
  shows "message_ok C i (x, S)"
  using assms unfolding message_ok_def fst_conv snd_conv by blast

lemma message_okD:
  assumes "message_ok C (t mod C) (x, S)"
  shows "unat x = t \<Longrightarrow> knows (T \<union> S) (t mod C) (2 * (t div C))"
    and "unat x = Suc t \<Longrightarrow> knows (T \<union> S) (t mod C) (Suc (2 * (t div C)))"
proof -
  have "unat x = t \<longrightarrow> knows S (t mod C) (2 * (t div C))"
    "unat x = Suc t \<longrightarrow> knows S (t mod C) (Suc (2 * (t div C)))"
    using assms unfolding message_ok_def fst_conv snd_conv by blast+
  then show "unat x = t \<Longrightarrow> knows (T \<union> S) (t mod C) (2 * (t div C))"
    "unat x = Suc t \<Longrightarrow> knows (T \<union> S) (t mod C) (Suc (2 * (t div C)))"
    by (blast intro: knows_mono)+
qed

fun hb_ok :: "nat \<Rightarrow> (nat \<times> nat) set \<Rightarrow> 'a pc \<Rightarrow> bool" where
  "hb_ok C S (Push_cas v pos) \<longleftrightarrow> knows S (unat pos mod C) (2 * (unat pos div C))"
| "hb_ok C S (Push_write v pos) \<longleftrightarrow> knows S (unat pos mod C) (2 * (unat pos div C))"
| "hb_ok C S (Push_publish pos) \<longleftrightarrow> knows S (unat pos mod C) (Suc (2 * (unat pos div C)))"
| "hb_ok C S (Pop_cas pos) \<longleftrightarrow> knows S (unat pos mod C) (Suc (2 * (unat pos div C)))"
| "hb_ok C S (Pop_read pos) \<longleftrightarrow> knows S (unat pos mod C) (Suc (2 * (unat pos div C)))"
| "hb_ok C S (Pop_release pos r) \<longleftrightarrow> knows S (unat pos mod C) (Suc (Suc (2 * (unat pos div C))))"
| "hb_ok C S p \<longleftrightarrow> True"

lemma log_okD:
  assumes "log_ok C sq Wd Rd acc"
  shows "sq (t mod C) = t \<Longrightarrow> acc (t mod C) = 2 * (t div C) + of_bool (t \<in> Wd)"
    and "sq (t mod C) = Suc t \<Longrightarrow> acc (t mod C) = Suc (2 * (t div C)) + of_bool (t \<in> Rd)"
  using assms unfolding log_ok_def by blast+

lemma log_okI:
  assumes "\<And>t. sq (t mod C) = t \<Longrightarrow> acc (t mod C) = 2 * (t div C) + of_bool (t \<in> Wd)"
    and "\<And>t. sq (t mod C) = Suc t \<Longrightarrow> acc (t mod C) = Suc (2 * (t div C)) + of_bool (t \<in> Rd)"
  shows "log_ok C sq Wd Rd acc"
  using assms unfolding log_ok_def by blast

lemma log_write:
  assumes r: "ring C E D sq dat W Wd R Rd g" and ok: "log_ok C sq Wd Rd acc" and t: "t \<in> W" "t \<notin> Wd"
  shows "log_ok C sq (insert t Wd) Rd (acc(t mod C := Suc (acc (t mod C))))"
    and "acc (t mod C) = 2 * (t div C)"
proof -
  have s: "sq (t mod C) = t" using ringD(8) [OF r t(1)] by simp
  then show a: "acc (t mod C) = 2 * (t div C)" using log_okD(1) [OF ok, of t] t(2) by simp
  show "log_ok C sq (insert t Wd) Rd (acc(t mod C := Suc (acc (t mod C))))"
  proof (rule log_okI, goal_cases)
    case (1 u)
    show ?case
    proof (cases "u mod C = t mod C")
      case True
      then have "u = t" using 1 s by metis
      then show ?thesis using a by simp
    next
      case False
      then show ?thesis using log_okD(1) [OF ok 1] by auto
    qed
  next
    case (2 u)
    then have "u mod C \<noteq> t mod C" using s not_same_slot_Suc [OF ringD(1) [OF r], of u] by metis
    then show ?case using log_okD(2) [OF ok 2] by simp
  qed
qed

lemma log_read:
  assumes r: "ring C E D sq dat W Wd R Rd g" and ok: "log_ok C sq Wd Rd acc" and t: "t \<in> R" "t \<notin> Rd"
  shows "log_ok C sq Wd (insert t Rd) (acc(t mod C := Suc (acc (t mod C))))"
    and "acc (t mod C) = Suc (2 * (t div C))"
proof -
  have s: "sq (t mod C) = Suc t" using ringD(9) [OF r t(1)] by simp
  then show a: "acc (t mod C) = Suc (2 * (t div C))" using log_okD(2) [OF ok, of t] t(2) by simp
  show "log_ok C sq Wd (insert t Rd) (acc(t mod C := Suc (acc (t mod C))))"
  proof (rule log_okI, goal_cases)
    case (1 u)
    then have "u mod C \<noteq> t mod C" using s not_same_slot_Suc [OF ringD(1) [OF r], of t] by metis
    then show ?case using log_okD(1) [OF ok 1] by simp
  next
    case (2 u)
    show ?case
    proof (cases "u mod C = t mod C")
      case True
      then have "u = t" using 2 s by (metis Suc_inject)
      then show ?thesis using a by simp
    next
      case False
      then show ?thesis using log_okD(2) [OF ok 2] by auto
    qed
  qed
qed

lemma log_publish:
  assumes r: "ring C E D sq dat W Wd R Rd g" and ok: "log_ok C sq Wd Rd acc" and t: "t \<in> Wd"
  shows "log_ok C (sq(t mod C := Suc t)) (Wd - {t}) Rd acc"
proof -
  have W: "t \<in> W" using t ringD(5) [OF r] by blast
  then have s: "sq (t mod C) = t" using ringD(8) [OF r] by auto
  have Rd: "t \<notin> Rd" using ringD(6) [OF r] ringD(9) [OF r, of t] s by auto
  have a: "acc (t mod C) = Suc (2 * (t div C))" using log_okD(1) [OF ok s] t by simp
  show ?thesis
  proof (rule log_okI, goal_cases)
    case (1 u)
    then have ne: "u mod C \<noteq> t mod C" using not_same_slot_Suc [OF ringD(1) [OF r], of t] by auto
    then have "u \<noteq> t" by auto
    then show ?case using log_okD(1) [OF ok, of u] 1 ne by simp
  next
    case (2 u)
    show ?case
    proof (cases "u mod C = t mod C")
      case True
      then have "u = t" using 2 by simp
      then show ?thesis using a Rd by simp
    next
      case False
      then show ?thesis using log_okD(2) [OF ok, of u] 2 by simp
    qed
  qed
qed

lemma log_release:
  assumes r: "ring C E D sq dat W Wd R Rd g" and ok: "log_ok C sq Wd Rd acc" and t: "t \<in> Rd"
  shows "log_ok C (sq(t mod C := t + C)) Wd (Rd - {t}) acc"
proof -
  have C: "2 \<le> C" using ringD(1) [OF r] .
  have s: "sq (t mod C) = Suc t" using t ringD(6) [OF r] ringD(9) [OF r, of t] by auto
  have Wd: "t + C \<notin> Wd" using ringD(5) [OF r] ringD(8) [OF r, of "t + C"] s C by auto
  have a: "acc (t mod C) = Suc (Suc (2 * (t div C)))" using log_okD(2) [OF ok s] t by simp
  have "C \<noteq> 0" using C by simp
  then have div: "(t + C) div C = Suc (t div C)" by (simp add: div_add_self2)
  show ?thesis
  proof (rule log_okI, goal_cases)
    case (1 u)
    show ?case
    proof (cases "u mod C = t mod C")
      case True
      then have "u = t + C" using 1 by simp
      then show ?thesis using a Wd div by simp
    next
      case False
      then show ?thesis using log_okD(1) [OF ok, of u] 1 by simp
    qed
  next
    case (2 u)
    have ne: "u mod C \<noteq> t mod C"
    proof
      assume same: "u mod C = t mod C"
      then have "Suc u mod C = u mod C" using 2 by (metis fun_upd_same mod_add_self2)
      then show False using not_same_slot_Suc [OF C, of u] by simp
    qed
    then have "u \<noteq> t" by auto
    then show ?case using log_okD(2) [OF ok, of u] 2 ne by simp
  qed
qed

section \<open>The invariant\<close>

definition weak_inv :: "nat \<Rightarrow> 'a wsys \<Rightarrow> bool" where
  "weak_inv n w \<longleftrightarrow>
     (let s = core w; q = shared s; C = cap q; ts = threads s in
      lf_inv n s \<and> \<not> raced w
      \<and> (\<forall>x \<in> set (enq_msgs w). unat x \<le> enq_t q) \<and> (\<forall>x \<in> set (deq_msgs w). unat x \<le> deq_t q)
      \<and> length (seq_msgs w) = C
      \<and> (\<forall>i < C. \<forall>m \<in> set (seq_msgs w ! i). unat (fst m) \<le> seqn q i \<and> message_ok C i m)
      \<and> log_ok C (seqn q) (held written_ticket ts) (held emptied_ticket ts) (accesses w)
      \<and> (\<forall>th. hb_ok C (seen w th) (ts th)))"

lemma weak_invD:
  assumes "weak_inv n w"
  shows "lf_inv n (core w)" "\<not> raced w"
    and "\<And>x. x \<in> set (enq_msgs w) \<Longrightarrow> unat x \<le> enq_t (shared (core w))"
    and "\<And>x. x \<in> set (deq_msgs w) \<Longrightarrow> unat x \<le> deq_t (shared (core w))"
    and "length (seq_msgs w) = cap (shared (core w))"
    and "\<And>i m. i < cap (shared (core w)) \<Longrightarrow> m \<in> set (seq_msgs w ! i) \<Longrightarrow>
      unat (fst m) \<le> seqn (shared (core w)) i"
    and "\<And>i m. i < cap (shared (core w)) \<Longrightarrow> m \<in> set (seq_msgs w ! i) \<Longrightarrow>
      message_ok (cap (shared (core w))) i m"
    and "log_ok (cap (shared (core w))) (seqn (shared (core w))) (held written_ticket (threads (core w)))
      (held emptied_ticket (threads (core w))) (accesses w)"
    and "\<And>th. hb_ok (cap (shared (core w))) (seen w th) (threads (core w) th)"
  using assms unfolding weak_inv_def Let_def by blast+

lemma weak_invI:
  assumes "lf_inv n (core w)" "\<not> raced w" "cap (shared (core w)) = C"
    and "\<And>x. x \<in> set (enq_msgs w) \<Longrightarrow> unat x \<le> enq_t (shared (core w))"
    and "\<And>x. x \<in> set (deq_msgs w) \<Longrightarrow> unat x \<le> deq_t (shared (core w))"
    and "length (seq_msgs w) = C"
    and "\<And>i m. i < C \<Longrightarrow> m \<in> set (seq_msgs w ! i) \<Longrightarrow> unat (fst m) \<le> seqn (shared (core w)) i"
    and "\<And>i m. i < C \<Longrightarrow> m \<in> set (seq_msgs w ! i) \<Longrightarrow> message_ok C i m"
    and "log_ok C (seqn (shared (core w))) (held written_ticket (threads (core w)))
      (held emptied_ticket (threads (core w))) (accesses w)"
    and "\<And>th. hb_ok C (seen w th) (threads (core w) th)"
  shows "weak_inv n w"
  using assms unfolding weak_inv_def Let_def by simp

lemma held_none:
  "f p = None \<Longrightarrow> f (ts th) = None \<Longrightarrow> held f (ts(th := p)) = held f ts"
  unfolding held_def by (auto, metis option.distinct(1))

lemma no_ticket:
  "write_ticket p = None \<Longrightarrow> written_ticket p = None" "read_ticket p = None \<Longrightarrow> emptied_ticket p = None"
  by (cases p; simp)+

lemma hb_ok_mono: "hb_ok C S p \<Longrightarrow> S \<subseteq> T \<Longrightarrow> hb_ok C T p"
  by (cases p) (auto intro: knows_mono)

text \<open>A thread that holds no ticket moves on, perhaps having acquired a message.\<close>

lemma weak_relocate:
  assumes inv: "weak_inv n w" and "n \<le> m"
    and none: "write_ticket p = None" "write_ticket (threads (core w) th) = None"
      "read_ticket p = None" "read_ticket (threads (core w) th) = None"
    and ok: "thread_ok (cap (shared (core w))) (enq_t (shared (core w))) (deq_t (shared (core w)))
      (seqn (shared (core w))) (pushed (core w)) (taken (core w)) p"
    and hb: "hb_ok (cap (shared (core w))) (seen w th \<union> S) p"
  shows "weak_inv m ((relocate th p w)\<lparr>seen := (seen w)(th := seen w th \<union> S)\<rparr>)"
proof (rule weak_invI [where C = "cap (shared (core w))"], goal_cases)
  case 1
  show ?case using lf_inv_local [OF weak_invD(1) [OF inv] assms(2) none ok] by (simp add: relocate_def)
next
  case 9
  show ?case
    using weak_invD(8) [OF inv] none held_none [of written_ticket p "threads (core w)" th]
      held_none [of emptied_ticket p "threads (core w)" th]
    by (simp add: relocate_def no_ticket)
next
  case (10 k)
  then show ?case using weak_invD(9) [OF inv, of k] hb by (simp add: relocate_def)
qed (use weak_invD [OF inv] in \<open>simp_all add: relocate_def\<close>)

lemma weak_relocate_plain:
  assumes "weak_inv n w" and "n \<le> m"
    and "write_ticket p = None" "write_ticket (threads (core w) th) = None"
      "read_ticket p = None" "read_ticket (threads (core w) th) = None"
    and "thread_ok (cap (shared (core w))) (enq_t (shared (core w))) (deq_t (shared (core w)))
      (seqn (shared (core w))) (pushed (core w)) (taken (core w)) p"
    and "hb_ok (cap (shared (core w))) (seen w th) p"
  shows "weak_inv m (relocate th p w)"
proof -
  have "(relocate th p w)\<lparr>seen := (seen w)(th := seen w th \<union> {})\<rparr> = relocate th p w"
    by (simp add: relocate_def)
  then show ?thesis using weak_relocate [OF assms(1-7), of "{}"] assms(8) by simp
qed

lemma weak_load_position:
  assumes inv: "weak_inv n w" and step: "load_position e d th w = Some w'"
  shows "weak_inv (Suc n) w'"
proof -
  note D = weak_invD [OF inv]
  consider v where "threads (core w) th = Push_load v" | v pos where "threads (core w) th = Push_cas v pos"
    | "threads (core w) th = Pop_load" | pos where "threads (core w) th = Pop_cas pos"
    using step by (auto simp: load_position_def Let_def split: pc.splits)
  then show ?thesis
  proof cases
    case 1
    then have "w' = relocate th (Push_seq v e) w" "e \<in> set (enq_msgs w)"
      using step by (auto simp: load_position_def split: if_splits)
    then show ?thesis using 1 D(3) [of e] by (auto intro!: weak_relocate_plain [OF inv])
  next
    case 2
    then have "w' = relocate th (Push_seq v e) w" "e \<in> set (enq_msgs w)"
      using step by (auto simp: load_position_def split: if_splits)
    then show ?thesis using 2 D(3) [of e] by (auto intro!: weak_relocate_plain [OF inv])
  next
    case 3
    then have "w' = relocate th (Pop_seq d) w" "d \<in> set (deq_msgs w)"
      using step by (auto simp: load_position_def split: if_splits)
    then show ?thesis using 3 D(4) [of d] by (auto intro!: weak_relocate_plain [OF inv])
  next
    case 4
    then have "w' = relocate th (Pop_seq d) w" "d \<in> set (deq_msgs w)"
      using step by (auto simp: load_position_def split: if_splits)
    then show ?thesis using 4 D(4) [of d] by (auto intro!: weak_relocate_plain [OF inv])
  qed
qed

text \<open>The comparison with a stale sequence number.\<close>

lemma viewed_frame:
  "length (buffer (viewed e d i x q)) = length (buffer q)" "slot_index (viewed e d i x q) pos = slot_index q pos"
  "i < length (buffer q) \<Longrightarrow> slot_sequence (buffer (viewed e d i x q) ! i) = x"
  by (simp_all add: viewed_def slot_index_def)

lemma viewed_push:
  assumes geo: "geometry_ok q" and pos: "unat pos \<le> 2 ^ 62" and x: "unat x < 2 ^ 63"
  shows "snd (thread_step sp (viewed e d (slot_index q pos) x q) (Push_seq v pos)) =
    (if unat x = unat pos then Push_cas v pos else if unat x < unat pos then Push_done False
     else Push_load v)"
proof -
  have "ptrdiff x pos = Some (int (unat x) - int (unat pos))"
    using pos x by (intro ptrdiff_nat) simp_all
  then show ?thesis
    using slot_index_in [OF geo, of pos] by (simp add: viewed_frame Let_def del: of_nat_unat)
qed

lemma viewed_pop:
  assumes geo: "geometry_ok q" and pos: "unat pos \<le> 2 ^ 62" and x: "unat x < 2 ^ 63"
  shows "snd (thread_step sp (viewed e d (slot_index q pos) x q) (Pop_seq pos)) =
    (if unat x = Suc (unat pos) then Pop_cas pos else if unat x \<le> unat pos then Pop_done None
     else Pop_load)"
proof -
  note suc = word_Suc [OF pos]
  have "ptrdiff x (pos + 1) = Some (int (unat x) - int (unat (pos + 1)))"
    using pos x by (intro ptrdiff_nat) (simp_all add: suc)
  then show ?thesis
    using slot_index_in [OF geo, of pos]
    by (simp add: viewed_frame Let_def suc del: of_nat_unat of_nat_Suc)
qed

lemma weak_load_sequence:
  assumes inv: "weak_inv n w" and n: "n < 2 ^ 62" and step: "load_sequence k th w = Some w'"
  shows "weak_inv (Suc n) w'"
proof -
  note D = weak_invD [OF inv] and I = lf_invD [OF weak_invD(1) [OF inv]]
  note b = lf_bounds [OF D(1) less_imp_le [OF n] refl]
  let ?q = "shared (core w)"
  have msg: "x = fst (seq_msgs w ! i ! k) \<Longrightarrow> k < length (seq_msgs w ! i) \<Longrightarrow> i < cap ?q \<Longrightarrow>
      unat x \<le> seqn ?q i \<and> message_ok (cap ?q) i (seq_msgs w ! i ! k)" for x i
    using D(6,7) [of i "seq_msgs w ! i ! k"] by simp
  consider v pos where "threads (core w) th = Push_seq v pos" | pos where "threads (core w) th = Pop_seq pos"
    using step by (auto simp: load_sequence_def Let_def split: pc.splits)
  then show ?thesis
  proof cases
    case 1
    let ?i = "unat pos mod cap ?q"
    obtain x S where x: "seq_msgs w ! ?i ! k = (x, S)" by (cases "seq_msgs w ! ?i ! k")
    have i: "slot_index ?q pos = ?i" "?i < cap ?q" using slot_index_mod [OF I(1)] b(2) by auto
    define p where "p = snd (thread_step True (viewed (enqueue_pos ?q) (dequeue_pos ?q) ?i x ?q) (Push_seq v pos))"
    have w': "w' = (relocate th p w)\<lparr>seen := (seen w)(th := seen w th \<union> S)\<rparr>"
      and k: "k < length (seq_msgs w ! ?i)"
      using step 1 x i(1) by (auto simp: load_sequence_def Let_def p_def split: if_splits)
    have pos: "unat pos \<le> enq_t ?q" using I(6) [of th] 1 by simp
    have m: "unat x \<le> seqn ?q ?i" "message_ok (cap ?q) ?i (x, S)" using msg [of x ?i] k i(2) x by auto
    have p: "p = (if unat x = unat pos then Push_cas v pos
        else if unat x < unat pos then Push_done False else Push_load v)"
      unfolding p_def i(1) [symmetric]
      by (rule viewed_push [OF I(1)]) (use pos b(3) m(1) b(5) [of "unat pos"] in simp_all)
    have "seqn ?q (enq_t ?q mod cap ?q) = enq_t ?q" if "unat x = unat pos" "unat pos = enq_t ?q"
      using m(1) that ring_push_not_ahead [OF I(3)] by simp
    moreover have "knows (seen w th \<union> S) ?i (2 * (unat pos div cap ?q))" if "unat x = unat pos"
      using message_okD(1) [OF m(2) that] .
    ultimately show ?thesis
      unfolding w' by (intro weak_relocate [OF inv]) (use 1 pos in \<open>auto simp: p\<close>)
  next
    case 2
    let ?i = "unat pos mod cap ?q"
    obtain x S where x: "seq_msgs w ! ?i ! k = (x, S)" by (cases "seq_msgs w ! ?i ! k")
    have i: "slot_index ?q pos = ?i" "?i < cap ?q" using slot_index_mod [OF I(1)] b(2) by auto
    define p where "p = snd (thread_step True (viewed (enqueue_pos ?q) (dequeue_pos ?q) ?i x ?q) (Pop_seq pos))"
    have w': "w' = (relocate th p w)\<lparr>seen := (seen w)(th := seen w th \<union> S)\<rparr>"
      and k: "k < length (seq_msgs w ! ?i)"
      using step 2 x i(1) by (auto simp: load_sequence_def Let_def p_def split: if_splits)
    have pos: "unat pos \<le> deq_t ?q" using I(6) [of th] 2 by simp
    have m: "unat x \<le> seqn ?q ?i" "message_ok (cap ?q) ?i (x, S)" using msg [of x ?i] k i(2) x by auto
    have p: "p = (if unat x = Suc (unat pos) then Pop_cas pos
        else if unat x \<le> unat pos then Pop_done None else Pop_load)"
      unfolding p_def i(1) [symmetric]
      by (rule viewed_pop [OF I(1)]) (use pos b(3,4) m(1) b(5) [of "unat pos"] in simp_all)
    have "seqn ?q (deq_t ?q mod cap ?q) = Suc (deq_t ?q)" if "unat x = Suc (unat pos)" "unat pos = deq_t ?q"
      using m(1) that ring_pop_not_ahead [OF I(3)] by simp
    moreover have "knows (seen w th \<union> S) ?i (Suc (2 * (unat pos div cap ?q)))" if "unat x = Suc (unat pos)"
      using message_okD(2) [OF m(2) that] .
    ultimately show ?thesis
      unfolding w' by (intro weak_relocate [OF inv]) (use 2 pos in \<open>auto simp: p\<close>)
  qed
qed

text \<open>How the tickets that threads hold change with a step of thread \<open>th\<close>.\<close>

lemma held_step:
  assumes "lf_inv n s"
  shows "held written_ticket ((threads s)(th := p)) =
      (held written_ticket (threads s) - set_option (written_ticket (threads s th))) \<union> set_option (written_ticket p)"
    and "held emptied_ticket ((threads s)(th := p)) =
      (held emptied_ticket (threads s) - set_option (emptied_ticket (threads s th))) \<union> set_option (emptied_ticket p)"
  using held_update [OF exclusive_written [OF lf_invD(4) [OF assms]], of th p]
    held_update [OF exclusive_emptied [OF lf_invD(5) [OF assms]], of th p] by simp_all

lemma weak_claim_push:
  assumes inv: "weak_inv n w" and n: "n < 2 ^ 62" and step: "claim_position th w = Some w'"
    and pc: "threads (core w) th = Push_cas v pos"
  shows "weak_inv (Suc n) w'"
proof -
  note D = weak_invD [OF inv] and I = lf_invD [OF weak_invD(1) [OF inv]]
  note b = lf_bounds [OF D(1) less_imp_le [OF n] refl]
  let ?q = "shared (core w)"
  have won: "enqueue_pos ?q = pos"
    and w': "w' = w\<lparr>core := run_thread False th (core w), enq_msgs := enq_msgs w @ [pos + 1]\<rparr>"
    using step pc by (auto simp: claim_position_def split: if_splits)
  have core: "run_thread False th (core w) = \<lparr>shared = ?q\<lparr>enqueue_pos := pos + 1\<rparr>,
      threads = (threads (core w))(th := Push_write v pos), pushed = pushed (core w) @ [v], taken = taken (core w)\<rparr>"
    using pc won by (simp add: run_thread_def)
  have suc: "unat (pos + 1) = Suc (enq_t ?q)" using word_Suc [of pos] b(3) won by simp
  show ?thesis
  proof (rule weak_invI [where C = "cap ?q"], goal_cases)
    case 1
    show ?case unfolding w' using inv_push_claim [OF D(1) n pc won] by simp
  next
    case 9
    show ?case using D(8) pc by (simp add: w' core held_step [OF D(1)])
  next
    case (10 k)
    then show ?case using D(9) [of k] pc by (cases "k = th") (simp_all add: w' core)
  next
    case (4 x)
    then show ?case using D(3) [of x] suc by (auto simp: w' core)
  qed (use D in \<open>simp_all add: w' core\<close>)
qed

lemma weak_claim_pop:
  assumes inv: "weak_inv n w" and n: "n < 2 ^ 62" and step: "claim_position th w = Some w'"
    and pc: "threads (core w) th = Pop_cas pos"
  shows "weak_inv (Suc n) w'"
proof -
  note D = weak_invD [OF inv] and I = lf_invD [OF weak_invD(1) [OF inv]]
  note b = lf_bounds [OF D(1) less_imp_le [OF n] refl]
  let ?q = "shared (core w)"
  have won: "dequeue_pos ?q = pos"
    and w': "w' = w\<lparr>core := run_thread False th (core w), deq_msgs := deq_msgs w @ [pos + 1]\<rparr>"
    using step pc by (auto simp: claim_position_def split: if_splits)
  have core: "run_thread False th (core w) = \<lparr>shared = ?q\<lparr>dequeue_pos := pos + 1\<rparr>,
      threads = (threads (core w))(th := Pop_read pos), pushed = pushed (core w), taken = taken (core w)\<rparr>"
    using pc won by (simp add: run_thread_def)
  have suc: "unat (pos + 1) = Suc (deq_t ?q)" using word_Suc [of pos] b(3,4) won by simp
  show ?thesis
  proof (rule weak_invI [where C = "cap ?q"], goal_cases)
    case 1
    show ?case unfolding w' using inv_pop_claim [OF D(1) n pc won] by simp
  next
    case 9
    show ?case using D(8) pc by (simp add: w' core held_step [OF D(1)])
  next
    case (10 k)
    then show ?case using D(9) [of k] pc by (cases "k = th") (simp_all add: w' core)
  next
    case (5 x)
    then show ?case using D(4) [of x] suc by (auto simp: w' core)
  qed (use D in \<open>simp_all add: w' core\<close>)
qed

lemma weak_claim:
  assumes inv: "weak_inv n w" and n: "n < 2 ^ 62" and step: "claim_position th w = Some w'"
  shows "weak_inv (Suc n) w'"
  using weak_claim_push [OF assms] weak_claim_pop [OF assms] step
  by (cases "threads (core w) th") (auto simp: claim_position_def Let_def)

text \<open>The holder of a ticket has taken out its element in one state only.\<close>

lemma sole_holder:
  assumes inv: "lf_inv n s"
  shows "threads s th = Push_write v pos \<Longrightarrow> unat pos \<notin> held written_ticket (threads s)"
    and "threads s th = Pop_read pos \<Longrightarrow> unat pos \<notin> held emptied_ticket (threads s)"
proof -
  note i = lf_invD [OF inv]
  show "unat pos \<notin> held written_ticket (threads s)" if p: "threads s th = Push_write v pos"
  proof
    assume "unat pos \<in> held written_ticket (threads s)"
    then obtain j where j: "written_ticket (threads s j) = Some (unat pos)" by (auto simp: held_def)
    then have "j = th" using i(4) p written_write unfolding exclusive_def by fastforce
    then show False using j p by simp
  qed
  show "unat pos \<notin> held emptied_ticket (threads s)" if p: "threads s th = Pop_read pos"
  proof
    assume "unat pos \<in> held emptied_ticket (threads s)"
    then obtain j where j: "emptied_ticket (threads s j) = Some (unat pos)" by (auto simp: held_def)
    then have "j = th" using i(5) p emptied_read unfolding exclusive_def by fastforce
    then show False using j p by simp
  qed
qed

lemma weak_access_push:
  assumes inv: "weak_inv n w" and n: "n < 2 ^ 62" and step: "access_element th w = Some w'"
    and pc: "threads (core w) th = Push_write v pos"
  shows "weak_inv (Suc n) w'"
proof -
  note D = weak_invD [OF inv] and I = lf_invD [OF weak_invD(1) [OF inv]]
  let ?q = "shared (core w)" and ?ts = "threads (core w)"
  note idx = slot_index_mod [OF I(1)] and view = view_update_slot(1,2) [OF I(1)]
  let ?t = "unat pos" and ?i = "unat pos mod cap ?q"
  have t: "?t \<in> held write_ticket ?ts" using pc by (intro heldI [of _ _ th]) simp
  note log = log_write [OF I(3) D(8) t sole_holder(1) [OF D(1) pc]]
  have knows: "knows (seen w th) ?i (accesses w ?i)" using D(9) [of th] pc log(2) by simp
  have w': "w' = w\<lparr>core := run_thread False th (core w), accesses := (accesses w)(?i := Suc (accesses w ?i)),
      seen := (seen w)(th := insert (?i, accesses w ?i) (seen w th)), raced := False\<rparr>"
    using step pc D(2) knows by (simp add: access_element_def Let_def idx knows_list_all)
  have core: "run_thread False th (core w) = \<lparr>shared = update_slot (\<lambda>s. s\<lparr>slot_data := Some v\<rparr>) pos ?q,
      threads = ?ts(th := Push_publish pos), pushed = pushed (core w), taken = taken (core w)\<rparr>"
    using pc by (simp add: run_thread_def)
  show ?thesis
  proof (rule weak_invI [where C = "cap ?q"], goal_cases)
    case 1
    show ?case unfolding w' using inv_push_write [OF D(1) n pc] by simp
  next
    case 9
    show ?case using log(1) pc by (simp add: w' core held_step [OF D(1)] view)
  next
    case (10 k)
    then show ?case
      using D(9) [of k] knows_insert [OF knows] log(2) by (simp add: w' core)
  qed (use D in \<open>simp_all add: w' core view\<close>)
qed

lemma weak_access_pop:
  assumes inv: "weak_inv n w" and n: "n < 2 ^ 62" and step: "access_element th w = Some w'"
    and pc: "threads (core w) th = Pop_read pos"
  shows "weak_inv (Suc n) w'"
proof -
  note D = weak_invD [OF inv] and I = lf_invD [OF weak_invD(1) [OF inv]]
  let ?q = "shared (core w)" and ?ts = "threads (core w)"
  note idx = slot_index_mod [OF I(1)] and view = view_update_slot(1,2) [OF I(1)]
  let ?t = "unat pos" and ?i = "unat pos mod cap ?q"
  have t: "?t \<in> held read_ticket ?ts" using pc by (intro heldI [of _ _ th]) simp
  note log = log_read [OF I(3) D(8) t sole_holder(2) [OF D(1) pc]]
  have knows: "knows (seen w th) ?i (accesses w ?i)" using D(9) [of th] pc log(2) by simp
  have w': "w' = w\<lparr>core := run_thread False th (core w), accesses := (accesses w)(?i := Suc (accesses w ?i)),
      seen := (seen w)(th := insert (?i, accesses w ?i) (seen w th)), raced := False\<rparr>"
    using step pc D(2) knows by (simp add: access_element_def Let_def idx knows_list_all)
  have core: "run_thread False th (core w) = \<lparr>shared = update_slot (\<lambda>s. s\<lparr>slot_data := None\<rparr>) pos ?q,
      threads = ?ts(th := Pop_release pos (cell ?q ?i)), pushed = pushed (core w),
      taken = taken (core w) @ [(?t, cell ?q ?i)]\<rparr>"
    using pc by (simp add: run_thread_def cell_def idx)
  show ?thesis
  proof (rule weak_invI [where C = "cap ?q"], goal_cases)
    case 1
    show ?case unfolding w' using inv_pop_read [OF D(1) n pc] by simp
  next
    case 9
    show ?case using log(1) pc by (simp add: w' core held_step [OF D(1)] view)
  next
    case (10 k)
    then show ?case
      using D(9) [of k] knows_insert [OF knows] log(2) by (simp add: w' core)
  qed (use D in \<open>simp_all add: w' core view\<close>)
qed

lemma weak_access:
  assumes inv: "weak_inv n w" and n: "n < 2 ^ 62" and step: "access_element th w = Some w'"
  shows "weak_inv (Suc n) w'"
  using weak_access_push [OF assms] weak_access_pop [OF assms] step
  by (cases "threads (core w) th") (auto simp: access_element_def Let_def)

text \<open>The messages of a slot after a store of a greater sequence number.\<close>

lemma store_messages:
  assumes inv: "weak_inv n w" and i: "i < cap (shared (core w))"
    and x: "seqn (shared (core w)) i \<le> unat x" "message_ok (cap (shared (core w))) i (x, S)"
    and j: "j < cap (shared (core w))" "m \<in> set ((seq_msgs w)[i := seq_msgs w ! i @ [(x, S)]] ! j)"
  shows "unat (fst m) \<le> ((seqn (shared (core w)))(i := unat x)) j \<and> message_ok (cap (shared (core w))) j m"
proof -
  have old: "unat (fst m) \<le> seqn (shared (core w)) j" "message_ok (cap (shared (core w))) j m"
    if "m \<in> set (seq_msgs w ! j)"
    using weak_invD(6,7) [OF inv j(1) that] .
  show ?thesis
  proof (cases "j = i")
    case True
    then have "m \<in> set (seq_msgs w ! i) \<or> m = (x, S)"
      using j weak_invD(5) [OF inv] by auto
    then show ?thesis using old True x by fastforce
  next
    case False
    then show ?thesis using j old by simp
  qed
qed

lemma weak_store_push:
  assumes inv: "weak_inv n w" and n: "n < 2 ^ 62" and step: "store_sequence th w = Some w'"
    and pc: "threads (core w) th = Push_publish pos"
  shows "weak_inv (Suc n) w'"
proof -
  note D = weak_invD [OF inv] and I = lf_invD [OF weak_invD(1) [OF inv]]
  note b = lf_bounds [OF D(1) less_imp_le [OF n] refl]
  let ?q = "shared (core w)" and ?ts = "threads (core w)"
  note idx = slot_index_mod [OF I(1)] and view = view_update_slot(3,4) [OF I(1)]
  let ?t = "unat pos" and ?i = "unat pos mod cap ?q"
  have i: "?i < cap ?q" using b(2) by simp
  have t: "?t \<in> held written_ticket ?ts" using pc by (intro heldI [of _ _ th]) simp
  then have "?t \<in> held write_ticket ?ts" using ringD(5) [OF I(3)] by blast
  then have own: "?t < enq_t ?q" "seqn ?q ?i = ?t" using ringD(8) [OF I(3)] by auto
  have suc: "unat (pos + 1) = Suc ?t" using own(1) b(3) by (intro word_Suc) simp
  have "knows (seen w th) ?i (Suc (2 * (?t div cap ?q)))" using D(9) [of th] pc by simp
  then have msg: "message_ok (cap ?q) ?i (pos + 1, seen w th)"
    using not_same_slot_Suc [OF b(2), of ?t] by (intro message_okI) (simp_all add: suc)
  have w': "w' = w\<lparr>core := run_thread False th (core w),
      seq_msgs := (seq_msgs w)[?i := seq_msgs w ! ?i @ [(pos + 1, seen w th)]]\<rparr>"
    using step pc by (simp add: store_sequence_def Let_def idx)
  have core: "run_thread False th (core w) = \<lparr>shared = update_slot (\<lambda>s. s\<lparr>slot_sequence := pos + 1\<rparr>) pos ?q,
      threads = ?ts(th := Push_done True), pushed = pushed (core w), taken = taken (core w)\<rparr>"
    using pc by (simp add: run_thread_def)
  note msgs = store_messages [OF inv i _ msg, unfolded suc own(2)]
  show ?thesis
  proof (rule weak_invI [where C = "cap ?q"], goal_cases)
    case 1
    show ?case unfolding w' using inv_push_publish [OF D(1) n pc] by simp
  next
    case (7 j m)
    then show ?case using msgs [of j m] by (simp add: w' core view suc)
  next
    case (8 j m)
    then show ?case using msgs [of j m] by (simp add: w')
  next
    case 9
    show ?case using log_publish [OF I(3) D(8) t] pc by (simp add: w' core held_step [OF D(1)] view suc)
  next
    case (10 k)
    then show ?case using D(9) [of k] by (simp add: w' core)
  qed (use D in \<open>simp_all add: w' core view\<close>)
qed

lemma weak_store_pop:
  assumes inv: "weak_inv n w" and n: "n < 2 ^ 62" and step: "store_sequence th w = Some w'"
    and pc: "threads (core w) th = Pop_release pos r"
  shows "weak_inv (Suc n) w'"
proof -
  note D = weak_invD [OF inv] and I = lf_invD [OF weak_invD(1) [OF inv]]
  note b = lf_bounds [OF D(1) less_imp_le [OF n] refl]
  let ?q = "shared (core w)" and ?ts = "threads (core w)"
  note idx = slot_index_mod [OF I(1)] and view = view_update_slot(3,4) [OF I(1)]
  let ?t = "unat pos" and ?i = "unat pos mod cap ?q"
  have i: "?i < cap ?q" using b(2) by simp
  have t: "?t \<in> held emptied_ticket ?ts" using pc by (intro heldI [of _ _ th]) simp
  then have "?t \<in> held read_ticket ?ts" using ringD(6) [OF I(3)] by blast
  then have own: "?t < deq_t ?q" "seqn ?q ?i = Suc ?t" using ringD(9) [OF I(3)] by auto
  have sum: "unat (pos + capacity ?q) = ?t + cap ?q"
    using own(1) b(1,3,4) by (intro word_add_cap) simp_all
  have "knows (seen w th) ?i (Suc (Suc (2 * (?t div cap ?q))))" using D(9) [of th] pc by simp
  moreover have "(?t + cap ?q) div cap ?q = Suc (?t div cap ?q)" using b(2) by (simp add: div_add_self2)
  moreover have "u mod cap ?q \<noteq> ?i" if "?t + cap ?q = Suc u" for u
  proof
    assume "u mod cap ?q = ?i"
    then have "Suc u mod cap ?q = u mod cap ?q" using that by (metis mod_add_self2)
    then show False using not_same_slot_Suc [OF b(2), of u] by simp
  qed
  ultimately have msg: "message_ok (cap ?q) ?i (pos + capacity ?q, seen w th)"
    unfolding sum [symmetric] by (intro message_okI) (simp, blast)
  have w': "w' = w\<lparr>core := run_thread False th (core w),
      seq_msgs := (seq_msgs w)[?i := seq_msgs w ! ?i @ [(pos + capacity ?q, seen w th)]]\<rparr>"
    using step pc by (simp add: store_sequence_def Let_def idx)
  have core: "run_thread False th (core w) = \<lparr>shared = update_slot (\<lambda>s. s\<lparr>slot_sequence := pos + capacity ?q\<rparr>) pos ?q,
      threads = ?ts(th := Pop_done (Some r)), pushed = pushed (core w), taken = taken (core w)\<rparr>"
    using pc by (simp add: run_thread_def)
  have le: "seqn ?q ?i \<le> unat (pos + capacity ?q)" using own(2) sum b(2) by simp
  note msgs = store_messages [OF inv i le msg]
  show ?thesis
  proof (rule weak_invI [where C = "cap ?q"], goal_cases)
    case 1
    show ?case unfolding w' using inv_pop_release [OF D(1) n pc] by simp
  next
    case (7 j m)
    then show ?case using msgs [of j m] by (simp add: w' core view)
  next
    case (8 j m)
    then show ?case using msgs [of j m] by (simp add: w')
  next
    case 9
    show ?case
      using log_release [OF I(3) D(8) t] pc by (simp add: w' core held_step [OF D(1)] view sum)
  next
    case (10 k)
    then show ?case using D(9) [of k] by (simp add: w' core)
  qed (use D in \<open>simp_all add: w' core view\<close>)
qed

lemma weak_store:
  assumes inv: "weak_inv n w" and n: "n < 2 ^ 62" and step: "store_sequence th w = Some w'"
  shows "weak_inv (Suc n) w'"
  using weak_store_push [OF assms] weak_store_pop [OF assms] step
  by (cases "threads (core w) th") (auto simp: store_sequence_def Let_def)

lemma weak_inv_step:
  assumes inv: "weak_inv n w" and step: "weak_step w w'" and n: "n < 2 ^ 62"
  shows "weak_inv (Suc n) w'"
  using step
proof (cases rule: weak_step.cases)
  case (return th)
  then show ?thesis
    by (cases "threads (core w) th") (auto intro!: weak_relocate_plain [OF inv])
qed (use n in \<open>auto intro: weak_load_position [OF inv] weak_load_sequence [OF inv] weak_claim [OF inv]
    weak_access [OF inv] weak_store [OF inv] intro!: weak_relocate_plain [OF inv]\<close>)

lemma weak_inv_init:
  assumes "weak_init w"
  shows "weak_inv 0 w"
  using assms
proof cases
  case (1 m)
  let ?q = "LockFreeQueue m :: 'a lfq"
  have inv: "lf_inv 0 (lf_start m :: 'a sys)" by (rule lf_inv_init [OF lf_init [OF 1(2)]])
  note I = lf_invD [OF inv]
  have q: "shared (lf_start m) = ?q" "threads (lf_start m :: 'a sys) = (\<lambda>_. Idle)"
    by (simp_all add: lf_start_def)
  have geo: "geometry_ok ?q" using I(1) q by simp
  have C: "2 \<le> cap ?q" using ringD(1) [OF I(3)] q by simp
  have sq: "seqn ?q i = i" if "i < cap ?q" for i
    using that geometry_cap(1) [OF geo] by (simp add: seqn_def LockFreeQueue_def Let_def unat_of_nat)
  have none: "held written_ticket (\<lambda>_. Idle :: 'a pc) = {}" "held emptied_ticket (\<lambda>_. Idle :: 'a pc) = {}"
    by (simp_all add: held_def)
  have log: "log_ok (cap ?q) (seqn ?q) {} {} (\<lambda>_. 0)"
  proof (rule log_okI, goal_cases)
    case (1 t)
    have "t mod cap ?q < cap ?q" using C by simp
    then have "t < cap ?q" using 1 sq [of "t mod cap ?q"] by simp
    then show ?case by simp
  next
    case (2 t)
    have "t mod cap ?q < cap ?q" using C by simp
    then have "t mod cap ?q = Suc t" using 2 sq [of "t mod cap ?q"] by simp
    then show ?case using mod_less_eq_dividend [of t "cap ?q"] by simp
  qed
  have msgs: "seq_msgs w ! i = [(slot_sequence (buffer ?q ! i), {})]" if "i < cap ?q" for i
    using that geometry_length [OF geo] by (simp add: 1(1) weak_start_def Let_def)
  have msg: "message_ok (cap ?q) i (slot_sequence (buffer ?q ! i), {})" if i: "i < cap ?q" for i
  proof (rule message_okI)
    have x: "unat (slot_sequence (buffer ?q ! i)) = i" using sq [OF i] by (simp add: seqn_def)
    show "knows {} i (2 * (unat (slot_sequence (buffer ?q ! i)) div cap ?q))"
      using i by (simp add: x knows_def)
    fix t assume "unat (slot_sequence (buffer ?q ! i)) = Suc t" "t mod cap ?q = i"
    then have "t mod cap ?q = Suc t" using x by simp
    then show "knows {} i (Suc (2 * (t div cap ?q)))" using mod_less_eq_dividend [of t "cap ?q"] by simp
  qed
  have core: "core w = lf_start m" "seen w = (\<lambda>_. {})" "accesses w = (\<lambda>_. 0)" "\<not> raced w"
    "enq_msgs w = [enqueue_pos ?q]" "deq_msgs w = [dequeue_pos ?q]" "length (seq_msgs w) = length (buffer ?q)"
    by (simp_all add: 1(1) weak_start_def Let_def)
  show ?thesis
  proof (rule weak_invI [where C = "cap ?q"], goal_cases)
    case (7 i m)
    then show ?case using msgs [of i] by (simp add: core q seqn_def)
  next
    case (8 i m)
    then show ?case using msgs [of i] msg [of i] by simp
  qed (use inv log none geometry_length [OF geo] in \<open>simp_all add: core q\<close>)
qed

interpretation weak: bounded_invariant weak_init weak_step "2 ^ 62" weak_inv
  by unfold_locales (auto intro: weak_inv_init weak_inv_step)

section \<open>Properties\<close>

text \<open>The steps as labelled actions, with the values the loads return.\<close>

datatype 'a weak_action =
  Weak_call_push nat 'a | Weak_call_pop nat | Weak_position nat size_t | Weak_sequence nat nat
  | Weak_claim nat | Weak_access nat | Weak_store nat | Weak_return nat

fun weak_act :: "'a weak_action \<Rightarrow> 'a wsys \<Rightarrow> 'a wsys option" where
  "weak_act (Weak_call_push th v) w =
     (case threads (core w) th of Idle \<Rightarrow> Some (relocate th (Push_load v) w) | _ \<Rightarrow> None)"
| "weak_act (Weak_call_pop th) w =
     (case threads (core w) th of Idle \<Rightarrow> Some (relocate th Pop_load w) | _ \<Rightarrow> None)"
| "weak_act (Weak_position th x) w = load_position x x th w"
| "weak_act (Weak_sequence th k) w = load_sequence k th w"
| "weak_act (Weak_claim th) w = claim_position th w"
| "weak_act (Weak_access th) w = access_element th w"
| "weak_act (Weak_store th) w = store_sequence th w"
| "weak_act (Weak_return th) w =
     (if finished (threads (core w) th) then Some (relocate th Idle w) else None)"

lemma weak_act_step: "weak_act a w = Some w' \<Longrightarrow> weak_step w w'"
  by (cases a) (auto intro: weak_step.intros split: pc.splits if_splits)

lemma weak_reach:
  "unat m \<le> 2 ^ 62 \<Longrightarrow> run_schedule weak_act ls (weak_start m) = Some w \<Longrightarrow>
     reach weak_init weak_step (length ls) w"
  by (erule run_schedule_reach [rotated 2]) (auto intro: weak_init.intros weak_act_step)

text \<open>
  C6: The memory orders of the lock-free queue suffice. With relaxed positions, and sequences that
  are stored with release and loaded with acquire, every load returning any value its location
  ever held: no access to an element races with another, no thread indexes out of range or
  overflows a difference, at most one thread owns a slot, and the pops read out distinct tickets
  and for each exactly the element the push of that ticket wrote.
\<close>

theorem lf_weak_memory_safe:
  assumes "reach weak_init weak_step n w" and "n \<le> 2 ^ 62" and "s = core w"
  shows "\<not> raced w \<and> (\<forall>th. threads s th \<noteq> Undefined)
    \<and> (\<forall>a b i. slot_held (shared s) (threads s a) = Some i \<longrightarrow>
         slot_held (shared s) (threads s b) = Some i \<longrightarrow> a = b)
    \<and> distinct (map fst (taken s))
    \<and> (\<forall>t x. (t, x) \<in> set (taken s) \<longrightarrow> t < length (pushed s) \<and> x = Some (pushed s ! t))
    \<and> deq_t (shared s) \<le> length (pushed s) \<and> length (pushed s) \<le> deq_t (shared s) + cap (shared s)"
proof -
  have inv: "lf_inv n s" and "\<not> raced w"
    using weak_invD(1,2) [OF weak.reach_inv [OF assms(1,2)]] assms(3) by simp_all
  note i = lf_invD [OF inv]
  have "threads s th \<noteq> Undefined" for th using i(6) [of th] by auto
  moreover have "t < length (pushed s) \<and> x = Some (pushed s ! t)" if "(t, x) \<in> set (taken s)" for t x
    using taken_okD(3,4) [OF i(7) that] by simp
  ultimately show ?thesis
    using \<open>\<not> raced w\<close> slot_held_exclusive [OF inv] i(7) ringD(2-4) [OF i(3)]
    by (auto simp: taken_ok_def)
qed

text \<open>
  Thread 1 pushes; thread 2 loads the sequence as it was before and finds the queue empty; then it
  loads the new one and reads the element.
\<close>

definition stale_run :: "nat weak_action list" where
  "stale_run = [Weak_call_push 1 7, Weak_position 1 0, Weak_sequence 1 0, Weak_claim 1, Weak_access 1,
     Weak_store 1, Weak_return 1, Weak_call_pop 2, Weak_position 2 0, Weak_sequence 2 0, Weak_return 2,
     Weak_call_pop 2, Weak_position 2 0, Weak_sequence 2 1, Weak_claim 2, Weak_access 2]"

lemma stale_run_result:
  "case run_schedule weak_act stale_run (weak_start 2) of None \<Rightarrow> False
   | Some w \<Rightarrow> taken (core w) = [(0, Some 7)] \<and> seen w 2 = {(0, 0), (0, 1)} \<and> pushed (core w) = [7]"
  by code_simp

theorem lf_weak_memory_safe_witness:
  "\<exists>w n. reach weak_init weak_step n w \<and> n \<le> 2 ^ 62 \<and> \<not> raced w \<and> seen w 2 = {(0, 0), (0, 1)} \<and>
     (0, Some 7) \<in> set (taken (core w)) \<and> Some (7 :: nat) = Some (pushed (core w) ! 0)"
proof -
  obtain w where w: "run_schedule weak_act stale_run (weak_start 2) = Some w"
    and s: "taken (core w) = [(0, Some 7)]" "seen w 2 = {(0, 0), (0, 1)}"
    using case_Some_exists [OF stale_run_result] by blast
  have r: "reach weak_init weak_step (length stale_run) w" by (rule weak_reach [OF _ w]) simp
  have n: "length stale_run \<le> 2 ^ 62" by (simp add: stale_run_def)
  note safe = lf_weak_memory_safe [OF r n refl]
  have "\<not> raced w" using safe by blast
  moreover have "Some 7 = Some (pushed (core w) ! 0)" using safe s(1) by simp
  moreover have "(0, Some 7) \<in> set (taken (core w))" using s(1) by simp
  ultimately show ?thesis using r n s(2) by blast
qed

end
