(* ===== verification/Thread_Pool.thy ===== *)
theory Thread_Pool
  imports Task_Queue
begin

text \<open>
  \<open>include/ate/thread_pool.hpp\<close>, \<open>src/thread_pool.cpp\<close>: the pool of workers, as a step relation.
  One step is one critical section of the task queue, one notification, one stop request, or one
  whole task body. Workers sleep on the condition variable and are woken by \<open>notify_one\<close>,
  \<open>notify_all\<close>, their stop token, or spuriously. Packaged tasks and futures are numbered by the
  order in which submissions are accepted.
\<close>

section \<open>State\<close>

text \<open>
  The callable inside a packaged task: a user callable, which returns or throws when it is called;
  the wrapper \<open>AsyncResult::then\<close> builds, which waits for the future of an earlier task and
  then runs the continuation; or a callable that blocks until something outside the pool happens
  (the events are numbered), such as \<open>io_context::run()\<close>, which returns once it is stopped.
\<close>

datatype 'v job = Call "'v outcome" | Continue nat "'v \<Rightarrow> 'v outcome" | Until nat "'v outcome"

datatype worker =
  Loop_head | Wait_entry | Asleep | Run_main nat | Drain_head | Run_drain nat | Exited

text \<open>Where the owner of the pool stands inside \<open>shutdown()\<close>.\<close>

datatype stopper = Not_called | Notify_all_due | Stop_from nat | Shutdown_returned

record 'v pool =
  pool_queue :: "nat task_queue"
  jobs :: "'v job list"
  results :: "nat \<Rightarrow> 'v outcome option"
  workers :: "worker list"
  stop_requested :: "bool list"
  notify_due :: nat
  stopper :: stopper
  started :: "nat list"
  events :: "nat list"

text \<open>
  \<open>notify_due\<close> counts the pushes that have released the mutex but not yet notified. \<open>started\<close> is
  a history variable: the tasks in the order in which workers took them. \<open>events\<close> are the events of the outside world that have
  happened.
\<close>

section \<open>Construction and submission\<close>

definition thread_count_for :: "nat \<Rightarrow> nat \<Rightarrow> nat" where
  [pool_defs]: "thread_count_for num_threads hardware_concurrency =
     (if num_threads = 0 then max 1 hardware_concurrency else num_threads)"

definition ThreadPool :: "nat \<Rightarrow> nat \<Rightarrow> 'v pool" where
  [pool_defs]: "ThreadPool num_threads hardware_concurrency =
     (let n = thread_count_for num_threads hardware_concurrency in
      \<lparr>pool_queue = TaskQueue, jobs = [], results = (\<lambda>_. None),
       workers = replicate n Loop_head, stop_requested = replicate n False,
       notify_due = 0, stopper = Not_called, started = [], events = []\<rparr>)"

definition shut_down_message :: string where
  "shut_down_message =
     ''ThreadPool: cannot submit '' @ [CHR 0xE2, CHR 0x80, CHR 0x94] @ '' pool is shut down''"

text \<open>\<open>submit\<close>: the future is the number of the task; a refused push throws.\<close>

definition submit :: "'v job \<Rightarrow> 'v pool \<Rightarrow> (nat \<times> 'v pool) outcome" where
  [pool_defs]: "submit job p =
     (let (enqueued, q) = push (length (jobs p)) (pool_queue p) in
      if \<not> enqueued then Inl (Runtime_error shut_down_message)
      else Inr (length (jobs p),
        p\<lparr>pool_queue := q, jobs := jobs p @ [job], notify_due := notify_due p + 1\<rparr>))"

definition thread_count :: "'v pool \<Rightarrow> nat" where
  [pool_defs]: "thread_count p = length (workers p)"

definition pending_tasks :: "'v pool \<Rightarrow> nat" where
  [pool_defs]: "pending_tasks p = size_approx (pool_queue p)"

section \<open>Notification\<close>

definition wake :: "worker \<Rightarrow> worker" where
  "wake w = (if w = Asleep then Wait_entry else w)"

text \<open>
  The \<open>notify_one\<close> at the end of a push: it wakes one sleeping worker of the implementation's
  choice, if there is one.
\<close>

definition notify_one :: "nat \<Rightarrow> 'v pool \<Rightarrow> 'v pool option" where
  [pool_defs]: "notify_one i p =
     (if notify_due p = 0 then None
      else if i < length (workers p) \<and> workers p ! i = Asleep
        then Some (p\<lparr>workers := (workers p)[i := Wait_entry], notify_due := notify_due p - 1\<rparr>)
      else if Asleep \<in> set (workers p) then None
      else Some (p\<lparr>notify_due := notify_due p - 1\<rparr>))"

definition spurious_wakeup :: "nat \<Rightarrow> 'v pool \<Rightarrow> 'v pool option" where
  [pool_defs]: "spurious_wakeup i p =
     (if i < length (workers p) \<and> workers p ! i = Asleep
      then Some (p\<lparr>workers := (workers p)[i := Wait_entry]\<rparr>) else None)"

section \<open>The worker loop\<close>

text \<open>What a task body returns once it can run to its end; \<open>None\<close> while it waits on a future.\<close>

fun job_outcome ::
    "(nat \<Rightarrow> 'v outcome option) \<Rightarrow> nat list \<Rightarrow> 'v job \<Rightarrow> 'v outcome option" where
  "job_outcome res ev (Call r) = Some r"
| "job_outcome res ev (Continue f cont) = map_option (\<lambda>r. and_then r cont) (res f)"
| "job_outcome res ev (Until e r) = (if e \<in> set ev then Some r else None)"

text \<open>
  Executing the packaged task outside any lock: its outcome, value or exception, goes to its
  promise, and the worker goes on at \<open>next\<close>.
\<close>

definition run_job :: "nat \<Rightarrow> nat \<Rightarrow> worker \<Rightarrow> 'v pool \<Rightarrow> 'v pool option" where
  [pool_defs]: "run_job i t next p =
     map_option (\<lambda>r. p\<lparr>results := (results p)(t \<mapsto> r), workers := (workers p)[i := next]\<rparr>)
       (job_outcome (results p) (events p) (jobs p ! t))"

text \<open>A worker takes the task a pop has returned, or goes on at \<open>none\<close>.\<close>

definition take_task ::
    "nat \<Rightarrow> (nat \<Rightarrow> worker) \<Rightarrow> worker \<Rightarrow> nat option \<times> nat task_queue \<Rightarrow> 'v pool \<Rightarrow> 'v pool" where
  [pool_defs]: "take_task i some none popped p =
     (case popped of
        (None, q) \<Rightarrow> p\<lparr>pool_queue := q, workers := (workers p)[i := none]\<rparr>
      | (Some t, q) \<Rightarrow>
          p\<lparr>pool_queue := q, workers := (workers p)[i := some t], started := started p @ [t]\<rparr>)"

definition worker_step :: "nat \<Rightarrow> 'v pool \<Rightarrow> 'v pool option" where
  [pool_defs]: "worker_step i p =
     (if length (workers p) \<le> i then None
      else case workers p ! i of
        Loop_head \<Rightarrow>
          Some (p\<lparr>workers := (workers p)
            [i := if stop_requested p ! i then Drain_head else Wait_entry]\<rparr>)
      | Wait_entry \<Rightarrow>
          (case wait_and_pop (stop_requested p ! i) (pool_queue p) of
             Blocked \<Rightarrow> Some (p\<lparr>workers := (workers p)[i := Asleep]\<rparr>)
           | Returned popped \<Rightarrow> Some (take_task i Run_main Loop_head popped p))
      | Asleep \<Rightarrow> None
      | Run_main t \<Rightarrow> run_job i t Loop_head p
      | Drain_head \<Rightarrow> Some (take_task i Run_drain Exited (try_pop (pool_queue p)) p)
      | Run_drain t \<Rightarrow> run_job i t Drain_head p
      | Exited \<Rightarrow> None)"

section \<open>Shutdown\<close>

text \<open>
  \<open>shutdown()\<close>: close the queue, notify all waiters, then request a stop on each worker in turn.
  A stop request wakes the worker if it sleeps. The destructor calls \<open>shutdown()\<close> again and
  joins the workers.
\<close>

definition shutdown_begin :: "'v pool \<Rightarrow> 'v pool option" where
  [pool_defs]: "shutdown_begin p =
     (if stopper p = Not_called \<or> stopper p = Shutdown_returned
      then Some (p\<lparr>pool_queue := shutdown (pool_queue p), stopper := Notify_all_due\<rparr>) else None)"

definition shutdown_continue :: "'v pool \<Rightarrow> 'v pool option" where
  [pool_defs]: "shutdown_continue p =
     (case stopper p of
        Notify_all_due \<Rightarrow> Some (p\<lparr>workers := map wake (workers p), stopper := Stop_from 0\<rparr>)
      | Stop_from i \<Rightarrow>
          (if i < length (workers p)
           then Some (p\<lparr>stop_requested := (stop_requested p)[i := True],
             workers := (workers p)[i := wake (workers p ! i)], stopper := Stop_from (Suc i)\<rparr>)
           else Some (p\<lparr>stopper := Shutdown_returned\<rparr>))
      | _ \<Rightarrow> None)"

text \<open>The joins of the destructor return when every worker has left its loop.\<close>

definition joined :: "'v pool \<Rightarrow> bool" where
  [pool_defs]: "joined p \<longleftrightarrow> list_all (\<lambda>w. w = Exited) (workers p)"

section \<open>The step relation\<close>

text \<open>A continuation can only be attached to a future that exists.\<close>

fun job_ok :: "nat \<Rightarrow> 'v job \<Rightarrow> bool" where
  "job_ok n (Call r) = True"
| "job_ok n (Continue f cont) = (f < n)"
| "job_ok n (Until e r) = True"

text \<open>An event of the outside world.\<close>

definition signal :: "nat \<Rightarrow> 'v pool \<Rightarrow> 'v pool" where
  "signal e p = p\<lparr>events := e # events p\<rparr>"

inductive pool_step :: "'v pool \<Rightarrow> 'v pool \<Rightarrow> bool" where
  submit: "job_ok (length (jobs p)) job \<Longrightarrow> submit job p = Inr (f, p') \<Longrightarrow> pool_step p p'"
| notify: "notify_one i p = Some p' \<Longrightarrow> pool_step p p'"
| spurious: "spurious_wakeup i p = Some p' \<Longrightarrow> pool_step p p'"
| work: "worker_step i p = Some p' \<Longrightarrow> pool_step p p'"
| shutdown_begin: "shutdown_begin p = Some p' \<Longrightarrow> pool_step p p'"
| shutdown_continue: "shutdown_continue p = Some p' \<Longrightarrow> pool_step p p'"
| signal: "pool_step p (signal e p)"

inductive pool_init :: "'v pool \<Rightarrow> bool" where
  "pool_init (ThreadPool n hw)"

datatype 'v pool_action =
  Do_submit "'v job" | Do_notify nat | Do_spurious nat | Do_work nat | Do_shutdown | Do_continue
  | Do_signal nat

fun pool_act :: "'v pool_action \<Rightarrow> 'v pool \<Rightarrow> 'v pool option" where
  "pool_act (Do_submit job) p =
     (if job_ok (length (jobs p)) job
      then (case submit job p of Inl e \<Rightarrow> None | Inr (f, p') \<Rightarrow> Some p') else None)"
| "pool_act (Do_notify i) p = notify_one i p"
| "pool_act (Do_spurious i) p = spurious_wakeup i p"
| "pool_act (Do_work i) p = worker_step i p"
| "pool_act Do_shutdown p = shutdown_begin p"
| "pool_act Do_continue p = shutdown_continue p"
| "pool_act (Do_signal e) p = Some (signal e p)"

lemma pool_act_step: "pool_act a p = Some p' \<Longrightarrow> pool_step p p'"
  by (cases a) (auto intro: pool_step.intros split: if_splits sum.splits)

lemma pool_schedule_reach:
  "run_schedule pool_act ls (ThreadPool n hw) = Some p
     \<Longrightarrow> reach pool_init pool_step (length ls) p"
  by (rule run_schedule_reach [where act = pool_act])
    (auto intro: pool_act_step pool_init.intros)

end
