(* ===== verification/Pool_Invariant.thy ===== *)
theory Pool_Invariant
  imports Thread_Pool
begin

text \<open>
  The invariants of the thread pool's step relation. \<open>pool_books\<close> is the bookkeeping of
  tasks: which are queued, executing or done, and with what result. \<open>pool_sync\<close> is the
  synchronisation: who may sleep while there is work, and how far a shutdown has come. Both are
  interpretations of \<open>state_invariant\<close>.
\<close>

section \<open>Helper lemmas\<close>

definition executing :: "worker \<Rightarrow> nat \<Rightarrow> bool" where
  "executing w t \<longleftrightarrow> w = Run_main t \<or> w = Run_drain t"

lemma executing_simps [simp]:
  "\<not> executing Loop_head t" "\<not> executing Wait_entry t" "\<not> executing Asleep t"
  "\<not> executing Drain_head t" "\<not> executing Exited t"
  "executing (Run_main s) t \<longleftrightarrow> s = t" "executing (Run_drain s) t \<longleftrightarrow> s = t"
  by (auto simp: executing_def)

lemma executing_wake [simp]: "executing (wake w) t \<longleftrightarrow> executing w t"
  by (simp add: wake_def)

lemma wake_not_Asleep [simp]: "wake w \<noteq> Asleep" "Asleep \<noteq> wake w"
  by (auto simp: wake_def)

lemma wake_eq [simp]:
  "wake w = Loop_head \<longleftrightarrow> w = Loop_head" "wake w = Run_main t \<longleftrightarrow> w = Run_main t"
  "wake w = Drain_head \<longleftrightarrow> w = Drain_head" "wake w = Run_drain t \<longleftrightarrow> w = Run_drain t"
  "wake w = Exited \<longleftrightarrow> w = Exited"
  by (auto simp: wake_def)

lemma executing_update:
  assumes "i < length ws"
  shows "(\<exists>j < length ws. executing (ws[i := w] ! j) s) \<longleftrightarrow>
     executing w s \<or> (\<exists>j < length ws. j \<noteq> i \<and> executing (ws ! j) s)"
  using assms by (metis nth_list_update_eq nth_list_update_neq)

lemma executing_update_idle:
  assumes "i < length ws" "\<And>t. \<not> executing (ws ! i) t" "\<And>t. \<not> executing w t"
  shows "executing (ws[i := w] ! j) t \<longleftrightarrow> executing (ws ! j) t"
  using assms by (cases "j = i") auto

section \<open>The books\<close>

definition pool_books :: "'v pool \<Rightarrow> bool" where
  "pool_books p \<longleftrightarrow>
     length (stop_requested p) = length (workers p) \<and>
     [0..<length (jobs p)] = started p @ tasks (pool_queue p) \<and>
     (\<forall>t < length (jobs p). job_ok t (jobs p ! t)) \<and>
     (\<forall>i j t. i < length (workers p) \<longrightarrow> j < length (workers p) \<longrightarrow>
        executing (workers p ! i) t \<longrightarrow> executing (workers p ! j) t \<longrightarrow> i = j) \<and>
     (\<forall>t. results p t = None \<longleftrightarrow>
        t \<notin> set (started p) \<or> (\<exists>i < length (workers p). executing (workers p ! i) t)) \<and>
     (\<forall>i t. i < length (workers p) \<longrightarrow> executing (workers p ! i) t \<longrightarrow> t \<in> set (started p)) \<and>
     (\<forall>t r. results p t = Some r \<longrightarrow> job_outcome (results p) (events p) (jobs p ! t) = Some r)"

lemma pool_booksI:
  assumes "length (stop_requested p) = length (workers p)"
    and "[0..<length (jobs p)] = started p @ tasks (pool_queue p)"
    and "\<And>t. t < length (jobs p) \<Longrightarrow> job_ok t (jobs p ! t)"
    and "\<And>i j t. i < length (workers p) \<Longrightarrow> j < length (workers p) \<Longrightarrow>
        executing (workers p ! i) t \<Longrightarrow> executing (workers p ! j) t \<Longrightarrow> i = j"
    and "\<And>t. results p t = None \<longleftrightarrow>
        t \<notin> set (started p) \<or> (\<exists>i < length (workers p). executing (workers p ! i) t)"
    and "\<And>i t. i < length (workers p) \<Longrightarrow> executing (workers p ! i) t \<Longrightarrow> t \<in> set (started p)"
    and "\<And>t r. results p t = Some r \<Longrightarrow> job_outcome (results p) (events p) (jobs p ! t) = Some r"
  shows "pool_books p"
  using assms unfolding pool_books_def by blast

lemma pool_booksD:
  assumes "pool_books p"
  shows "length (stop_requested p) = length (workers p)"
    and "[0..<length (jobs p)] = started p @ tasks (pool_queue p)"
    and "\<And>t. t < length (jobs p) \<Longrightarrow> job_ok t (jobs p ! t)"
    and "\<And>i j t. i < length (workers p) \<Longrightarrow> j < length (workers p) \<Longrightarrow>
        executing (workers p ! i) t \<Longrightarrow> executing (workers p ! j) t \<Longrightarrow> i = j"
    and "\<And>t. results p t = None \<longleftrightarrow>
        t \<notin> set (started p) \<or> (\<exists>i < length (workers p). executing (workers p ! i) t)"
    and "\<And>i t. i < length (workers p) \<Longrightarrow> executing (workers p ! i) t \<Longrightarrow> t \<in> set (started p)"
    and "\<And>t r. results p t = Some r \<Longrightarrow> job_outcome (results p) (events p) (jobs p ! t) = Some r"
  using assms unfolding pool_books_def by blast+

lemma pool_books_started_upt:
  assumes "pool_books p"
  shows "started p = [0..<length (started p)]" "length (started p) \<le> length (jobs p)"
    "distinct (started p)" "set (started p) = {0..<length (started p)}"
proof -
  have "take (length (started p)) [0..<length (jobs p)] = started p"
    using pool_booksD(2) [OF assms] by simp
  moreover have len: "length (started p) \<le> length (jobs p)"
    using arg_cong [OF pool_booksD(2) [OF assms], of length] by simp
  ultimately show *: "started p = [0..<length (started p)]" "length (started p) \<le> length (jobs p)"
    by simp_all
  show "distinct (started p)" "set (started p) = {0..<length (started p)}"
    using *(1) by (metis distinct_upt, metis set_upt)
qed

text \<open>A step that changes no task: only control points in which nothing runs are exchanged.\<close>

lemma pool_books_idle:
  assumes "pool_books p"
    and "length (workers p') = length (workers p)"
    and "length (stop_requested p') = length (stop_requested p)"
    and "\<And>i t. i < length (workers p) \<Longrightarrow> executing (workers p' ! i) t \<longleftrightarrow> executing (workers p ! i) t"
    and "jobs p' = jobs p" "results p' = results p" "started p' = started p"
    and "tasks (pool_queue p') = tasks (pool_queue p)" "events p' = events p"
  shows "pool_books p'"
  using assms unfolding pool_books_def by (simp cong: conj_cong)

text \<open>A worker takes the head of the queue.\<close>

lemma pool_books_take:
  assumes books: "pool_books p" and i: "i < length (workers p)"
    and idle: "\<And>t. \<not> executing (workers p ! i) t"
    and q: "tasks (pool_queue p) = t # rest" and run: "\<And>s. executing w s \<longleftrightarrow> s = t"
    and q': "tasks q' = rest"
  shows "pool_books (p\<lparr>pool_queue := q', workers := (workers p)[i := w], started := started p @ [t]\<rparr>)"
proof -
  note inv = pool_booksD [OF books]
  have fresh: "t \<notin> set (started p)"
    using inv(2) q distinct_upt [of 0 "length (jobs p)"] by auto
  have none: "j < length (workers p) \<Longrightarrow> \<not> executing (workers p ! j) t" for j
    using fresh inv(6) by blast
  show ?thesis
  proof (rule pool_booksI, goal_cases)
    case 1
    then show ?case using inv(1) by simp
  next
    case 2
    then show ?case using inv(2) q q' by simp
  next
    case (3 t)
    then show ?case using inv(3) by simp
  next
    case (4 a b s)
    then show ?case
      using inv(4) [of a b s] none run
      by (cases "a = i"; cases "b = i") (auto simp: nth_list_update)
  next
    case (5 s)
    have "(\<exists>j < length (workers p). executing ((workers p)[i := w] ! j) s) \<longleftrightarrow>
        s = t \<or> (\<exists>j < length (workers p). executing (workers p ! j) s)"
      using idle none run unfolding executing_update [OF i] by blast
    then show ?case using inv(5) [of s] fresh by auto
  next
    case (6 a s)
    then show ?case using inv(6) [of a s] i by (cases "a = i") (simp_all add: run)
  next
    case (7 s r)
    then show ?case using inv(7) by simp
  qed
qed

lemma job_outcome_mono:
  "job_outcome res ev job = Some r \<Longrightarrow> res t = None \<Longrightarrow>
     job_outcome (res(t \<mapsto> r')) ev job = Some r"
  by (cases job) auto

lemma job_outcome_event: "job_outcome res ev job = Some r \<Longrightarrow> job_outcome res (e # ev) job = Some r"
  by (cases job) (auto split: if_splits)

text \<open>A worker finishes its task.\<close>

lemma pool_books_finish:
  assumes books: "pool_books p" and i: "i < length (workers p)"
    and run: "\<And>s. executing (workers p ! i) s \<longleftrightarrow> s = t" and idle: "\<And>s. \<not> executing w s"
    and r: "job_outcome (results p) (events p) (jobs p ! t) = Some r"
  shows "pool_books (p\<lparr>results := (results p)(t \<mapsto> r), workers := (workers p)[i := w]\<rparr>)"
proof -
  note inv = pool_booksD [OF books]
  have none: "results p t = None" and st: "t \<in> set (started p)"
    using inv(5,6) i run by blast+
  have only: "j < length (workers p) \<Longrightarrow> executing (workers p ! j) t \<Longrightarrow> j = i" for j
    using inv(4) i run by blast
  show ?thesis
  proof (rule pool_booksI, goal_cases)
    case 1
    then show ?case using inv(1) by simp
  next
    case 2
    then show ?case using inv(2) by simp
  next
    case (3 t)
    then show ?case using inv(3) by simp
  next
    case (4 a b s)
    then show ?case
      using inv(4) [of a b s] idle
      by (cases "a = i"; cases "b = i") (auto simp: nth_list_update)
  next
    case (5 s)
    have "(\<exists>j < length (workers p). executing ((workers p)[i := w] ! j) s) \<longleftrightarrow>
        s \<noteq> t \<and> (\<exists>j < length (workers p). executing (workers p ! j) s)"
      using idle only run unfolding executing_update [OF i] by blast
    then show ?case using inv(5) [of s] st by auto
  next
    case (6 a s)
    then show ?case using inv(6) [of a s] idle by (cases "a = i") auto
  next
    case (7 s r')
    have "job_outcome (results p) (events p) (jobs p ! s) = Some r'"
      using 7 inv(7) [of s r'] r by (cases "s = t") auto
    then show ?case using none by (simp add: job_outcome_mono)
  qed
qed

text \<open>An event of the outside world only enables tasks.\<close>

lemma pool_books_signal: "pool_books p \<Longrightarrow> pool_books (signal e p)"
  unfolding pool_books_def signal_def by (simp add: job_outcome_event)

text \<open>An accepted submission.\<close>

lemma pool_books_submit:
  assumes books: "pool_books p" and ok: "job_ok (length (jobs p)) job"
    and q': "tasks q' = tasks (pool_queue p) @ [length (jobs p)]"
  shows "pool_books (p\<lparr>pool_queue := q', jobs := jobs p @ [job], notify_due := d\<rparr>)"
proof -
  note inv = pool_booksD [OF books]
  have lt: "t < length (jobs p)" if "t \<in> set (started p)" for t
    using that pool_books_started_upt(2,4) [OF books] by auto
  show ?thesis
  proof (rule pool_booksI, goal_cases)
    case (3 t)
    then show ?case using inv(3) [of t] ok by (cases "t = length (jobs p)") (auto simp: nth_append)
  next
    case (7 t r)
    then have "results p t = Some r" by simp
    then have "t \<in> set (started p)" using inv(5) [of t] by auto
    then show ?case using 7 inv(7) [of t r] lt [of t] by (simp add: nth_append)
  qed (use inv q' in auto)
qed

lemma try_pop_Some:
  assumes "try_pop q = (Some t, q')"
  shows "tasks q = t # tasks q'" "shutdown_flag q' = shutdown_flag q"
  using assms by (auto simp: try_pop_def split: list.splits)

lemma try_pop_None: "try_pop q = (None, q') \<longleftrightarrow> tasks q = [] \<and> q' = q"
  by (auto simp: try_pop_def split: list.splits)

lemma submit_eq:
  "submit job p = Inr (f, p') \<longleftrightarrow>
     \<not> shutdown_flag (pool_queue p) \<and> f = length (jobs p) \<and>
     p' = p\<lparr>pool_queue := pool_queue p\<lparr>tasks := tasks (pool_queue p) @ [length (jobs p)]\<rparr>,
        jobs := jobs p @ [job], notify_due := notify_due p + 1\<rparr>"
  by (auto simp: submit_def push_def)

lemma pool_books_take_task:
  assumes "pool_books p" "i < length (workers p)" "\<And>t. \<not> executing (workers p ! i) t"
    and "\<And>t s. executing (some t) s \<longleftrightarrow> s = t" "\<And>s. \<not> executing none s"
  shows "pool_books (take_task i some none (try_pop (pool_queue p)) p)"
proof (cases "try_pop (pool_queue p)")
  case (Pair r q)
  show ?thesis
  proof (cases r)
    case None
    with Pair have q: "q = pool_queue p" by (simp add: try_pop_None)
    show ?thesis
      unfolding take_task_def Pair None prod.case option.case
      by (rule pool_books_idle [OF assms(1)])
        (simp_all add: q executing_update_idle assms(2,3,5))
  next
    case (Some t)
    with Pair have q: "tasks (pool_queue p) = t # tasks q" by (simp add: try_pop_Some)
    show ?thesis
      unfolding take_task_def Pair Some prod.case option.case
      by (rule pool_books_take [OF assms(1,2,3) q assms(4) refl])
  qed
qed

lemma pool_books_worker_step:
  assumes books: "pool_books p" and step: "worker_step i p = Some p'"
  shows "pool_books p'"
proof -
  have i: "i < length (workers p)"
    using step by (auto simp: worker_step_def split: if_splits)
  have idle: "pool_books (p\<lparr>workers := (workers p)[i := w]\<rparr>)"
    if "\<And>t. \<not> executing (workers p ! i) t" "\<And>t. \<not> executing w t" for w
    by (rule pool_books_idle [OF books]) (use that i in \<open>auto simp: nth_list_update\<close>)
  show ?thesis
  proof (cases "workers p ! i")
    case Loop_head
    then have "p' = p\<lparr>workers := (workers p)
        [i := if stop_requested p ! i then Drain_head else Wait_entry]\<rparr>"
      using step i by (simp add: worker_step_def)
    then show ?thesis using idle Loop_head by simp
  next
    case Wait_entry
    show ?thesis
    proof (cases "wait_and_pop (stop_requested p ! i) (pool_queue p)")
      case Blocked
      then have "p' = p\<lparr>workers := (workers p)[i := Asleep]\<rparr>"
        using step i Wait_entry by (simp add: worker_step_def)
      then show ?thesis using idle Wait_entry by simp
    next
      case (Returned x)
      then have "x = try_pop (pool_queue p)"
        by (auto simp: wait_and_pop_eq split: if_splits)
      then have "p' = take_task i Run_main Loop_head (try_pop (pool_queue p)) p"
        using step i Wait_entry Returned by (simp add: worker_step_def)
      then show ?thesis
        using pool_books_take_task [OF books i, of Run_main Loop_head] Wait_entry by auto
    qed
  next
    case Drain_head
    then have "p' = take_task i Run_drain Exited (try_pop (pool_queue p)) p"
      using step i by (simp add: worker_step_def)
    then show ?thesis
      using pool_books_take_task [OF books i, of Run_drain Exited] Drain_head by auto
  next
    case (Run_main t)
    then obtain r where "job_outcome (results p) (events p) (jobs p ! t) = Some r"
      and "p' = p\<lparr>results := (results p)(t \<mapsto> r), workers := (workers p)[i := Loop_head]\<rparr>"
      using step i by (auto simp: worker_step_def run_job_def)
    then show ?thesis
      using pool_books_finish [OF books i, of t Loop_head r] Run_main by auto
  next
    case (Run_drain t)
    then obtain r where "job_outcome (results p) (events p) (jobs p ! t) = Some r"
      and "p' = p\<lparr>results := (results p)(t \<mapsto> r), workers := (workers p)[i := Drain_head]\<rparr>"
      using step i by (auto simp: worker_step_def run_job_def)
    then show ?thesis
      using pool_books_finish [OF books i, of t Drain_head r] Run_drain by auto
  qed (use step i in \<open>auto simp: worker_step_def\<close>)
qed

lemma pool_books_step:
  assumes "pool_step p p'" and "pool_books p"
  shows "pool_books p'"
  using assms
proof (cases rule: pool_step.cases)
  case (submit job f)
  then show ?thesis using assms(2) by (auto simp: submit_eq intro!: pool_books_submit)
next
  case (notify i)
  then show ?thesis
    by (auto simp: notify_one_def nth_list_update split: if_splits intro!: pool_books_idle [OF assms(2)])
next
  case (spurious i)
  then show ?thesis
    by (auto simp: spurious_wakeup_def nth_list_update split: if_splits
        intro!: pool_books_idle [OF assms(2)])
next
  case (work i)
  then show ?thesis using pool_books_worker_step [OF assms(2)] by blast
next
  case shutdown_begin
  then show ?thesis
    by (auto simp: shutdown_begin_def tq_defs split: if_splits intro!: pool_books_idle [OF assms(2)])
next
  case shutdown_continue
  then show ?thesis
    by (auto simp: shutdown_continue_def nth_list_update split: if_splits stopper.splits
        intro!: pool_books_idle [OF assms(2)])
next
  case (signal e)
  then show ?thesis using pool_books_signal [OF assms(2)] by simp
qed

lemma pool_books_init: "pool_init p \<Longrightarrow> pool_books p"
  by (auto simp: pool_init.simps pool_defs tq_defs Let_def pool_books_def)

interpretation books: state_invariant pool_init pool_step pool_books
  by unfold_locales (auto intro: pool_books_init pool_books_step)

section \<open>Synchronisation\<close>

definition waiting :: "'v pool \<Rightarrow> nat" where
  "waiting p = count_list (workers p) Wait_entry"

definition stopped_to :: "'v pool \<Rightarrow> nat" where
  "stopped_to p = (case stopper p of Stop_from i \<Rightarrow> i | Shutdown_returned \<Rightarrow> length (workers p) | _ \<Rightarrow> 0)"

lemma stopped_to_due: "stopped_to (p\<lparr>notify_due := d\<rparr>) = stopped_to p"
  by (simp add: stopped_to_def split: stopper.splits)

lemma stopped_to_events: "stopped_to (p\<lparr>events := e\<rparr>) = stopped_to p"
  by (simp add: stopped_to_def split: stopper.splits)

definition pool_sync :: "'v pool \<Rightarrow> bool" where
  "pool_sync p \<longleftrightarrow>
     workers p \<noteq> [] \<and> length (stop_requested p) = length (workers p) \<and>
     (Asleep \<in> set (workers p) \<longrightarrow> length (tasks (pool_queue p)) \<le> notify_due p + waiting p) \<and>
     (shutdown_flag (pool_queue p) \<longleftrightarrow> stopper p \<noteq> Not_called) \<and>
     stopped_to p \<le> length (workers p) \<and>
     (\<forall>i < stopped_to p. stop_requested p ! i) \<and>
     (\<forall>i < length (workers p). stop_requested p ! i \<longrightarrow> shutdown_flag (pool_queue p)) \<and>
     (\<forall>i < length (workers p). workers p ! i = Asleep \<longrightarrow>
        \<not> stop_requested p ! i \<and> (stopper p = Not_called \<or> stopper p = Notify_all_due)) \<and>
     (\<forall>i < length (workers p).
        workers p ! i = Drain_head \<or> workers p ! i = Exited \<or> (\<exists>t. workers p ! i = Run_drain t)
        \<longrightarrow> stop_requested p ! i) \<and>
     (Exited \<in> set (workers p) \<longrightarrow> tasks (pool_queue p) = [])"

lemma pool_syncI:
  assumes "workers p \<noteq> [] \<and> length (stop_requested p) = length (workers p)"
    and "Asleep \<in> set (workers p) \<Longrightarrow> length (tasks (pool_queue p)) \<le> notify_due p + waiting p"
    and "shutdown_flag (pool_queue p) \<longleftrightarrow> stopper p \<noteq> Not_called"
    and "stopped_to p \<le> length (workers p)"
    and "\<And>i. i < stopped_to p \<Longrightarrow> stop_requested p ! i"
    and "\<And>i. i < length (workers p) \<Longrightarrow> stop_requested p ! i \<Longrightarrow> shutdown_flag (pool_queue p)"
    and "\<And>i. i < length (workers p) \<Longrightarrow> workers p ! i = Asleep \<Longrightarrow>
      \<not> stop_requested p ! i \<and> (stopper p = Not_called \<or> stopper p = Notify_all_due)"
    and "\<And>i. i < length (workers p) \<Longrightarrow>
      workers p ! i = Drain_head \<or> workers p ! i = Exited \<or> (\<exists>t. workers p ! i = Run_drain t)
      \<Longrightarrow> stop_requested p ! i"
    and "Exited \<in> set (workers p) \<Longrightarrow> tasks (pool_queue p) = []"
  shows "pool_sync p"
  using assms unfolding pool_sync_def by blast

lemma pool_syncD:
  assumes "pool_sync p"
  shows "workers p \<noteq> [] \<and> length (stop_requested p) = length (workers p)"
    and "Asleep \<in> set (workers p) \<Longrightarrow> length (tasks (pool_queue p)) \<le> notify_due p + waiting p"
    and "shutdown_flag (pool_queue p) \<longleftrightarrow> stopper p \<noteq> Not_called"
    and "stopped_to p \<le> length (workers p)"
    and "\<And>i. i < stopped_to p \<Longrightarrow> stop_requested p ! i"
    and "\<And>i. i < length (workers p) \<Longrightarrow> stop_requested p ! i \<Longrightarrow> shutdown_flag (pool_queue p)"
    and "\<And>i. i < length (workers p) \<Longrightarrow> workers p ! i = Asleep \<Longrightarrow>
      \<not> stop_requested p ! i \<and> (stopper p = Not_called \<or> stopper p = Notify_all_due)"
    and "\<And>i. i < length (workers p) \<Longrightarrow>
      workers p ! i = Drain_head \<or> workers p ! i = Exited \<or> (\<exists>t. workers p ! i = Run_drain t)
      \<Longrightarrow> stop_requested p ! i"
    and "Exited \<in> set (workers p) \<Longrightarrow> tasks (pool_queue p) = []"
  using assms unfolding pool_sync_def by blast+

text \<open>One worker moves, possibly with the head of the queue or with a pending notification.\<close>

lemma pool_sync_move:
  assumes sync: "pool_sync p" and i: "i < length (workers p)"
    and p': "workers p' = (workers p)[i := w]" "stop_requested p' = stop_requested p"
      "stopper p' = stopper p" "shutdown_flag (pool_queue p') = shutdown_flag (pool_queue p)"
    and sleep: "w = Asleep \<Longrightarrow>
      tasks (pool_queue p') = [] \<and> \<not> shutdown_flag (pool_queue p)"
    and stop: "w = Drain_head \<or> w = Exited \<or> (\<exists>t. w = Run_drain t) \<Longrightarrow> stop_requested p ! i"
    and exit: "w = Exited \<Longrightarrow> tasks (pool_queue p') = []"
    and empty: "tasks (pool_queue p) = [] \<Longrightarrow> tasks (pool_queue p') = []"
    and weight: "w \<noteq> Asleep \<Longrightarrow> tasks (pool_queue p') = [] \<or>
      length (tasks (pool_queue p')) + notify_due p + of_bool (workers p ! i = Wait_entry)
        \<le> length (tasks (pool_queue p)) + notify_due p' + of_bool (w = Wait_entry)"
  shows "pool_sync p'"
proof -
  note inv = pool_syncD [OF sync]
  have count: "waiting p' + of_bool (workers p ! i = Wait_entry) = waiting p + of_bool (w = Wait_entry)"
    unfolding waiting_def p' by (rule count_list_update [OF i])
  have in_set: "x \<in> set (workers p') \<Longrightarrow> x = w \<or> x \<in> set (workers p)" for x
    using set_update_subset_insert [of "workers p" i w] by (auto simp: p')
  have stopped: "stopped_to p' = stopped_to p"
    by (simp add: stopped_to_def p' split: stopper.splits)
  show ?thesis
  proof (rule pool_syncI, goal_cases)
    case 2
    show ?case
    proof (cases "w = Asleep")
      case True
      then show ?thesis using sleep by simp
    next
      case False
      then have "Asleep \<in> set (workers p)" using 2 in_set by blast
      then show ?thesis using inv(2) count weight [OF False] by auto
    qed
  next
    case (6 j)
    then show ?case using inv(6) [of j] by (simp add: p')
  next
    case (7 j)
    then show ?case
    proof (cases "j = i")
      case True
      then show ?thesis using 7 sleep inv(3) inv(6) [of i] i by (auto simp: p')
    next
      case False
      then show ?thesis using 7 inv(7) [of j] by (simp add: p')
    qed
  next
    case (8 j)
    then show ?case
      using stop inv(8) [of j] by (cases "j = i") (auto simp: p')
  next
    case 9
    then show ?case using in_set exit empty inv(9) by blast
  qed (use inv(1,3,4,5) in \<open>auto simp: p' stopped\<close>)
qed

lemma pool_sync_take_task:
  assumes sync: "pool_sync p" and i: "i < length (workers p)"
    and w: "\<And>t. some t \<noteq> Asleep \<and> some t \<noteq> Exited \<and> some t \<noteq> Wait_entry \<and> some t \<noteq> Drain_head"
      "\<And>t s. some t = Run_drain s \<Longrightarrow> stop_requested p ! i"
      "none \<noteq> Asleep" "none \<noteq> Wait_entry" "none \<noteq> Drain_head" "\<And>t. none \<noteq> Run_drain t"
      "none = Exited \<Longrightarrow> stop_requested p ! i"
  shows "pool_sync (take_task i some none (try_pop (pool_queue p)) p)"
proof (cases "try_pop (pool_queue p)")
  case (Pair r q)
  show ?thesis
  proof (cases r)
    case None
    with Pair have q: "q = pool_queue p" "tasks (pool_queue p) = []" by (simp_all add: try_pop_None)
    show ?thesis
      unfolding take_task_def Pair None prod.case option.case
      by (rule pool_sync_move [OF sync i, where w = none]) (simp_all add: w q)
  next
    case (Some t)
    with Pair have q: "tasks (pool_queue p) = t # tasks q" "shutdown_flag q = shutdown_flag (pool_queue p)"
      by (simp_all add: try_pop_Some)
    show ?thesis
      unfolding take_task_def Pair Some prod.case option.case
      by (rule pool_sync_move [OF sync i, where w = "some t"]) (use w(1,2) q in auto)
  qed
qed

lemma pool_sync_worker_step:
  assumes sync: "pool_sync p" and step: "worker_step i p = Some p'"
  shows "pool_sync p'"
proof -
  have i: "i < length (workers p)"
    using step by (auto simp: worker_step_def split: if_splits)
  have flag: "stop_requested p ! i \<Longrightarrow> shutdown_flag (pool_queue p)"
    using pool_syncD(6) [OF sync i] .
  have drain: "\<exists>t. workers p ! i = Run_drain t \<Longrightarrow> stop_requested p ! i"
    "workers p ! i = Drain_head \<Longrightarrow> stop_requested p ! i"
    using pool_syncD(8) [OF sync i] by auto
  note move = pool_sync_move [OF sync i]
  show ?thesis
  proof (cases "workers p ! i")
    case Loop_head
    then have p': "p' = p\<lparr>workers := (workers p)
        [i := if stop_requested p ! i then Drain_head else Wait_entry]\<rparr>"
      using step i by (simp add: worker_step_def)
    show ?thesis unfolding p' by (rule move) (use Loop_head in \<open>auto split: if_splits\<close>)
  next
    case Wait_entry
    show ?thesis
    proof (cases "wait_and_pop (stop_requested p ! i) (pool_queue p)")
      case Blocked
      then have p': "p' = p\<lparr>workers := (workers p)[i := Asleep]\<rparr>"
        using step i Wait_entry by (simp add: worker_step_def)
      show ?thesis
        unfolding p' by (rule move) (use Blocked in \<open>auto simp: wait_and_pop_blocks\<close>)
    next
      case (Returned x)
      then have "x = try_pop (pool_queue p)"
        by (auto simp: wait_and_pop_eq split: if_splits)
      then have "p' = take_task i Run_main Loop_head (try_pop (pool_queue p)) p"
        using step i Wait_entry Returned by (simp add: worker_step_def)
      then show ?thesis
        using pool_sync_take_task [OF sync i, of Run_main Loop_head] by auto
    qed
  next
    case Drain_head
    then have "p' = take_task i Run_drain Exited (try_pop (pool_queue p)) p"
      using step i by (simp add: worker_step_def)
    then show ?thesis
      using pool_sync_take_task [OF sync i, of Run_drain Exited] drain Drain_head by auto
  next
    case (Run_main t)
    then obtain r where
      p': "p' = p\<lparr>results := (results p)(t \<mapsto> r), workers := (workers p)[i := Loop_head]\<rparr>"
      using step i by (auto simp: worker_step_def run_job_def)
    show ?thesis unfolding p' by (rule move) (use Run_main in auto)
  next
    case (Run_drain t)
    then obtain r where
      p': "p' = p\<lparr>results := (results p)(t \<mapsto> r), workers := (workers p)[i := Drain_head]\<rparr>"
      using step i by (auto simp: worker_step_def run_job_def)
    show ?thesis unfolding p' by (rule move) (use Run_drain drain in auto)
  qed (use step i in \<open>auto simp: worker_step_def\<close>)
qed

lemma pool_sync_submit:
  assumes "pool_sync p" "submit job p = Inr (f, p')"
  shows "pool_sync p'"
proof -
  have "Exited \<notin> set (workers p)"
    using assms by (auto simp: submit_eq pool_sync_def in_set_conv_nth)
  then show ?thesis
    using assms by (auto simp: submit_eq pool_sync_def waiting_def stopped_to_def)
qed

lemma pool_sync_shutdown_begin:
  "pool_sync p \<Longrightarrow> shutdown_begin p = Some p' \<Longrightarrow> pool_sync p'"
  by (auto simp: pool_sync_def shutdown_begin_def shutdown_def waiting_def stopped_to_def
      split: if_splits)

lemma pool_sync_notify_all:
  assumes "pool_sync p" "stopper p = Notify_all_due"
  shows "pool_sync (p\<lparr>workers := map wake (workers p), stopper := Stop_from 0\<rparr>)"
proof -
  have exited: "Exited \<in> set (map wake (workers p)) \<longleftrightarrow> Exited \<in> set (workers p)"
    by (force simp: wake_def image_iff)
  have asleep: "Asleep \<notin> set (map wake (workers p))"
    by auto
  show ?thesis
    by (rule pool_syncI)
      (use pool_syncD [OF assms(1)] assms(2) exited asleep in \<open>simp_all add: stopped_to_def\<close>)
qed

lemma pool_sync_stop:
  assumes sync: "pool_sync p" "stopper p = Stop_from i" and i: "i < length (workers p)"
  shows "pool_sync (p\<lparr>stop_requested := (stop_requested p)[i := True],
     workers := (workers p)[i := wake (workers p ! i)], stopper := Stop_from (Suc i)\<rparr>)"
proof -
  have none: "Asleep \<notin> set (workers p)"
    using pool_syncD(7) [OF sync(1)] sync(2) by (auto simp: in_set_conv_nth)
  then have "workers p ! i \<noteq> Asleep"
    using i nth_mem by metis
  then have same: "(workers p)[i := wake (workers p ! i)] = workers p"
    by (simp add: wake_def)
  have flag: "shutdown_flag (pool_queue p)"
    using pool_syncD(3) [OF sync(1)] sync(2) by simp
  have asleep: "j < length (workers p) \<Longrightarrow> workers p ! j \<noteq> Asleep" for j
    using none nth_mem by metis
  show ?thesis
    unfolding same
    by (rule pool_syncI)
      (use pool_syncD [OF sync(1)] sync(2) i none asleep flag in
        \<open>auto simp: stopped_to_def waiting_def nth_list_update less_Suc_eq\<close>)
qed

lemma pool_sync_stops_done:
  assumes sync: "pool_sync p" "stopper p = Stop_from i" and i: "\<not> i < length (workers p)"
  shows "pool_sync (p\<lparr>stopper := Shutdown_returned\<rparr>)"
proof -
  have none: "j < length (workers p) \<Longrightarrow> workers p ! j \<noteq> Asleep" for j
    using pool_syncD(7) [OF sync(1)] sync(2) by auto
  have "i = length (workers p)"
    using pool_syncD(4) [OF sync(1)] sync(2) i by (simp add: stopped_to_def)
  then show ?thesis
    by (intro pool_syncI)
      (use pool_syncD [OF sync(1)] sync(2) none in
        \<open>auto simp: stopped_to_def waiting_def\<close>)
qed

lemma pool_sync_step:
  assumes "pool_step p p'" and "pool_sync p"
  shows "pool_sync p'"
  using assms
proof (cases rule: pool_step.cases)
  case (submit job f)
  then show ?thesis using pool_sync_submit [OF assms(2)] by blast
next
  case (notify i)
  show ?thesis
  proof (cases "i < length (workers p) \<and> workers p ! i = Asleep")
    case True
    then have p': "p' = p\<lparr>workers := (workers p)[i := Wait_entry], notify_due := notify_due p - 1\<rparr>"
      and "notify_due p \<noteq> 0"
      using notify by (auto simp: notify_one_def split: if_splits)
    then show ?thesis
      unfolding p' using True
      by (intro pool_sync_move [OF assms(2), of i, where w = Wait_entry]) auto
  next
    case False
    then have p': "p' = p\<lparr>notify_due := notify_due p - 1\<rparr>" and none: "Asleep \<notin> set (workers p)"
      using notify by (auto simp: notify_one_def split: if_splits)
    show ?thesis
      unfolding p'
      by (rule pool_syncI)
        (use pool_syncD [OF assms(2)] none in \<open>simp_all add: stopped_to_due\<close>)
  qed
next
  case (spurious i)
  then have p': "p' = p\<lparr>workers := (workers p)[i := Wait_entry]\<rparr>"
    and i: "i < length (workers p)"
    by (auto simp: spurious_wakeup_def split: if_splits)
  show ?thesis
    unfolding p' by (rule pool_sync_move [OF assms(2) i, where w = Wait_entry]) auto
next
  case (work i)
  then show ?thesis using pool_sync_worker_step [OF assms(2)] by blast
next
  case shutdown_begin
  then show ?thesis using pool_sync_shutdown_begin [OF assms(2)] by blast
next
  case shutdown_continue
  show ?thesis
  proof (cases "stopper p")
    case (Stop_from i)
    then show ?thesis
      using shutdown_continue pool_sync_stop [OF assms(2) Stop_from]
        pool_sync_stops_done [OF assms(2) Stop_from]
      by (auto simp: shutdown_continue_def split: if_splits)
  qed (use shutdown_continue pool_sync_notify_all [OF assms(2)] in
      \<open>auto simp: shutdown_continue_def\<close>)
next
  case (signal e)
  have "pool_sync (signal e p)"
    by (rule pool_syncI)
      (use pool_syncD [OF assms(2)] in \<open>simp_all add: signal_def stopped_to_events waiting_def\<close>)
  then show ?thesis using signal by simp
qed

lemma pool_sync_init: "pool_init p \<Longrightarrow> pool_sync p"
  by (auto simp: pool_init.simps pool_defs tq_defs Let_def pool_sync_def stopped_to_def
      split: if_splits)

interpretation sync: state_invariant pool_init pool_step pool_sync
  by unfold_locales (auto intro: pool_sync_init pool_sync_step)

lemmas pool_reach = books.reach_state sync.reach_state

end
