(* ===== verification/Pool_Correct.thy ===== *)
theory Pool_Correct
  imports Pool_Invariant
begin

text \<open>
  What the thread pool promises its callers, on every reachable state and every schedule: tasks
  start in submission order and run exactly once, futures hold a value that does not depend on the
  schedule, no wake-up is lost, the pool cannot deadlock, and a joined pool has lost no task.
\<close>

section \<open>The value of a future, independently of the schedule\<close>

fun denote_one :: "'v outcome list \<Rightarrow> 'v job \<Rightarrow> 'v outcome" where
  "denote_one rs (Call r) = r"
| "denote_one rs (Continue f cont) = and_then (rs ! f) cont"
| "denote_one rs (Until e r) = r"

primrec denote_from :: "'v job list \<Rightarrow> 'v outcome list \<Rightarrow> 'v outcome list" where
  "denote_from [] rs = rs"
| "denote_from (j # js) rs = denote_from js (rs @ [denote_one rs j])"

definition denote :: "'v job list \<Rightarrow> 'v outcome list" where
  "denote js = denote_from js []"

lemma denote_from_prefix: "\<exists>xs. denote_from js rs = rs @ xs \<and> length xs = length js"
proof (induction js arbitrary: rs)
  case (Cons j js)
  from Cons.IH [of "rs @ [denote_one rs j]"] show ?case by auto
qed simp

lemma denote_from_nth_old: "t < length rs \<Longrightarrow> denote_from js rs ! t = rs ! t"
  using denote_from_prefix [of js rs] by (auto simp: nth_append)

lemma length_denote [simp]: "length (denote js) = length js"
  using denote_from_prefix [of js "[]"] by (auto simp: denote_def)

lemma denote_one_extend:
  "job_ok (length rs) j \<Longrightarrow> denote_one (denote_from js (rs @ ys)) j = denote_one rs j"
  by (cases j) (simp_all add: denote_from_nth_old nth_append)

lemma denote_from_nth:
  assumes "t < length js" and "\<And>s. s < length js \<Longrightarrow> job_ok (length rs + s) (js ! s)"
  shows "denote_from js rs ! (length rs + t) = denote_one (denote_from js rs) (js ! t)"
  using assms
proof (induction js arbitrary: t rs)
  case (Cons j js)
  show ?case
  proof (cases t)
    case 0
    have "job_ok (length rs) j" using Cons.prems(2) [of 0] by simp
    then show ?thesis
      using 0 denote_from_nth_old [of "length rs" "rs @ [denote_one rs j]" js]
      by (simp add: denote_one_extend)
  next
    case (Suc s)
    have "job_ok (length (rs @ [denote_one rs j]) + u) (js ! u)" if "u < length js" for u
      using Cons.prems(2) [of "Suc u"] that by simp
    then show ?thesis
      using Cons.IH [of s "rs @ [denote_one rs j]"] Cons.prems(1) Suc by simp
  qed
qed simp

lemma denote_nth:
  assumes "t < length js" and "\<And>s. s < length js \<Longrightarrow> job_ok s (js ! s)"
  shows "denote js ! t = denote_one (denote js) (js ! t)"
  using denote_from_nth [of t js "[]"] assms by (simp add: denote_def)

lemma books_done_lt:
  assumes "pool_books p" "results p t = Some r"
  shows "t \<in> set (started p)" "t < length (jobs p)"
proof -
  show st: "t \<in> set (started p)"
    using pool_booksD(5) [OF assms(1), of t] assms(2) by auto
  show "t < length (jobs p)"
    using pool_books_started_upt(2,4) [OF assms(1)] st by auto
qed

lemma books_denote:
  assumes books: "pool_books p" and r: "results p t = Some r"
  shows "r = denote (jobs p) ! t"
  using r
proof (induction t arbitrary: r rule: less_induct)
  case (less t)
  note t = books_done_lt(2) [OF books less.prems]
  have out: "job_outcome (results p) (events p) (jobs p ! t) = Some r"
    using pool_booksD(7) [OF books less.prems] .
  have den: "denote (jobs p) ! t = denote_one (denote (jobs p)) (jobs p ! t)"
    by (rule denote_nth [OF t pool_booksD(3) [OF books]])
  show ?case
  proof (cases "jobs p ! t")
    case (Call x)
    then show ?thesis using out den by simp
  next
    case (Continue f cont)
    then obtain x where x: "results p f = Some x" "r = and_then x cont"
      using out by auto
    have "f < t" using pool_booksD(3) [OF books t] Continue by simp
    then show ?thesis using less.IH [OF _ x(1)] x(2) den Continue by simp
  next
    case (Until e x)
    then show ?thesis using out den by (simp split: if_splits)
  qed
qed

section \<open>Quiescence\<close>

text \<open>Every outside event that an accepted task waits for has happened.\<close>

definition events_done :: "'v pool \<Rightarrow> bool" where
  "events_done p \<longleftrightarrow>
     list_all (\<lambda>j. case j of Until e r \<Rightarrow> e \<in> set (events p) | _ \<Rightarrow> True) (jobs p)"

lemma books_stuck_idle:
  assumes books: "pool_books p" and ev: "events_done p" and stuck: "\<And>i. worker_step i p = None"
    and i: "i < length (workers p)"
  shows "\<not> executing (workers p ! i) t"
  using i
proof (induction t arbitrary: i rule: less_induct)
  case (less t)
  show ?case
  proof
    assume run: "executing (workers p ! i) t"
    have st: "t \<in> set (started p)" using pool_booksD(6) [OF books less.prems run] .
    note up = pool_books_started_upt [OF books]
    have t: "t < length (jobs p)" using st up(2,4) by auto
    have "job_outcome (results p) (events p) (jobs p ! t) = None"
      using stuck [of i] less.prems run
      by (auto simp: worker_step_def run_job_def executing_def split: option.splits)
    then obtain f cont where job: "jobs p ! t = Continue f cont" and f: "results p f = None"
      using ev t by (cases "jobs p ! t") (auto simp: events_done_def list_all_length split: job.splits)
    have "f < t" using pool_booksD(3) [OF books t] job by simp
    then have "f \<in> set (started p)" using st up(4) by auto
    then obtain j where "j < length (workers p)" "executing (workers p ! j) f"
      using f pool_booksD(5) [OF books, of f] by blast
    then show False using less.IH [OF \<open>f < t\<close>] by blast
  qed
qed

lemma stuck_workers:
  assumes "pool_books p" "events_done p" "\<And>i. worker_step i p = None" "w \<in> set (workers p)"
  shows "w = Asleep \<or> w = Exited"
proof -
  obtain i where i: "i < length (workers p)" "w = workers p ! i"
    using assms(4) by (auto simp: in_set_conv_nth)
  have "\<not> executing w t" for t
    using books_stuck_idle [OF assms(1-3) i(1)] i(2) by simp
  moreover have "w \<noteq> Loop_head \<and> w \<noteq> Wait_entry \<and> w \<noteq> Drain_head"
    using assms(3) [of i] i by (auto simp: worker_step_def split: waited.splits)
  ultimately show ?thesis
    by (cases w) auto
qed

text \<open>One idle worker is enough to see that nothing is queued.\<close>

lemma sync_some_idle_empty:
  assumes sync: "pool_sync p" and idle: "Asleep \<in> set (workers p) \<or> Exited \<in> set (workers p)"
    and entry: "Wait_entry \<notin> set (workers p)" and notify: "\<And>i. notify_one i p = None"
  shows "tasks (pool_queue p) = []"
proof (cases "Asleep \<in> set (workers p)")
  case True
  then obtain i where "i < length (workers p)" "workers p ! i = Asleep"
    by (auto simp: in_set_conv_nth)
  then have "notify_due p = 0"
    using notify [of i] by (auto simp: notify_one_def split: if_splits)
  moreover have "waiting p = 0"
    using entry by (auto simp: waiting_def count_list_0_iff)
  ultimately show ?thesis
    using pool_syncD(2) [OF sync True] by simp
next
  case False
  then show ?thesis using idle pool_syncD(9) [OF sync] by blast
qed

lemma sync_quiescent_empty:
  assumes sync: "pool_sync p" and ws: "\<And>w. w \<in> set (workers p) \<Longrightarrow> w = Asleep \<or> w = Exited"
    and notify: "\<And>i. notify_one i p = None"
  shows "tasks (pool_queue p) = []"
proof (rule sync_some_idle_empty [OF sync _ _ notify])
  show "Asleep \<in> set (workers p) \<or> Exited \<in> set (workers p)"
    using ws [OF hd_in_set] pool_syncD(1) [OF sync] by (metis list.set_sel(1))
  show "Wait_entry \<notin> set (workers p)" using ws by blast
qed

text \<open>Nothing queued and nothing executing: every future is ready, with its denotation.\<close>

lemma books_all_done:
  assumes books: "pool_books p" and q: "tasks (pool_queue p) = []"
    and idle: "\<And>i t. i < length (workers p) \<Longrightarrow> \<not> executing (workers p ! i) t"
    and t: "t < length (jobs p)"
  shows "results p t = Some (denote (jobs p) ! t)"
proof -
  have "set (started p) = {0..<length (jobs p)}"
    using pool_booksD(2) [OF books] q by (metis append_Nil2 set_upt)
  then have "results p t \<noteq> None"
    using pool_booksD(5) [OF books, of t] idle t by auto
  then obtain r where r: "results p t = Some r" by blast
  then show ?thesis using books_denote [OF books r] by simp
qed

lemma quiescent_done:
  assumes "pool_books p" "pool_sync p" "events_done p" "\<And>i. worker_step i p = None"
    "\<And>i. notify_one i p = None" "t < length (jobs p)"
  shows "results p t = Some (denote (jobs p) ! t)"
  by (rule books_all_done [OF assms(1)
        sync_quiescent_empty [OF assms(2) stuck_workers [OF assms(1,3,4)] assms(5)]
        books_stuck_idle [OF assms(1,3,4)] assms(6)])

section \<open>Internal runs are finite\<close>

text \<open>
  A worker still has this many control points to pass before it sleeps or exits. A queued task
  weighs more than a wake-up and the run of a task, a pending notification more than a wake-up.
\<close>

fun worker_weight :: "bool \<Rightarrow> worker \<Rightarrow> nat" where
  "worker_weight stop (Run_main t) = 5"
| "worker_weight stop (Run_drain t) = 3"
| "worker_weight stop Loop_head = 3"
| "worker_weight stop Wait_entry = (if stop then 4 else 2)"
| "worker_weight stop Drain_head = 2"
| "worker_weight stop Asleep = 0"
| "worker_weight stop Exited = 0"

definition pool_weight :: "'v pool \<Rightarrow> nat" where
  "pool_weight p = 4 * length (tasks (pool_queue p)) + 3 * notify_due p +
     sum_list (map (worker_weight (stopper p \<noteq> Not_called)) (workers p))"

lemma weight_update:
  assumes "i < length ws"
  shows "sum_list (map f (ws[i := w])) + f (ws ! i) = sum_list (map f ws) + (f w :: nat)"
  using assms
proof (induction ws arbitrary: i)
  case (Cons v ws)
  then show ?case by (cases i) auto
qed simp

text \<open>No shutdown is under way: either none was called, or every stop has been requested.\<close>

definition settled :: "'v pool \<Rightarrow> bool" where
  "settled p \<longleftrightarrow> stopper p = Not_called \<or> stopper p = Shutdown_returned"

lemma settled_stop:
  assumes "pool_sync p" "settled p" "i < length (workers p)"
  shows "stop_requested p ! i \<longleftrightarrow> stopper p \<noteq> Not_called"
    "stop_requested p ! i \<longleftrightarrow> shutdown_flag (pool_queue p)"
  using pool_syncD(3) [OF assms(1)] pool_syncD(5) [OF assms(1), of i]
    pool_syncD(6) [OF assms(1,3)] assms(2,3)
  by (auto simp: settled_def stopped_to_def)

fun internal :: "'v pool_action \<Rightarrow> bool" where
  "internal (Do_notify i) = True"
| "internal (Do_work i) = True"
| "internal _ = False"

lemma weight_worker:
  assumes "i < length (workers p)" "stopper p' = stopper p" "workers p' = (workers p)[i := w]"
    and "4 * length (tasks (pool_queue p')) + 3 * notify_due p' +
        worker_weight (stopper p \<noteq> Not_called) w
      < 4 * length (tasks (pool_queue p)) + 3 * notify_due p +
        worker_weight (stopper p \<noteq> Not_called) (workers p ! i)"
  shows "pool_weight p' < pool_weight p"
  using weight_update [OF assms(1), of "worker_weight (stopper p \<noteq> Not_called)" w] assms
  unfolding pool_weight_def by simp

lemma weight_take_task:
  assumes i: "i < length (workers p)"
    and some: "\<And>t. worker_weight (stopper p \<noteq> Not_called) (some t)
      < 4 + worker_weight (stopper p \<noteq> Not_called) (workers p ! i)"
    and none: "tasks (pool_queue p) = [] \<Longrightarrow> worker_weight (stopper p \<noteq> Not_called) none
      < worker_weight (stopper p \<noteq> Not_called) (workers p ! i)"
  shows "pool_weight (take_task i some none (try_pop (pool_queue p)) p) < pool_weight p"
proof (cases "try_pop (pool_queue p)")
  case (Pair r q)
  show ?thesis
  proof (cases r)
    case None
    with Pair have q: "tasks (pool_queue p) = []" "q = pool_queue p" by (simp_all add: try_pop_None)
    show ?thesis
      unfolding take_task_def Pair None prod.case option.case
      by (rule weight_worker [OF i, where w = none]) (use none q in auto)
  next
    case (Some t)
    with Pair have q: "tasks (pool_queue p) = t # tasks q" by (simp add: try_pop_Some)
    show ?thesis
      unfolding take_task_def Pair Some prod.case option.case
      by (rule weight_worker [OF i, where w = "some t"]) (use some [of t] q in auto)
  qed
qed

lemma weight_run_job:
  assumes i: "i < length (workers p)" and "run_job i t w p = Some p'"
    and "worker_weight (stopper p \<noteq> Not_called) w
      < worker_weight (stopper p \<noteq> Not_called) (workers p ! i)"
  shows "pool_weight p' < pool_weight p"
  using assms by (auto simp: run_job_def intro!: weight_worker [OF i, where w = w])

lemma weight_work:
  assumes sync: "pool_sync p" and "settled p" and step: "worker_step i p = Some p'"
  shows "pool_weight p' < pool_weight p"
proof -
  have i: "i < length (workers p)"
    using step by (auto simp: worker_step_def split: if_splits)
  note stop = settled_stop [OF sync assms(2) i]
  note w = weight_worker [OF i]
  show ?thesis
  proof (cases "workers p ! i")
    case Loop_head
    then have p': "p' = p\<lparr>workers := (workers p)
        [i := if stop_requested p ! i then Drain_head else Wait_entry]\<rparr>"
      using step i by (simp add: worker_step_def)
    show ?thesis unfolding p' by (rule w) (use Loop_head stop in auto)
  next
    case Wait_entry
    show ?thesis
    proof (cases "wait_and_pop (stop_requested p ! i) (pool_queue p)")
      case Blocked
      then have p': "p' = p\<lparr>workers := (workers p)[i := Asleep]\<rparr>"
        using step i Wait_entry by (simp add: worker_step_def)
      show ?thesis unfolding p' by (rule w) (use Wait_entry in auto)
    next
      case (Returned x)
      then have "x = try_pop (pool_queue p)"
        and open_q: "tasks (pool_queue p) = [] \<Longrightarrow> stopper p \<noteq> Not_called"
        using stop by (auto simp: wait_and_pop_eq split: if_splits)
      then have p': "p' = take_task i Run_main Loop_head (try_pop (pool_queue p)) p"
        using step i Wait_entry Returned by (simp add: worker_step_def)
      show ?thesis
        unfolding p' by (rule weight_take_task [OF i]) (use Wait_entry open_q in auto)
    qed
  next
    case Drain_head
    then have p': "p' = take_task i Run_drain Exited (try_pop (pool_queue p)) p"
      using step i by (simp add: worker_step_def)
    show ?thesis
      unfolding p' by (rule weight_take_task [OF i]) (use Drain_head in auto)
  qed (use step i in \<open>auto simp: worker_step_def intro: weight_run_job [OF i]\<close>)
qed

lemma weight_notify:
  assumes sync: "pool_sync p" and "settled p" and step: "notify_one i p = Some p'"
  shows "pool_weight p' < pool_weight p"
proof (cases "i < length (workers p) \<and> workers p ! i = Asleep")
  case True
  then have p': "p' = p\<lparr>workers := (workers p)[i := Wait_entry], notify_due := notify_due p - 1\<rparr>"
    and due: "notify_due p \<noteq> 0"
    using step by (auto simp: notify_one_def split: if_splits)
  have "stopper p = Not_called"
    using pool_syncD(7) [OF sync, of i] True assms(2) by (auto simp: settled_def)
  then show ?thesis
    unfolding p' by (intro weight_worker [where i = i and w = Wait_entry]) (use True due in auto)
next
  case False
  then have "p' = p\<lparr>notify_due := notify_due p - 1\<rparr>" and "notify_due p \<noteq> 0"
    using step by (auto simp: notify_one_def split: if_splits)
  then show ?thesis by (simp add: pool_weight_def)
qed

lemma internal_step:
  assumes "pool_act a p = Some p'" "internal a"
  shows "stopper p' = stopper p" "jobs p' = jobs p" "events p' = events p"
proof -
  have "stopper p' = stopper p \<and> jobs p' = jobs p \<and> events p' = events p"
    using assms
    by (cases a) (auto simp: notify_one_def worker_step_def run_job_def take_task_def
        split: if_splits worker.splits waited.splits option.splits prod.splits)
  then show "stopper p' = stopper p" "jobs p' = jobs p" "events p' = events p"
    by simp_all
qed

lemma internal_weight:
  assumes "pool_sync p" "settled p" "pool_act a p = Some p'" "internal a"
  shows "pool_weight p' < pool_weight p"
  using assms weight_work weight_notify by (cases a) auto

lemma internal_run:
  assumes "pool_books p" "pool_sync p" "settled p" "list_all internal ls"
    and "run_schedule pool_act ls p = Some p'"
  shows "pool_books p' \<and> pool_sync p' \<and> jobs p' = jobs p \<and> events p' = events p \<and> length ls + pool_weight p' \<le> pool_weight p"
  using assms
proof (induction ls arbitrary: p)
  case Nil
  then show ?case by simp
next
  case (Cons a ls)
  then obtain u where u: "pool_act a p = Some u" and run: "run_schedule pool_act ls u = Some p'"
    by (auto split: option.splits)
  have a: "internal a" "list_all internal ls" using Cons.prems by auto
  have step: "pool_step p u" using u by (rule pool_act_step)
  have "settled u" using Cons.prems(3) internal_step [OF u a(1)] by (simp add: settled_def)
  then show ?case
    using Cons.IH [OF pool_books_step [OF step Cons.prems(1)] pool_sync_step [OF step Cons.prems(2)]
        _ a(2) run] internal_step [OF u a(1)]
      internal_weight [OF Cons.prems(2,3) u a(1)] by simp
qed

section \<open>The steps of a shutdown\<close>

lemma stops_run:
  assumes "length (workers p) = k + n" "stopper p = Stop_from k" "Asleep \<notin> set (workers p)"
    and "length (stop_requested p) = length (workers p)" "\<And>j. j < k \<Longrightarrow> stop_requested p ! j"
  shows "run_schedule pool_act (replicate (Suc n) Do_continue) p =
    Some (p\<lparr>stop_requested := replicate (k + n) True, stopper := Shutdown_returned\<rparr>)"
  using assms
proof (induction n arbitrary: k p)
  case 0
  then have "stop_requested p = replicate k True"
    by (intro nth_equalityI) auto
  then show ?case using 0 by (simp add: shutdown_continue_def)
next
  case (Suc n)
  have "workers p ! k \<noteq> Asleep" using Suc.prems(1,3) by (metis less_add_Suc1 nth_mem add_Suc_right)
  then have same: "(workers p)[k := wake (workers p ! k)] = workers p" by (simp add: wake_def)
  define u where "u = p\<lparr>stop_requested := (stop_requested p)[k := True], stopper := Stop_from (Suc k)\<rparr>"
  have step: "shutdown_continue p = Some u"
    using Suc.prems(1,2) by (simp add: shutdown_continue_def same u_def)
  have "run_schedule pool_act (replicate (Suc n) Do_continue) u =
      Some (u\<lparr>stop_requested := replicate (Suc k + n) True, stopper := Shutdown_returned\<rparr>)"
  proof (rule Suc.IH)
    show "stop_requested u ! j" if "j < Suc k" for j
      using that Suc.prems by (cases "j = k") (simp_all add: u_def)
  qed (use Suc.prems in \<open>simp_all add: u_def\<close>)
  then show ?case
    using step by (simp add: u_def)
qed

section \<open>Properties\<close>

text \<open>
  C7: First in, first out, exactly once. In every reachable state the tasks that have been started
  are the first \<open>k\<close> accepted submissions, each once and in order; the queue holds the others
  in order; no later task has a result; and every started task without a result is being run by
  exactly one worker.
\<close>

lemma pool_fifo_exactly_once:
  assumes "reach pool_init pool_step m p"
  shows "\<exists>k \<le> length (jobs p). started p = [0..<k] \<and>
      tasks (pool_queue p) = [k..<length (jobs p)] \<and> pending_tasks p = length (jobs p) - k \<and>
      (\<forall>t. results p t \<noteq> None \<longrightarrow> t < k) \<and>
      (\<forall>t < k. results p t = None \<longrightarrow>
        (\<exists>!i. i < length (workers p) \<and> executing (workers p ! i) t))"
proof -
  note books = books.reach_state [OF assms]
  note up = pool_books_started_upt [OF books]
  have q: "tasks (pool_queue p) = [length (started p)..<length (jobs p)]"
    using arg_cong [OF pool_booksD(2) [OF books], of "drop (length (started p))"] by simp
  have "results p t \<noteq> None \<longrightarrow> t < length (started p)" for t
    using books_done_lt(1) [OF books, of t] up(4) by auto
  moreover have "\<exists>!i. i < length (workers p) \<and> executing (workers p ! i) t"
    if t: "t < length (started p)" "results p t = None" for t
  proof -
    have "t \<in> set (started p)" using t up(4) by auto
    then obtain i where "i < length (workers p)" "executing (workers p ! i) t"
      using t(2) pool_booksD(5) [OF books, of t] by blast
    then show ?thesis using pool_booksD(4) [OF books] by blast
  qed
  ultimately show ?thesis
    using up(1,2) q
    by (intro exI [of _ "length (started p)"]) (simp add: pending_tasks_def size_approx_def)
qed

text \<open>
  C8: The value of a future does not depend on the schedule. Whatever the interleaving of
  submissions, workers, notifications and shutdown, the result stored for a task is the one of the
  purely sequential evaluation of the accepted tasks in submission order.
\<close>

lemma pool_results_deterministic:
  assumes "reach pool_init pool_step m p" and "results p t = Some r"
  shows "t < length (jobs p) \<and> r = denote (jobs p) ! t"
  using books_done_lt(2) books_denote books.reach_state [OF assms(1)] assms(2) by blast

text \<open>
  C2: No task is lost by a shutdown. When every worker has left its loop, which is what the joins
  of the destructor wait for, the queue is empty, the pool is closed, and every task that was ever
  accepted has its result: the drain loops complete all submitted work.
\<close>

lemma pool_joined_completes:
  assumes "reach pool_init pool_step m p" and "joined p"
  shows "tasks (pool_queue p) = [] \<and> is_shutdown (pool_queue p) \<and>
    (\<forall>t < length (jobs p). results p t = Some (denote (jobs p) ! t))"
proof -
  note books = books.reach_state [OF assms(1)] and sync = sync.reach_state [OF assms(1)]
  have all: "i < length (workers p) \<Longrightarrow> workers p ! i = Exited" for i
    using assms(2) by (simp add: joined_def list_all_length)
  have 0: "0 < length (workers p)" using pool_syncD(1) [OF sync] by simp
  then have empty: "tasks (pool_queue p) = []"
    using pool_syncD(9) [OF sync] all [OF 0] nth_mem [OF 0] by simp
  have "is_shutdown (pool_queue p)"
    using pool_syncD(8) [OF sync 0] pool_syncD(6) [OF sync 0] all [OF 0]
    by (simp add: is_shutdown_def)
  then show ?thesis
    using empty books_all_done [OF books empty] all by simp
qed

text \<open>
  C3: No deadlock and no lost wake-up. If no worker can take a step, no notification is pending
  every outside event that a task waits for has happened, and the owner is not inside
  \<open>shutdown()\<close>, then every accepted task has its result and every
  worker is asleep or has exited; once the pool has been shut down, all of them have exited. So
  no future stays pending for ever, not even those that wait for other futures of the pool.
\<close>

lemma pool_quiescent_complete:
  assumes "reach pool_init pool_step m p" and "events_done p"
    and "\<And>i. worker_step i p = None" and "\<And>i. notify_one i p = None"
    and "shutdown_continue p = None"
  shows "(\<forall>t < length (jobs p). results p t = Some (denote (jobs p) ! t)) \<and>
    (\<forall>w \<in> set (workers p). w = Asleep \<or> w = Exited) \<and>
    (stopper p \<noteq> Not_called \<longrightarrow> joined p)"
proof -
  note books = books.reach_state [OF assms(1)] and sync = sync.reach_state [OF assms(1)]
  note idle = stuck_workers [OF books assms(2,3)]
  have "w = Exited" if "stopper p \<noteq> Not_called" "w \<in> set (workers p)" for w
  proof -
    have "stopper p = Shutdown_returned"
      using that(1) assms(5) by (auto simp: shutdown_continue_def split: stopper.splits if_splits)
    then show ?thesis
      using idle [OF that(2)] pool_syncD(7) [OF sync] that(2) by (auto simp: in_set_conv_nth)
  qed
  then show ?thesis
    using quiescent_done [OF books sync assms(2-4)] idle by (simp add: joined_def list_all_iff)
qed

text \<open>
  C20: The pool finishes its work. From a reachable state in which no shutdown is under way, every
  run of workers and notifications is shorter than \<open>pool_weight\<close>, which the state alone
  determines. If the outside events that the accepted tasks wait for (such as the stop of an
  \<open>io_context\<close>) have happened, a run that cannot be extended ends with every accepted task completed.
\<close>

lemma pool_work_terminates:
  assumes "reach pool_init pool_step m p" and "settled p"
    and "list_all internal ls" and "run_schedule pool_act ls p = Some p'"
  shows "length ls \<le> pool_weight p \<and>
    (events_done p \<longrightarrow> (\<forall>a. internal a \<longrightarrow> pool_act a p' = None) \<longrightarrow>
      (\<forall>t < length (jobs p). results p' t = Some (denote (jobs p) ! t)))"
proof -
  note run = internal_run [OF books.reach_state [OF assms(1)] sync.reach_state [OF assms(1)]
      assms(2-4)]
  have "results p' t = Some (denote (jobs p) ! t)"
    if ev: "events_done p" and stuck: "\<forall>a. internal a \<longrightarrow> pool_act a p' = None" and t: "t < length (jobs p)" for t
  proof -
    have "worker_step i p' = None" "notify_one i p' = None" for i
      using stuck spec [OF stuck, of "Do_work i"] spec [OF stuck, of "Do_notify i"] by simp_all
    then show ?thesis
      using quiescent_done [of p' t] run t ev by (metis events_done_def)
  qed
  then show ?thesis using run by auto
qed

text \<open>
  Submission. On an open pool \<open>submit\<close> enqueues exactly the given callable under a fresh
  future, whose result is not set; on a closed pool it throws the documented exception and leaves
  the pool as it is. A closed pool stays closed: whatever happens later, every submission throws
  and no task is added.
\<close>

lemma pool_submit_correct:
  "submit job p =
     (if is_shutdown (pool_queue p) then Inl (Runtime_error shut_down_message)
      else Inr (length (jobs p),
        p\<lparr>pool_queue := snd (push (length (jobs p)) (pool_queue p)), jobs := jobs p @ [job],
          notify_due := notify_due p + 1\<rparr>)) \<and>
   (is_shutdown (pool_queue p) \<longrightarrow> run_schedule pool_act ls p = Some p' \<longrightarrow>
      submit job' p' = Inl (Runtime_error shut_down_message) \<and> jobs p' = jobs p)"
proof -
  have closed: "shutdown_flag (pool_queue p') \<and> jobs p' = jobs p"
    if "shutdown_flag (pool_queue p)" "run_schedule pool_act ls p = Some p'" for p
    using that
  proof (induction ls arbitrary: p)
    case (Cons a ls)
    then obtain u where u: "pool_act a p = Some u" "run_schedule pool_act ls u = Some p'"
      by (auto split: option.splits)
    have "shutdown_flag (pool_queue u) \<and> jobs u = jobs p"
      using u(1) Cons.prems(1)
      by (cases a) (auto simp: signal_def submit_def push_def notify_one_def spurious_wakeup_def
          worker_step_def run_job_def take_task_def shutdown_begin_def shutdown_continue_def
          shutdown_def wait_and_pop_eq try_pop_def
          split: if_splits worker.splits waited.splits option.splits prod.splits stopper.splits
            list.splits)
    then show ?case using Cons.IH [of u] u(2) by simp
  qed simp
  then show ?thesis
    by (auto simp: submit_def push_def is_shutdown_def)
qed

text \<open>
  C27: \<open>shutdown()\<close> never waits for a worker. From any reachable state its remaining steps can be
  taken in a row, at most one per worker and two more; afterwards the queue is closed, every
  worker's stop is requested, no worker sleeps, and the workers are otherwise where they were.
\<close>

lemma pool_shutdown_returns:
  assumes "reach pool_init pool_step m p" and "stopper p = Notify_all_due"
  shows "\<exists>p'. run_schedule pool_act (replicate (length (workers p) + 2) Do_continue) p = Some p' \<and>
    stopper p' = Shutdown_returned \<and> is_shutdown (pool_queue p') \<and>
    list_all id (stop_requested p') \<and> workers p' = map wake (workers p) \<and>
    results p' = results p \<and> tasks (pool_queue p') = tasks (pool_queue p)"
proof -
  note sync = sync.reach_state [OF assms(1)]
  define u where "u = p\<lparr>workers := map wake (workers p), stopper := Stop_from 0\<rparr>"
  have "shutdown_continue p = Some u"
    using assms(2) by (simp add: shutdown_continue_def u_def)
  moreover have "run_schedule pool_act (replicate (Suc (length (workers p))) Do_continue) u =
      Some (u\<lparr>stop_requested := replicate (0 + length (workers p)) True, stopper := Shutdown_returned\<rparr>)"
    by (rule stops_run) (use pool_syncD(1) [OF sync] in \<open>auto simp: u_def\<close>)
  ultimately show ?thesis
    using pool_syncD(3) [OF sync] assms(2)
    by (simp add: u_def is_shutdown_def list_all_iff)
qed

text \<open>
  When \<open>shutdown()\<close> returns the workers need not have left their loops, contrary to the
  comment at the end of its body: here it has returned while the only worker still runs a task.
\<close>

lemma pool_shutdown_does_not_join:
  "\<exists>m p. reach pool_init pool_step m (p :: nat pool) \<and> stopper p = Shutdown_returned \<and>
     executing (workers p ! 0) 0 \<and> results p 0 = None \<and> \<not> joined p"
proof -
  define ls :: "nat pool_action list" where
    "ls = [Do_submit (Call (Inr 7)), Do_work 0, Do_work 0, Do_shutdown, Do_continue,
       Do_continue, Do_continue]"
  have "\<exists>p. run_schedule pool_act ls (ThreadPool 1 0) = Some p \<and> stopper p = Shutdown_returned \<and>
     executing (workers p ! 0) 0 \<and> results p 0 = None \<and> \<not> joined p"
    by (simp add: ls_def pool_defs tq_defs cv_wait_def thread_count_for_def wake_def)
  then show ?thesis using pool_schedule_reach by blast
qed

section \<open>Concrete runs\<close>

text \<open>
  A pool of two workers: a task that returns 5, one that throws, a continuation on each; a
  shutdown while the queue is not empty; then both workers drain and exit.
\<close>

definition demo_submits :: "nat pool_action list" where
  "demo_submits = [Do_submit (Call (Inr 5)), Do_submit (Call (Inl (User_exn ''boom''))),
     Do_submit (Continue 0 (\<lambda>x. Inr (x + 1))), Do_submit (Continue 1 (\<lambda>x. Inr (x + 1)))]"

definition demo_start :: "nat pool_action list" where
  "demo_start = demo_submits @ [Do_work 0, Do_work 0, Do_work 1, Do_work 1, Do_work 1, Do_notify 0,
     Do_notify 0, Do_notify 1, Do_notify 1, Do_shutdown]"

definition demo_rest :: "nat pool_action list" where
  "demo_rest = [Do_continue, Do_continue, Do_continue, Do_continue,
     Do_work 0, Do_work 0, Do_work 0, Do_work 1, Do_work 1, Do_work 0, Do_work 1,
     Do_work 0, Do_work 1]"

definition demo_pool :: "nat pool_action list \<Rightarrow> nat pool" where
  "demo_pool ls = the (run_schedule pool_act ls (ThreadPool 2 0))"

lemmas demo_eval = demo_submits_def demo_start_def demo_rest_def demo_pool_def pool_defs tq_defs
  cv_wait_def Let_def wake_def numeral_2_eq_2

lemma demo_open: "run_schedule pool_act demo_start (ThreadPool 2 0) = Some (demo_pool demo_start)"
  by (simp add: demo_eval)

lemma demo_done: "run_schedule pool_act (demo_start @ demo_rest) (ThreadPool 2 0)
    = Some (demo_pool (demo_start @ demo_rest))"
  by (simp add: demo_eval)

lemma demo_done_state:
  "workers (demo_pool (demo_start @ demo_rest)) = [Exited, Exited]"
  "stopper (demo_pool (demo_start @ demo_rest)) = Shutdown_returned"
  "results (demo_pool (demo_start @ demo_rest)) 3 = Some (Inl (User_exn ''boom''))"
  by (simp_all add: demo_eval)

lemmas demo_open_reach = pool_schedule_reach [OF demo_open]
lemmas demo_done_reach = pool_schedule_reach [OF demo_done]

lemma demo_open_state:
  "started (demo_pool demo_start) = [0, 1]" "length (jobs (demo_pool demo_start)) = 4"
  "stopper (demo_pool demo_start) = Notify_all_due" "length (workers (demo_pool demo_start)) = 2"
  by (simp_all add: demo_eval)

lemma pool_fifo_exactly_once_witness:
  "started (demo_pool demo_start) = [0, 1] \<and>
   tasks (pool_queue (demo_pool demo_start)) = [2, 3] \<and> pending_tasks (demo_pool demo_start) = 2"
proof -
  obtain k where k: "k \<le> length (jobs (demo_pool demo_start))" "started (demo_pool demo_start) = [0..<k]"
      "tasks (pool_queue (demo_pool demo_start)) = [k..<length (jobs (demo_pool demo_start))]"
      "pending_tasks (demo_pool demo_start) = length (jobs (demo_pool demo_start)) - k"
    using pool_fifo_exactly_once [OF demo_open_reach] by blast
  have "[0..<k] = [0, 1]" using k(2) demo_open_state(1) by simp
  then have "length [0..<k] = length [0::nat, 1]" by (rule arg_cong)
  then have "k = 2" by simp
  then show ?thesis using k demo_open_state by (simp add: upt_rec)
qed

lemma pool_results_deterministic_witness:
  "Inl (User_exn ''boom'') = denote (jobs (demo_pool (demo_start @ demo_rest))) ! 3"
  using pool_results_deterministic [OF demo_done_reach demo_done_state(3)] by simp

lemma pool_joined_completes_witness:
  "joined (demo_pool (demo_start @ demo_rest)) \<and>
   results (demo_pool (demo_start @ demo_rest)) 2 = Some (Inr 6)"
proof -
  have j: "joined (demo_pool (demo_start @ demo_rest))"
    using demo_done_state(1) by (simp add: joined_def)
  have js: "length (jobs (demo_pool (demo_start @ demo_rest))) = 4"
    "denote (jobs (demo_pool (demo_start @ demo_rest))) ! 2 = Inr 6"
    by (simp_all add: demo_eval denote_def nth_append)
  show ?thesis
    using pool_joined_completes [OF demo_done_reach j] j js by simp
qed

lemma demo_done_events: "events_done (demo_pool (demo_start @ demo_rest))"
  by (simp add: demo_eval events_done_def)

lemma demo_done_stuck:
  "worker_step i (demo_pool (demo_start @ demo_rest)) = None"
  "notify_one i (demo_pool (demo_start @ demo_rest)) = None"
  "shutdown_continue (demo_pool (demo_start @ demo_rest)) = None"
proof -
  have "notify_due (demo_pool (demo_start @ demo_rest)) = 0"
    by (simp add: demo_eval)
  moreover have "i < 2 \<Longrightarrow> [Exited, Exited] ! i = Exited"
    by (auto simp: less_2_cases_iff)
  ultimately show "worker_step i (demo_pool (demo_start @ demo_rest)) = None"
    "notify_one i (demo_pool (demo_start @ demo_rest)) = None"
    "shutdown_continue (demo_pool (demo_start @ demo_rest)) = None"
    using demo_done_state by (auto simp: worker_step_def notify_one_def shutdown_continue_def)
qed

lemma pool_quiescent_complete_witness:
  "results (demo_pool (demo_start @ demo_rest)) 0 = Some (Inr 5) \<and>
   joined (demo_pool (demo_start @ demo_rest))"
proof -
  have "length (jobs (demo_pool (demo_start @ demo_rest))) = 4"
    "denote (jobs (demo_pool (demo_start @ demo_rest))) ! 0 = Inr 5"
    by (simp_all add: demo_eval denote_def)
  then show ?thesis
    using pool_quiescent_complete [OF demo_done_reach demo_done_events demo_done_stuck] demo_done_state(2) by simp
qed

text \<open>An open pool with one sleeping worker and one task, run to quiescence.\<close>

definition demo_sleep :: "nat pool_action list" where
  "demo_sleep = [Do_work 0, Do_work 0, Do_submit (Call (Inr 7))]"

definition demo_work :: "nat pool_action list" where
  "demo_work = [Do_notify 0, Do_work 0, Do_work 0, Do_work 0, Do_work 0]"

lemma pool_work_terminates_witness:
  "\<exists>p p'. run_schedule pool_act demo_sleep (ThreadPool 1 0) = Some p \<and>
     run_schedule pool_act demo_work p = Some p' \<and> results p' 0 = Some (Inr 7)"
proof -
  obtain p p' where p: "run_schedule pool_act demo_sleep (ThreadPool 1 0) = Some p"
    and p': "run_schedule pool_act demo_work p = Some p'"
    and st: "settled p" "length (jobs p) = 1" "denote (jobs p) ! 0 = Inr 7"
      "workers p' = [Asleep]" "notify_due p' = 0" "events_done p"
    by (simp add: demo_sleep_def demo_work_def demo_eval settled_def denote_def events_done_def)
  have "\<forall>a. internal a \<longrightarrow> pool_act a p' = None"
  proof (intro allI impI)
    fix a :: "nat pool_action"
    assume "internal a"
    then show "pool_act a p' = None"
      using st(4,5)
      by (cases a) (auto simp: notify_one_def worker_step_def not_less_eq_eq split: worker.splits)
  qed
  moreover have "list_all internal demo_work"
    by (simp add: demo_work_def)
  ultimately have "results p' 0 = Some (Inr 7)"
    using pool_work_terminates [OF pool_schedule_reach [OF p] st(1) _ p'] st(2,3,6) by simp
  then show ?thesis using p p' by blast
qed

lemma pool_submit_correct_witness:
  "submit (Call (Inr 1)) (demo_pool demo_start) = Inl (Runtime_error shut_down_message) \<and>
   submit (Call (Inr 1)) (demo_pool (demo_start @ demo_rest)) = Inl (Runtime_error shut_down_message)"
proof -
  have "is_shutdown (pool_queue (demo_pool demo_start))"
    by (simp add: demo_eval)
  moreover have "run_schedule pool_act demo_rest (demo_pool demo_start)
      = Some (demo_pool (demo_start @ demo_rest))"
    by (simp add: demo_eval)
  ultimately show ?thesis
    using pool_submit_correct [of "Call (Inr 1)" "demo_pool demo_start" demo_rest
        "demo_pool (demo_start @ demo_rest)" "Call (Inr 1)"] by simp
qed

lemma pool_shutdown_returns_witness:
  "\<exists>p'. run_schedule pool_act (replicate 4 Do_continue) (demo_pool demo_start) = Some p' \<and>
     stopper p' = Shutdown_returned \<and> list_all id (stop_requested p')"
  using pool_shutdown_returns [OF demo_open_reach demo_open_state(3)] demo_open_state(4) by auto

end
