(* ===== verification/Async_Result.thy ===== *)
theory Async_Result
  imports Pool_Correct
begin

text \<open>
  \<open>include/ate/async_result.hpp\<close>: the chainable future, on top of the thread pool's futures.
  A future is the number of a task of the pool, or nothing once it has been moved from.
\<close>

section \<open>The wrapper and its operations\<close>

record async_result =
  inner :: "nat option"

definition AsyncResult :: "nat \<Rightarrow> async_result" where
  "AsyncResult fut = \<lparr>inner = Some fut\<rparr>"

definition valid :: "async_result \<Rightarrow> bool" where
  "valid a \<longleftrightarrow> inner a \<noteq> None"

text \<open>\<open>ThreadPool::submit_async\<close>.\<close>

definition submit_async :: "'v job \<Rightarrow> 'v pool \<Rightarrow> (async_result \<times> 'v pool) outcome" where
  "submit_async job p = and_then (submit job p) (\<lambda>(fut, p'). Inr (AsyncResult fut, p'))"

text \<open>
  Reading a future: undefined on one without a shared state, otherwise blocking until the task is
  done. \<open>get\<close> returns the value or rethrows, and leaves the future without a state.
\<close>

datatype 'a reading = Undefined_read | Blocks | Reads 'a

definition async_get :: "async_result \<Rightarrow> 'v pool \<Rightarrow> ('v outcome \<times> async_result) reading" where
  "async_get a p =
     (case inner a of
        None \<Rightarrow> Undefined_read
      | Some f \<Rightarrow> (case results p f of
          None \<Rightarrow> Blocks | Some r \<Rightarrow> Reads (r, a\<lparr>inner := None\<rparr>)))"

definition async_wait :: "async_result \<Rightarrow> 'v pool \<Rightarrow> async_result reading" where
  "async_wait a p =
     (case inner a of
        None \<Rightarrow> Undefined_read
      | Some f \<Rightarrow> (case results p f of None \<Rightarrow> Blocks | Some r \<Rightarrow> Reads a))"

text \<open>\<open>AsyncResult<void>::get\<close> has no value to return, but rethrows.\<close>

definition async_get_void :: "async_result \<Rightarrow> 'v pool \<Rightarrow> (unit outcome \<times> async_result) reading" where
  "async_get_void a p =
     (case async_get a p of
        Undefined_read \<Rightarrow> Undefined_read
      | Blocks \<Rightarrow> Blocks
      | Reads (r, a') \<Rightarrow> Reads (and_then r (\<lambda>_. Inr ()), a'))"

text \<open>
  The moves: the new object, or the one assigned to, and the one moved from. An assignment drops
  the future of its target, without waiting for the task.
\<close>

definition async_move :: "async_result \<Rightarrow> async_result \<times> async_result" where
  "async_move a = (a, a\<lparr>inner := None\<rparr>)"

definition async_assign :: "async_result \<Rightarrow> async_result \<Rightarrow> async_result \<times> async_result" where
  "async_assign target a = (target\<lparr>inner := inner a\<rparr>, a\<lparr>inner := None\<rparr>)"

text \<open>
  \<open>then\<close>: the future moves into a new task, whatever becomes of the submission. The components of
  the answer are what the call returns or throws, the object it was called on, and the pool.
  \<open>None\<close>: the new task would call \<open>get()\<close> on a future without a state.
\<close>

definition then_on :: "(nat \<Rightarrow> 'v job) \<Rightarrow> async_result \<Rightarrow> 'v pool
    \<Rightarrow> (async_result outcome \<times> async_result \<times> 'v pool) option" where
  "then_on job a p =
     (let moved = a\<lparr>inner := None\<rparr> in
      case inner a of
        None \<Rightarrow>
          (if is_shutdown (pool_queue p)
           then Some (Inl (Runtime_error shut_down_message), moved, p) else None)
      | Some shared \<Rightarrow>
          Some (case submit (job shared) p of
             Inl e \<Rightarrow> (Inl e, moved, p)
           | Inr (fut, p') \<Rightarrow> (Inr (AsyncResult fut), moved, p')))"

definition async_then :: "('v \<Rightarrow> 'v outcome) \<Rightarrow> async_result \<Rightarrow> 'v pool
    \<Rightarrow> (async_result outcome \<times> async_result \<times> 'v pool) option" where
  "async_then cont = then_on (\<lambda>shared. Continue shared cont)"

text \<open>The specialisation for \<open>void\<close>: the continuation takes no argument.\<close>

definition async_then_void :: "'v outcome \<Rightarrow> async_result \<Rightarrow> 'v pool
    \<Rightarrow> (async_result outcome \<times> async_result \<times> 'v pool) option" where
  "async_then_void cont = then_on (\<lambda>shared. Continue shared (\<lambda>_. cont))"

text \<open>A client's chain \<open>r.then(g).then(h)...\<close>.\<close>

fun then_chain :: "('v \<Rightarrow> 'v outcome) list \<Rightarrow> async_result \<Rightarrow> 'v pool
    \<Rightarrow> (async_result outcome \<times> 'v pool) option" where
  "then_chain [] a p = Some (Inr a, p)"
| "then_chain (c # cs) a p =
     (case async_then c a p of
        None \<Rightarrow> None
      | Some (Inl e, _, p') \<Rightarrow> Some (Inl e, p')
      | Some (Inr b, _, p') \<Rightarrow> then_chain cs b p')"

section \<open>Denotations of growing task lists\<close>

lemma denote_append: "denote (js @ ks) = denote_from ks (denote js)"
proof -
  have "denote_from (js @ ks) rs = denote_from ks (denote_from js rs)" for rs :: "'a outcome list"
    by (induction js arbitrary: rs) simp_all
  then show ?thesis by (simp add: denote_def)
qed

lemma denote_append_nth: "t < length js \<Longrightarrow> denote (js @ ks) ! t = denote js ! t"
  by (simp add: denote_append denote_from_nth_old)

lemma denote_Continue:
  "denote (js @ [Continue f cont]) ! length js = and_then (denote js ! f) cont"
  by (simp add: denote_append nth_append)

lemma step_jobs: "pool_step p p' \<Longrightarrow> \<exists>ks. jobs p' = jobs p @ ks"
  by (induction rule: pool_step.induct)
    (auto simp: signal_def submit_eq notify_one_def spurious_wakeup_def worker_step_def run_job_def
      take_task_def shutdown_begin_def shutdown_continue_def
      split: if_splits worker.splits waited.splits option.splits prod.splits stopper.splits)

lemma run_jobs: "run_schedule pool_act ls p = Some p' \<Longrightarrow> \<exists>ks. jobs p' = jobs p @ ks"
proof (induction ls arbitrary: p)
  case (Cons a ls)
  then obtain u where u: "pool_act a p = Some u" "run_schedule pool_act ls u = Some p'"
    by (auto split: option.splits)
  show ?case using Cons.IH [OF u(2)] step_jobs [OF pool_act_step [OF u(1)]] by auto
qed simp

section \<open>Chains\<close>

definition live :: "async_result \<Rightarrow> 'v pool \<Rightarrow> bool" where
  "live a p \<longleftrightarrow> (\<exists>f. inner a = Some f \<and> f < length (jobs p))"

text \<open>The value an \<open>AsyncResult\<close> stands for.\<close>

definition promised :: "async_result \<Rightarrow> 'v pool \<Rightarrow> 'v outcome" where
  "promised a p = denote (jobs p) ! the (inner a)"

lemma then_on_live:
  assumes "live a p" "then_on job a p = Some (Inr b, moved, p')"
  obtains f where "inner a = Some f" "f < length (jobs p)" "b = AsyncResult (length (jobs p))"
    "moved = a\<lparr>inner := None\<rparr>" "submit (job f) p = Inr (length (jobs p), p')"
    "jobs p' = jobs p @ [job f]"
  using assms by (auto simp: live_def then_on_def Let_def submit_eq split: sum.splits)

lemma async_then_promised:
  assumes "live a p" "async_then cont a p = Some (Inr b, moved, p')"
  shows "live b p'" "promised b p' = and_then (promised a p) cont"
proof -
  obtain f where "inner a = Some f" "b = AsyncResult (length (jobs p))"
      "jobs p' = jobs p @ [Continue f cont]"
    using then_on_live [OF assms(1) assms(2) [unfolded async_then_def]] by metis
  then show "live b p'" "promised b p' = and_then (promised a p) cont"
    by (simp_all add: live_def promised_def AsyncResult_def denote_Continue)
qed

lemma async_then_reach:
  assumes "reach pool_init pool_step m p" "live a p" "async_then cont a p = Some (Inr b, moved, p')"
  shows "reach pool_init pool_step (Suc m) p'"
proof -
  obtain f where f: "f < length (jobs p)"
    and s: "submit (Continue f cont) p = Inr (length (jobs p), p')"
    using then_on_live [OF assms(2) assms(3) [unfolded async_then_def]] by metis
  show ?thesis
    by (rule reach.more [OF assms(1) pool_step.submit [OF _ s]]) (simp add: f)
qed

lemma then_chain_promised:
  assumes "reach pool_init pool_step m p" "live a p" "then_chain cs a p = Some (Inr b, p')"
  shows "(\<exists>m. reach pool_init pool_step m p') \<and> live b p' \<and>
    promised b p' = foldl and_then (promised a p) cs"
  using assms
proof (induction cs arbitrary: m a p)
  case Nil
  then show ?case by auto
next
  case (Cons c cs)
  then obtain a' moved u where u: "async_then c a p = Some (Inr a', moved, u)"
      "then_chain cs a' u = Some (Inr b, p')"
    by (auto split: option.splits sum.splits)
  show ?case
    using Cons.IH [OF async_then_reach [OF Cons.prems(1,2) u(1)]
        async_then_promised(1) [OF Cons.prems(2) u(1)] u(2)]
      async_then_promised(2) [OF Cons.prems(2) u(1)] by simp
qed

lemma foldl_and_then_Inl [simp]: "foldl and_then (Inl e) cs = Inl e"
  by (induction cs) auto

lemma reach_run:
  assumes "reach pool_init pool_step m p" "run_schedule pool_act ls p = Some p'"
  shows "reach pool_init pool_step (m + length ls) p'"
  by (rule run_schedule_reach_from [OF _ assms]) (rule pool_act_step)

lemma promised_get:
  assumes reach: "reach pool_init pool_step m p" and live: "live a p"
    and run: "run_schedule pool_act ls p = Some p'" and get: "async_get a p' = Reads (r, a')"
  shows "r = promised a p \<and> \<not> valid a'"
proof -
  obtain f where f: "inner a = Some f" "f < length (jobs p)"
    using live by (auto simp: live_def)
  have r: "results p' f = Some r" "\<not> valid a'"
    using get f by (auto simp: async_get_def valid_def split: option.splits)
  obtain ks where "jobs p' = jobs p @ ks" using run_jobs [OF run] by blast
  then have "r = denote (jobs p) ! f"
    using books_denote [OF books.reach_state [OF reach_run [OF reach run]] r(1)]
      denote_append_nth [OF f(2)] by simp
  then show ?thesis using f r(2) by (simp add: promised_def)
qed

text \<open>
  However a result has been moved, the new owner reads what the old one would have read; a \<open>void\<close>
  result rethrows the same exceptions. The object moved from is no longer valid.
\<close>

lemma async_moves:
  "async_get (fst (async_move a)) p = async_get a p"
  "async_get (fst (async_assign b a)) p = async_get a p"
  "\<not> valid (snd (async_move a))" "\<not> valid (snd (async_assign b a))"
  by (simp_all add: async_move_def async_assign_def valid_def async_get_def split: option.split)

lemma void_get:
  assumes reach: "reach pool_init pool_step m p" and live: "live a p"
    and run: "run_schedule pool_act ls p = Some p'" and get: "async_get_void a p' = Reads (r, a')"
  shows "r = and_then (promised a p) (\<lambda>_. Inr ()) \<and> \<not> valid a'"
  using get promised_get [OF reach live run]
  by (auto simp: async_get_void_def split: reading.splits)

text \<open>
  Reading a live result after any run of the pool: it is never undefined, and it blocks only while
  the pool still has something to do or an outside event is missing.
\<close>

lemma live_get:
  assumes reach: "reach pool_init pool_step m p" and live: "live a p"
    and run: "run_schedule pool_act ls p = Some p'"
  shows "case async_get a p' of
      Undefined_read \<Rightarrow> False
    | Reads (r, a') \<Rightarrow> r = promised a p \<and> \<not> valid a'
    | Blocks \<Rightarrow> \<not> events_done p' \<or> (\<exists>x. internal x \<and> pool_act x p' \<noteq> None)"
proof -
  obtain f where f: "inner a = Some f" "f < length (jobs p)" using live by (auto simp: live_def)
  note r = reach_run [OF reach run]
  have lt: "f < length (jobs p')" using run_jobs [OF run] f(2) by auto
  show ?thesis
  proof (cases "async_get a p'")
    case Undefined_read
    then show ?thesis using f by (simp add: async_get_def split: option.splits)
  next
    case Blocks
    then have "results p' f = None" using f by (simp add: async_get_def split: option.splits)
    moreover have "results p' f = Some (denote (jobs p') ! f)"
      if "events_done p'" "\<forall>i. worker_step i p' = None" "\<forall>i. notify_one i p' = None"
      by (rule quiescent_done [OF books.reach_state [OF r] sync.reach_state [OF r] _ _ _ lt]) (use that in auto)
    ultimately consider "\<not> events_done p'" | i where "pool_act (Do_work i) p' \<noteq> None"
      | i where "pool_act (Do_notify i) p' \<noteq> None"
      by fastforce
    then have "\<not> events_done p' \<or> (\<exists>x. internal x \<and> pool_act x p' \<noteq> None)"
      by cases (auto simp del: pool_act.simps intro: exI [of _ "Do_work _"] exI [of _ "Do_notify _"])
    then show ?thesis using Blocks by simp
  next
    case (Reads x)
    then show ?thesis using promised_get [OF reach live run] by (cases x) simp
  qed
qed

text \<open>The tasks that a chain of \<open>then()\<close> calls submits.\<close>

primrec chain_jobs :: "nat \<Rightarrow> nat \<Rightarrow> ('v \<Rightarrow> 'v outcome) list \<Rightarrow> 'v job list" where
  "chain_jobs f n [] = []"
| "chain_jobs f n (c # cs) = Continue f c # chain_jobs n (Suc n) cs"

lemma then_chain_open:
  assumes "inner a = Some f" "\<not> is_shutdown (pool_queue p)"
  shows "\<exists>b p'. then_chain cs a p = Some (Inr b, p') \<and>
    jobs p' = jobs p @ chain_jobs f (length (jobs p)) cs \<and>
    inner b = Some (if cs = [] then f else length (jobs p) + length cs - 1)"
  using assms
proof (induction cs arbitrary: a f p)
  case (Cons c cs)
  let ?n = "length (jobs p)"
  obtain u where u: "submit (Continue f c) p = Inr (?n, u)" "jobs u = jobs p @ [Continue f c]"
      "\<not> is_shutdown (pool_queue u)"
    using Cons.prems(2) by (auto simp: submit_def push_def is_shutdown_def)
  then have "async_then c a p = Some (Inr (AsyncResult ?n), a\<lparr>inner := None\<rparr>, u)"
    using Cons.prems(1) by (simp add: async_then_def then_on_def Let_def)
  moreover obtain b p' where "then_chain cs (AsyncResult ?n) u = Some (Inr b, p')"
      "jobs p' = jobs u @ chain_jobs ?n (length (jobs u)) cs"
      "inner b = Some (if cs = [] then ?n else length (jobs u) + length cs - 1)"
    using Cons.IH [of "AsyncResult ?n" ?n u] u(3) by (auto simp: AsyncResult_def)
  ultimately show ?case using u(2) by auto
qed simp

section \<open>Properties\<close>

text \<open>
  C9: Chains compute the composition. Attach any list of continuations to a result and let the pool
  run under any schedule, with any other submissions, wake-ups and even a shutdown in between:
  \<open>get()\<close> on the last result is never undefined; what it returns or throws is the outcome of the first
  task passed through the continuations from left to right, an exception skipping all that follow;
  and it blocks only while a worker or a notification can still move (which they can only a bounded
  number of times) or an event outside the pool is missing.
\<close>

lemma then_chain_correct:
  assumes "reach pool_init pool_step m p" and "live a p"
    and "then_chain cs a p = Some (Inr b, p')" and "run_schedule pool_act ls p' = Some p''"
  shows "case async_get b p'' of
      Undefined_read \<Rightarrow> False
    | Reads (r, b') \<Rightarrow> r = foldl and_then (promised a p) cs \<and> \<not> valid b'
    | Blocks \<Rightarrow> \<not> events_done p'' \<or> (\<exists>x. internal x \<and> pool_act x p'' \<noteq> None)"
proof -
  obtain n where n: "reach pool_init pool_step n p'" and b: "live b p'"
    and v: "promised b p' = foldl and_then (promised a p) cs"
    using then_chain_promised [OF assms(1-3)] by blast
  show ?thesis using live_get [OF n b assms(4)] unfolding v .
qed

text \<open>
  C28: What attaching a chain does. On an open pool every \<open>then()\<close> submits one task that waits for
  the one before, and the last result is that of the last of them. On a closed pool the first
  \<open>then()\<close> throws the pool's exception and nothing is submitted, but the result it was called on has
  already been moved away: whatever the pool does later, its value can no longer be read. Also a
  successful \<open>then()\<close> leaves its object without a future.
\<close>

theorem then_chain_attaches:
  assumes "inner a = Some f" and "then_chain (c # cs) a p = Some (q, p')"
    and "async_then c a p = Some (q1, moved, p1)" and "run_schedule pool_act ls p' = Some p''"
  shows "(if is_shutdown (pool_queue p)
      then q = Inl (Runtime_error shut_down_message) \<and> q1 = q \<and> p' = p
      else (\<exists>b. q = Inr b \<and> inner b = Some (length (jobs p) + length cs)) \<and>
        jobs p' = jobs p @ chain_jobs f (length (jobs p)) (c # cs)) \<and>
    \<not> valid moved \<and> async_get moved p'' = Undefined_read"
proof -
  have moved: "moved = a\<lparr>inner := None\<rparr>"
    using assms(1,3) by (auto simp: async_then_def then_on_def Let_def split: sum.splits)
  show ?thesis
  proof (cases "is_shutdown (pool_queue p)")
    case True
    then have "submit (Continue f c) p = Inl (Runtime_error shut_down_message)"
      by (simp add: submit_def push_def is_shutdown_def)
    then have "async_then c a p = Some (Inl (Runtime_error shut_down_message), a\<lparr>inner := None\<rparr>, p)"
      using assms(1) by (simp add: async_then_def then_on_def Let_def)
    then show ?thesis using assms(2,3) True moved by (auto simp: valid_def async_get_def)
  next
    case False
    then show ?thesis
      using then_chain_open [OF assms(1) False, of "c # cs"] assms(2) moved
      by (auto simp: valid_def async_get_def)
  qed
qed

text \<open>
  \<open>then\<close> consumes the result it is called on, on every branch. On an open pool a new task is
  queued whose future is returned; on a closed pool it throws the pool's exception and the pool is
  unchanged, but the future has already been moved away and its value can no longer be read.
\<close>

lemma async_then_consumes:
  assumes "inner a = Some f"
  shows "async_then cont a p =
      (if is_shutdown (pool_queue p)
       then Some (Inl (Runtime_error shut_down_message), \<lparr>inner = None\<rparr>, p)
       else Some (Inr (AsyncResult (length (jobs p))), \<lparr>inner = None\<rparr>,
         snd (projr (submit (Continue f cont) p)))) \<and>
    async_then_void r a p = async_then (\<lambda>_. r) a p \<and>
    async_get \<lparr>inner = None\<rparr> p = (Undefined_read :: ('v outcome \<times> async_result) reading)"
  using assms
  by (cases a)
    (simp add: async_then_def async_then_void_def then_on_def Let_def submit_def push_def
      is_shutdown_def async_get_def)

section \<open>Concrete runs\<close>

definition chain_start :: "nat pool_action list" where
  "chain_start = [Do_submit (Call (Inr 2))]"

definition chain_run :: "nat pool_action list" where
  "chain_run = concat (replicate 3 [Do_work 0, Do_work 0, Do_work 0])"

lemmas chain_eval = chain_start_def chain_run_def pool_defs tq_defs cv_wait_def Let_def
  async_then_def then_on_def AsyncResult_def async_get_def live_def promised_def denote_def
  numeral_3_eq_3

lemma then_chain_correct_witness:
  "\<exists>p p' p'' b b'. run_schedule pool_act chain_start (ThreadPool 1 0) = Some p \<and>
     then_chain [\<lambda>x. Inr (x * 3), \<lambda>x. Inr (x + 1)] (AsyncResult 0) p = Some (Inr b, p') \<and>
     run_schedule pool_act chain_run p' = Some p'' \<and> async_get b p'' = Reads (Inr (7::nat), b')"
proof -
  obtain p p' p'' b r b' where run: "run_schedule pool_act chain_start (ThreadPool 1 0) = Some p"
    and c: "then_chain [\<lambda>x. Inr (x * 3), \<lambda>x. Inr (x + 1)] (AsyncResult 0) p = Some (Inr b, p')"
    and r: "run_schedule pool_act chain_run p' = Some p''" "async_get b p'' = Reads (r, b')"
    and l: "live (AsyncResult 0) p" "promised (AsyncResult 0) p = Inr 2"
    by (simp add: chain_eval)
  have "r = Inr 7"
    using then_chain_correct [OF pool_schedule_reach [OF run] l(1) c r(1)] r(2) l(2) by simp
  then show ?thesis using run c r by blast
qed

lemma async_then_consumes_witness:
  "async_then (\<lambda>x. Inr x) (AsyncResult 0) (demo_pool demo_start) =
     Some (Inl (Runtime_error shut_down_message), \<lparr>inner = None\<rparr>, demo_pool demo_start)"
proof -
  have "is_shutdown (pool_queue (demo_pool demo_start))"
    by (simp add: demo_eval)
  then show ?thesis
    using async_then_consumes [of "AsyncResult 0" 0 "\<lambda>x. Inr x" "demo_pool demo_start" "Inr 0"]
    by (simp add: AsyncResult_def)
qed

theorem then_chain_attaches_witness:
  "\<exists>q moved p. async_then Inr (AsyncResult 0) (demo_pool demo_start) = Some (q, moved, p) \<and>
     then_chain [Inr] (AsyncResult 0) (demo_pool demo_start) = Some (q, p) \<and>
     q = Inl (Runtime_error shut_down_message) \<and> \<not> valid moved \<and> p = demo_pool demo_start"
proof -
  have closed: "is_shutdown (pool_queue (demo_pool demo_start))"
    by (simp add: demo_eval)
  obtain q moved p where "async_then Inr (AsyncResult 0) (demo_pool demo_start) = Some (q, moved, p)"
      "then_chain [Inr] (AsyncResult 0) (demo_pool demo_start) = Some (q, p)"
    using closed by (simp add: async_then_def then_on_def Let_def submit_def push_def is_shutdown_def AsyncResult_def)
  moreover from this have "q = Inl (Runtime_error shut_down_message) \<and> \<not> valid moved \<and> p = demo_pool demo_start"
    using then_chain_attaches [of "AsyncResult 0" 0 Inr "[]" "demo_pool demo_start" q p q moved p "[]" p] closed
    by (simp add: AsyncResult_def)
  ultimately show ?thesis by blast
qed

end
