(* ===== verification/Pipeline.thy ===== *)
theory Pipeline
  imports Async_Result
begin

text \<open>
  \<open>include/ate/pipeline.hpp\<close>: the pipeline builder. The closure that \<open>then\<close> builds is
  kept as data, with exactly the captures of the code; calling it is the function
  \<open>call_chain\<close>. What a moved-from member holds is not specified by C++; the operations take it
  as arguments (\<open>hollow\<close> for a chain, \<open>husk\<close> for a value).
\<close>

section \<open>State\<close>

text \<open>The closure of \<open>then\<close>: \<open>prev_chain\<close> (empty or a closure), \<open>prev_initial\<close>, \<open>f\<close>.\<close>

datatype 'v chain = Stage "'v chain option" 'v "'v \<Rightarrow> 'v outcome"

record 'v pipeline =
  initial_value :: 'v
  stages :: "'v chain option"

fun call_chain :: "'v chain \<Rightarrow> 'v outcome" where
  "call_chain (Stage prev_chain prev_initial f) =
     and_then (case prev_chain of Some c \<Rightarrow> call_chain c | None \<Rightarrow> Inr prev_initial) f"

section \<open>Operations\<close>

definition pipeline_from :: "'v \<Rightarrow> 'v pipeline" where
  "pipeline_from initial = \<lparr>initial_value = initial, stages = None\<rparr>"

definition pipeline_create :: "'v \<Rightarrow> 'v pipeline" where
  "pipeline_create initial = pipeline_from initial"

text \<open>The private constructor that \<open>then\<close> uses, with the value-initialised \<open>T\{\}\<close>, and \<open>set_chain\<close>.\<close>

definition pipeline_new :: "'v \<Rightarrow> 'v pipeline" where
  "pipeline_new dflt = \<lparr>initial_value = dflt, stages = None\<rparr>"

definition set_chain :: "'v chain \<Rightarrow> 'v pipeline \<Rightarrow> 'v pipeline" where
  "set_chain c pl = pl\<lparr>stages := Some c\<rparr>"

text \<open>\<open>then\<close>: the new pipeline (its own initial value is \<open>T\{\}\<close>) and the one moved from.\<close>

definition pipeline_then :: "'v \<Rightarrow> 'v chain option \<Rightarrow> 'v \<Rightarrow> ('v \<Rightarrow> 'v outcome) \<Rightarrow> 'v pipeline
    \<Rightarrow> 'v pipeline \<times> 'v pipeline" where
  "pipeline_then dflt hollow husk f pl =
     (set_chain (Stage (stages pl) (initial_value pl) f) (pipeline_new dflt),
      pl\<lparr>stages := hollow, initial_value := husk\<rparr>)"

definition pipeline_run :: "'v chain option \<Rightarrow> 'v \<Rightarrow> 'v pipeline \<Rightarrow> 'v pool
    \<Rightarrow> (nat \<times> 'v pool) outcome \<times> 'v pipeline" where
  "pipeline_run hollow husk pl p =
     (case stages pl of
        Some chain \<Rightarrow> (submit (Call (call_chain chain)) p, pl\<lparr>stages := hollow\<rparr>)
      | None \<Rightarrow> (submit (Call (Inr (initial_value pl))) p, pl\<lparr>initial_value := husk\<rparr>))"

text \<open>\<open>create(pool, x).then(f1)...then(fn)\<close>.\<close>

definition pipeline_build :: "'v \<Rightarrow> 'v chain option \<Rightarrow> 'v \<Rightarrow> 'v \<Rightarrow> ('v \<Rightarrow> 'v outcome) list
    \<Rightarrow> 'v pipeline" where
  "pipeline_build dflt hollow husk x fs =
     foldl (\<lambda>pl f. fst (pipeline_then dflt hollow husk f pl)) (pipeline_create x) fs"

section \<open>What a pipeline computes\<close>

definition pipeline_value :: "'v pipeline \<Rightarrow> 'v outcome" where
  "pipeline_value pl = (case stages pl of Some c \<Rightarrow> call_chain c | None \<Rightarrow> Inr (initial_value pl))"

lemma pipeline_value_then:
  "pipeline_value (fst (pipeline_then dflt hollow husk f pl)) = and_then (pipeline_value pl) f"
  by (simp add: pipeline_value_def pipeline_then_def set_chain_def pipeline_new_def split: option.splits)

lemma pipeline_value_build:
  "pipeline_value (pipeline_build dflt hollow husk x fs) = foldl and_then (Inr x) fs"
proof -
  have "pipeline_value (foldl (\<lambda>pl f. fst (pipeline_then dflt hollow husk f pl)) pl fs) =
      foldl and_then (pipeline_value pl) fs" for pl
    by (induction fs arbitrary: pl) (simp_all add: pipeline_value_then)
  then show ?thesis
    by (simp add: pipeline_build_def pipeline_create_def pipeline_from_def pipeline_value_def)
qed

lemma pipeline_run_submits:
  "fst (pipeline_run hollow husk pl p) = submit (Call (pipeline_value pl)) p"
  by (simp add: pipeline_run_def pipeline_value_def split: option.splits)

text \<open>The future of a callable that has just been submitted.\<close>

lemma submitted_result:
  assumes "reach pool_init pool_step m p" "submit (Call v) p = Inr (f, p')"
    and "run_schedule pool_act ls p' = Some p''"
  shows "case results p'' f of
      Some r \<Rightarrow> r = v
    | None \<Rightarrow> \<not> events_done p'' \<or> (\<exists>x. internal x \<and> pool_act x p'' \<noteq> None)"
proof -
  have j: "jobs p' = jobs p @ [Call v]" "f = length (jobs p)"
    using assms(2) by (auto simp: submit_eq)
  have r: "reach pool_init pool_step (Suc m) p'"
    by (rule reach.more [OF assms(1) pool_step.submit [OF _ assms(2)]]) simp
  have live: "live (AsyncResult f) p'"
    using j by (simp add: live_def AsyncResult_def)
  have v: "promised (AsyncResult f) p' = v"
    using j by (simp add: promised_def AsyncResult_def denote_append nth_append)
  show ?thesis
    using live_get [OF r live assms(3)] unfolding v
    by (simp add: async_get_def AsyncResult_def split: option.splits)
qed

section \<open>Properties\<close>

text \<open>
  C29: A pipeline computes the composition of its stages. \<open>run()\<close> on an open pool submits exactly
  one task, which holds the whole chain, and whatever schedule the pool then follows, the future
  delivers the initial value passed through the stages in the order of the \<open>then\<close> calls; the
  first stage that throws ends the chain and its exception is what the future rethrows. The future is
  unset only while the pool can still move or an outside event is missing.
\<close>

lemma pipeline_run_correct:
  assumes "reach pool_init pool_step m p"
    and "pipeline_run hollow husk (pipeline_build dflt hollow husk x fs) p = (Inr (f, p'), pl')"
    and "run_schedule pool_act ls p' = Some p''"
  shows "length (jobs p') = length (jobs p) + 1 \<and>
    (case results p'' f of
       Some r \<Rightarrow> r = foldl and_then (Inr x) fs
     | None \<Rightarrow> \<not> events_done p'' \<or> (\<exists>x. internal x \<and> pool_act x p'' \<noteq> None))"
proof -
  have s: "submit (Call (foldl and_then (Inr x) fs)) p = Inr (f, p')"
    using pipeline_run_submits [of hollow husk "pipeline_build dflt hollow husk x fs" p] assms(2)
    by (simp add: pipeline_value_build)
  show ?thesis
    using submitted_result [OF assms(1) s assms(3)] s by (simp add: submit_eq)
qed

text \<open>
  C30: A pipeline and a chain of \<open>AsyncResult::then\<close> calls with the same stages promise the same
  outcome, but the pipeline occupies one task of the pool where the chain occupies one per stage
  and one more: the stages of a pipeline never run concurrently or as tasks of their own.
\<close>

lemma pipeline_equals_then_chain:
  assumes "reach pool_init pool_step m p"
    and "pipeline_run hollow husk (pipeline_build dflt hollow husk x fs) p = (Inr (f, p1), pl')"
    and "submit_async (Call (Inr x)) p = Inr (a, p2)"
    and "then_chain fs a p2 = Some (Inr b, p3)"
  shows "denote (jobs p1) ! f = promised b p3 \<and>
    length (jobs p1) = length (jobs p) + 1 \<and> length (jobs p3) = length (jobs p) + 1 + length fs"
proof -
  have s: "submit (Call (foldl and_then (Inr x) fs)) p = Inr (f, p1)"
    using pipeline_run_submits [of hollow husk "pipeline_build dflt hollow husk x fs" p] assms(2)
    by (simp add: pipeline_value_build)
  have p2: "submit (Call (Inr x)) p = Inr (length (jobs p), p2)" "a = AsyncResult (length (jobs p))"
      "jobs p2 = jobs p @ [Call (Inr x)]"
    using assms(3) by (auto simp: submit_async_def submit_eq and_then_def split: sum.splits)
  have r2: "reach pool_init pool_step (Suc m) p2"
    by (rule reach.more [OF assms(1) pool_step.submit [OF _ p2(1)]]) simp
  have live: "live a p2" using p2 by (simp add: live_def AsyncResult_def)
  have "promised a p2 = Inr x"
    using p2 by (simp add: promised_def AsyncResult_def denote_append nth_append)
  then have "promised b p3 = foldl and_then (Inr x) fs"
    using then_chain_promised [OF r2 live assms(4)] by simp
  moreover have "length (jobs p3) = length (jobs p2) + length fs"
    using live assms(4)
  proof (induction fs arbitrary: a p2)
    case (Cons c cs)
    then obtain a' moved u where u: "async_then c a p2 = Some (Inr a', moved, u)"
        "then_chain cs a' u = Some (Inr b, p3)"
      by (auto split: option.splits sum.splits)
    have "length (jobs u) = length (jobs p2) + 1"
      using then_on_live [OF Cons.prems(1) u(1) [unfolded async_then_def]] by (metis length_append_singleton Suc_eq_plus1)
    then show ?case
      using Cons.IH [OF async_then_promised(1) [OF Cons.prems(1) u(1)] u(2)] by simp
  qed simp
  ultimately show ?thesis
    using s p2(3) by (auto simp: submit_eq denote_append nth_append)
qed

text \<open>
  Running a pipeline twice. A moved-from \<open>std::move_only_function\<close> is empty in practice;
  then a second \<open>run()\<close> of a pipeline with stages does not fail: it submits a task that delivers
  the value-initialised \<open>T\{\}\<close> instead of the pipeline's result.
\<close>

lemma pipeline_second_run:
  "let (r1, pl1) = pipeline_run None husk (pipeline_build dflt None husk x (fs @ [f])) p
   in fst (pipeline_run None husk pl1 q) = submit (Call (Inr dflt)) q"
  by (simp add: pipeline_run_def pipeline_build_def pipeline_then_def set_chain_def pipeline_new_def)

section \<open>Concrete runs\<close>

definition pipe_work :: "nat pool_action list" where
  "pipe_work = [Do_work 0, Do_work 0, Do_work 0]"

definition pipe_fs :: "(nat \<Rightarrow> nat outcome) list" where
  "pipe_fs = [\<lambda>x. Inr (x * 2), \<lambda>x. Inr (x + 10)]"

lemmas pipe_eval = pipe_work_def pipe_fs_def pipeline_run_def pipeline_build_def
  pipeline_create_def pipeline_from_def pipeline_then_def set_chain_def pipeline_new_def submit_async_def chain_eval

lemma pool_start_reach: "reach pool_init pool_step 0 (ThreadPool n hw)"
  by (rule reach.start) (rule pool_init.intros)

lemma pipeline_run_correct_witness:
  "\<exists>p' pl' p''. pipeline_run None 0 (pipeline_build 0 None 0 42 pipe_fs) (ThreadPool 1 0)
      = (Inr (0, p'), pl') \<and> run_schedule pool_act pipe_work p' = Some p'' \<and>
      results p'' 0 = Some (Inr 94)"
proof -
  obtain p' pl' p'' r where
    *: "pipeline_run None 0 (pipeline_build 0 None 0 42 pipe_fs) (ThreadPool 1 0)
      = (Inr (0, p'), pl')" "run_schedule pool_act pipe_work p' = Some p''" "results p'' 0 = Some r"
    by (simp add: pipe_eval)
  have "r = Inr 94"
    using pipeline_run_correct [OF pool_start_reach *(1,2)] *(3) by (simp add: pipe_fs_def)
  then show ?thesis using * by blast
qed

lemma pipeline_equals_then_chain_witness:
  "\<exists>p1 pl' a p2 b p3. pipeline_run None 0 (pipeline_build 0 None 0 42 pipe_fs) (ThreadPool 1 0)
      = (Inr (0, p1), pl') \<and> submit_async (Call (Inr 42)) (ThreadPool 1 0) = Inr (a, p2) \<and>
      then_chain pipe_fs a p2 = Some (Inr b, p3) \<and> length (jobs p1) = 1 \<and> length (jobs p3) = 3"
proof -
  obtain p1 pl' a p2 b p3 where
    *: "pipeline_run None 0 (pipeline_build 0 None 0 42 pipe_fs) (ThreadPool 1 0)
      = (Inr (0, p1), pl')" "submit_async (Call (Inr 42)) (ThreadPool 1 0) = Inr (a, p2)"
      "then_chain pipe_fs a p2 = Some (Inr b, p3)"
    by (simp add: pipe_eval)
  have "length (jobs (ThreadPool 1 0 :: nat pool)) = 0" "length pipe_fs = 2"
    by (simp_all add: pipe_eval)
  then have "length (jobs p1) = 1 \<and> length (jobs p3) = 3"
    using pipeline_equals_then_chain [OF pool_start_reach *] by simp
  then show ?thesis using * by blast
qed

end
