(* ===== verification/Logger.thy ===== *)
theory Logger
  imports Prelude "HOL-Library.Sublist"
begin

text \<open>
  \<open>include/ate/logger.hpp\<close>: the asynchronous logger as a step relation of its drain thread, any
  number of client threads that log and flush, and the thread that destroys it. One step is one
  critical section of the logger's mutex, one access to an atomic, or one call of the sink.
\<close>

section \<open>Levels and entries\<close>

datatype LogLevel =
  Level_Trace | Level_Debug | Level_Info | Level_Warn | Level_Error | Level_Fatal

primrec log_level_value :: "LogLevel \<Rightarrow> int" where
  "log_level_value Level_Trace = 0"
| "log_level_value Level_Debug = 1"
| "log_level_value Level_Info = 2"
| "log_level_value Level_Warn = 3"
| "log_level_value Level_Error = 4"
| "log_level_value Level_Fatal = 5"

lemma log_level_value_inject [simp]: "log_level_value a = log_level_value b \<longleftrightarrow> a = b"
  by (cases a; cases b) simp_all

instantiation LogLevel :: linorder
begin

definition less_eq_LogLevel :: "LogLevel \<Rightarrow> LogLevel \<Rightarrow> bool" where
  "less_eq_LogLevel a b \<longleftrightarrow> log_level_value a \<le> log_level_value b"

definition less_LogLevel :: "LogLevel \<Rightarrow> LogLevel \<Rightarrow> bool" where
  "less_LogLevel a b \<longleftrightarrow> log_level_value a < log_level_value b"

instance
  by standard (auto simp: less_eq_LogLevel_def less_LogLevel_def)

end

primrec level_string :: "LogLevel \<Rightarrow> string" where
  "level_string Level_Trace = ''TRACE''"
| "level_string Level_Debug = ''DEBUG''"
| "level_string Level_Info = ''INFO ''"
| "level_string Level_Warn = ''WARN ''"
| "level_string Level_Error = ''ERROR''"
| "level_string Level_Fatal = ''FATAL''"

text \<open>The timestamp counts the ticks (nanoseconds) of the steady clock since its epoch.\<close>

record log_entry =
  level :: LogLevel
  message :: string
  timestamp :: nat
  thread_id :: nat

section \<open>State\<close>

record logger =
  min_level :: LogLevel
  running :: bool
  entries :: "log_entry list"
  flush_gen_pending :: uint64
  flush_gen_done :: uint64

text \<open>
  Where the drain thread is. \<open>Writing batch pending\<close> has the entries it still has to hand to
  the sink; with an empty batch it is about to publish \<open>pending\<close>. \<open>Sink_threw batch\<close>: the sink has
  thrown when it was given the first entry of \<open>batch\<close>, and \<open>std::terminate\<close> is under way.
\<close>

datatype drain_pc =
  Check_running | Check_empty | Wait_batch | Writing "log_entry list" uint64
  | Notify_flushers | Drain_exited | Sink_threw "log_entry list"

text \<open>
  Where a client is. The flag of a flush tells whether it is the one inside the destructor, which
  goes on to stop and join the drain thread.
\<close>

datatype client =
  Outside | Log_push log_entry | Flush_wait bool uint64 | Flush_asleep bool uint64
  | Stop_due | Joining | Destroyed

text \<open>
  \<open>written\<close> is what the sink has received. \<open>accepted\<close> (every entry ever queued) and
  \<open>mark\<close> (how many entries had been accepted when a client began its flush) are history;
  \<open>closing\<close> tells that the destructor has been entered.
\<close>

record log_sys =
  lg :: logger
  drain :: drain_pc
  clients :: "nat \<Rightarrow> client"
  closing :: bool
  accepted :: "log_entry list"
  written :: "log_entry list"
  mark :: "nat \<Rightarrow> nat"

definition Logger :: "LogLevel \<Rightarrow> logger" where
  "Logger lvl = \<lparr>min_level = lvl, running = True, entries = [], flush_gen_pending = 0,
     flush_gen_done = 0\<rparr>"

definition log_start :: "LogLevel \<Rightarrow> log_sys" where
  [log_defs]: "log_start lvl = \<lparr>lg = Logger lvl, drain = Check_running, clients = (\<lambda>_. Outside),
     closing = False, accepted = [], written = [], mark = (\<lambda>_. 0)\<rparr>"

section \<open>Client operations\<close>

definition set_client :: "nat \<Rightarrow> client \<Rightarrow> log_sys \<Rightarrow> log_sys" where
  "set_client c k s = s\<lparr>clients := (clients s)(c := k)\<rparr>"

text \<open>
  \<open>log\<close> up to its critical section: a message below the threshold is dropped. No member
  function may be called once the destructor has begun.
\<close>

definition log_begin :: "nat \<Rightarrow> LogLevel \<Rightarrow> string \<Rightarrow> nat \<Rightarrow> log_sys \<Rightarrow> log_sys option" where
  [log_defs]: "log_begin c lvl msg now s =
     (if clients s c \<noteq> Outside \<or> closing s then None
      else if lvl < min_level (lg s) then Some s
      else Some (set_client c
        (Log_push \<lparr>level = lvl, message = msg, timestamp = now, thread_id = c\<rparr>) s))"

definition log_push :: "nat \<Rightarrow> log_sys \<Rightarrow> log_sys option" where
  [log_defs]: "log_push c s =
     (case clients s c of
        Log_push entry \<Rightarrow> Some (set_client c Outside
          (s\<lparr>lg := (lg s)\<lparr>entries := entries (lg s) @ [entry]\<rparr>, accepted := accepted s @ [entry]\<rparr>))
      | _ \<Rightarrow> None)"

definition log_trace :: "nat \<Rightarrow> string \<Rightarrow> nat \<Rightarrow> log_sys \<Rightarrow> log_sys option" where
  "log_trace c = log_begin c Level_Trace"

definition log_debug :: "nat \<Rightarrow> string \<Rightarrow> nat \<Rightarrow> log_sys \<Rightarrow> log_sys option" where
  "log_debug c = log_begin c Level_Debug"

definition log_info :: "nat \<Rightarrow> string \<Rightarrow> nat \<Rightarrow> log_sys \<Rightarrow> log_sys option" where
  "log_info c = log_begin c Level_Info"

definition log_warn :: "nat \<Rightarrow> string \<Rightarrow> nat \<Rightarrow> log_sys \<Rightarrow> log_sys option" where
  "log_warn c = log_begin c Level_Warn"

definition log_error :: "nat \<Rightarrow> string \<Rightarrow> nat \<Rightarrow> log_sys \<Rightarrow> log_sys option" where
  "log_error c = log_begin c Level_Error"

definition log_fatal :: "nat \<Rightarrow> string \<Rightarrow> nat \<Rightarrow> log_sys \<Rightarrow> log_sys option" where
  "log_fatal c = log_begin c Level_Fatal"

definition set_level :: "nat \<Rightarrow> LogLevel \<Rightarrow> log_sys \<Rightarrow> log_sys option" where
  [log_defs]: "set_level c lvl s =
     (if clients s c \<noteq> Outside \<or> closing s then None
      else Some (s\<lparr>lg := (lg s)\<lparr>min_level := lvl\<rparr>\<rparr>))"

text \<open>\<open>flush\<close>: ask for a new generation, then wait until it is done.\<close>

definition flush_request :: "bool \<Rightarrow> nat \<Rightarrow> log_sys \<Rightarrow> log_sys" where
  [log_defs]: "flush_request dtor c s =
     (let target = flush_gen_pending (lg s) + 1 in
      set_client c (Flush_wait dtor target)
        (s\<lparr>lg := (lg s)\<lparr>flush_gen_pending := target\<rparr>, mark := (mark s)(c := length (accepted s))\<rparr>))"

definition flush_begin :: "nat \<Rightarrow> log_sys \<Rightarrow> log_sys option" where
  [log_defs]: "flush_begin c s =
     (if clients s c \<noteq> Outside \<or> closing s then None else Some (flush_request False c s))"

text \<open>One evaluation of the wait of a flush: return (into the destructor's rest) or sleep.\<close>

definition flush_eval :: "nat \<Rightarrow> log_sys \<Rightarrow> log_sys option" where
  [log_defs]: "flush_eval c s =
     (case clients s c of
        Flush_wait dtor target \<Rightarrow>
          Some (set_client c
            (if flush_gen_done (lg s) \<ge> target then (if dtor then Stop_due else Outside)
             else Flush_asleep dtor target) s)
      | _ \<Rightarrow> None)"

fun wake_client :: "client \<Rightarrow> client" where
  "wake_client (Flush_asleep dtor target) = Flush_wait dtor target"
| "wake_client k = k"

definition flush_spurious :: "nat \<Rightarrow> log_sys \<Rightarrow> log_sys option" where
  [log_defs]: "flush_spurious c s =
     (case clients s c of
        Flush_asleep dtor target \<Rightarrow> Some (set_client c (Flush_wait dtor target) s)
      | _ \<Rightarrow> None)"

text \<open>
  The destructor: flush, clear \<open>running_\<close>, join the drain thread. It may be called only when no
  other thread is inside the logger.
\<close>

definition destroy_begin :: "nat \<Rightarrow> log_sys \<Rightarrow> log_sys" where
  [log_defs]: "destroy_begin c s = (flush_request True c s)\<lparr>closing := True\<rparr>"

definition destroy_stop :: "nat \<Rightarrow> log_sys \<Rightarrow> log_sys option" where
  [log_defs]: "destroy_stop c s =
     (if clients s c = Stop_due
      then Some (set_client c Joining (s\<lparr>lg := (lg s)\<lparr>running := False\<rparr>\<rparr>)) else None)"

definition destroy_join :: "nat \<Rightarrow> log_sys \<Rightarrow> log_sys option" where
  [log_defs]: "destroy_join c s =
     (if clients s c = Joining \<and> drain s = Drain_exited
      then Some (set_client c Destroyed s) else None)"

section \<open>The drain thread\<close>

text \<open>
  The timed wait for work returns after 10 ms at the latest, so a batch, possibly empty, can
  always be taken.
\<close>

definition drain_step :: "log_sys \<Rightarrow> log_sys option" where
  "drain_step s =
     (case drain s of
        Check_running \<Rightarrow> Some (s\<lparr>drain := if running (lg s) then Wait_batch else Check_empty\<rparr>)
      | Check_empty \<Rightarrow> Some (s\<lparr>drain := if entries (lg s) \<noteq> [] then Wait_batch else Drain_exited\<rparr>)
      | Wait_batch \<Rightarrow>
          Some (s\<lparr>drain := Writing (entries (lg s)) (flush_gen_pending (lg s)),
            lg := (lg s)\<lparr>entries := []\<rparr>\<rparr>)
      | Writing (entry # batch) pending \<Rightarrow>
          Some (s\<lparr>drain := Writing batch pending, written := written s @ [entry]\<rparr>)
      | Writing [] pending \<Rightarrow>
          Some (s\<lparr>drain := Notify_flushers, lg := (lg s)\<lparr>flush_gen_done := pending\<rparr>\<rparr>)
      | Notify_flushers \<Rightarrow>
          Some (s\<lparr>drain := Check_running, clients := (\<lambda>c. wake_client (clients s c))\<rparr>)
      | Drain_exited \<Rightarrow> None
      | Sink_threw batch \<Rightarrow> None)"

text \<open>
  A sink given by the user may throw instead of writing. Nothing catches that: it leaves the function
  of the thread, which ends the process; the other threads may still go on for a while.
\<close>

definition sink_throws :: "log_sys \<Rightarrow> log_sys option" where
  "sink_throws s =
     (case drain s of
        Writing (entry # batch) pending \<Rightarrow> Some (s\<lparr>drain := Sink_threw (entry # batch)\<rparr>)
      | _ \<Rightarrow> None)"

section \<open>The step relation\<close>

inductive log_step :: "log_sys \<Rightarrow> log_sys \<Rightarrow> bool" where
  log_begin: "log_begin c lvl msg now s = Some t \<Longrightarrow> log_step s t"
| log_push: "log_push c s = Some t \<Longrightarrow> log_step s t"
| set_level: "set_level c lvl s = Some t \<Longrightarrow> log_step s t"
| flush_begin: "flush_begin c s = Some t \<Longrightarrow> log_step s t"
| flush_eval: "flush_eval c s = Some t \<Longrightarrow> log_step s t"
| flush_spurious: "flush_spurious c s = Some t \<Longrightarrow> log_step s t"
| destroy_begin: "(\<And>d. clients s d = Outside) \<Longrightarrow> \<not> closing s \<Longrightarrow> log_step s (destroy_begin c s)"
| destroy_stop: "destroy_stop c s = Some t \<Longrightarrow> log_step s t"
| destroy_join: "destroy_join c s = Some t \<Longrightarrow> log_step s t"
| drain: "drain_step s = Some t \<Longrightarrow> log_step s t"
| sink_throws: "sink_throws s = Some t \<Longrightarrow> log_step s t"

inductive log_init :: "log_sys \<Rightarrow> bool" where
  "log_init (log_start lvl)"

end
