(* ===== verification/Logger_Correct.thy ===== *)
theory Logger_Correct
  imports Logger
begin

text \<open>
  What the logger guarantees in every interleaving: entries reach the sink exactly once and in the
  order in which they were queued, a flush that returns has seen everything logged before it to
  the sink, the destructor loses nothing, and the drain thread alone completes every flush. The
  generation counters have 64 bits; the invariant is indexed by the number of steps, which bounds
  them.
\<close>

section \<open>The invariant\<close>

fun in_flight :: "drain_pc \<Rightarrow> log_entry list" where
  "in_flight (Writing batch pending) = batch"
| "in_flight (Sink_threw batch) = batch"
| "in_flight _ = []"

fun publishing :: "drain_pc \<Rightarrow> uint64 option" where
  "publishing (Writing batch pending) = Some pending"
| "publishing _ = None"

fun flush_target :: "client \<Rightarrow> uint64 option" where
  "flush_target (Flush_wait dtor target) = Some target"
| "flush_target (Flush_asleep dtor target) = Some target"
| "flush_target _ = None"

lemma flush_target_wake [simp]: "flush_target (wake_client k) = flush_target k"
  by (cases k) auto

text \<open>\<open>m\<close> entries had been accepted when the flush for generation \<open>target\<close> began.\<close>

definition flush_ok :: "log_sys \<Rightarrow> uint64 \<Rightarrow> nat \<Rightarrow> bool" where
  "flush_ok s target m \<longleftrightarrow>
     target \<le> flush_gen_pending (lg s) \<and> m \<le> length (accepted s) \<and>
     (target \<le> flush_gen_done (lg s) \<longrightarrow> m \<le> length (written s)) \<and>
     (\<forall>pending. publishing (drain s) = Some pending \<longrightarrow> target \<le> pending \<longrightarrow>
        m \<le> length (written s) + length (in_flight (drain s)))"

definition closed_ok :: "log_sys \<Rightarrow> bool" where
  "closed_ok s \<longleftrightarrow>
     (if closing s
      then (\<exists>c. (\<forall>d. d \<noteq> c \<longrightarrow> clients s d = Outside) \<and>
        (clients s c = Joining \<or> clients s c = Destroyed \<or>
         running (lg s) \<and> (clients s c = Stop_due \<or>
           (\<exists>t. clients s c = Flush_wait True t \<or> clients s c = Flush_asleep True t))))
      else running (lg s) \<and> (\<forall>c. clients s c = Outside \<or> (\<exists>e. clients s c = Log_push e) \<or>
        (\<exists>t. clients s c = Flush_wait False t \<or> clients s c = Flush_asleep False t)))"

definition log_inv :: "nat \<Rightarrow> log_sys \<Rightarrow> bool" where
  "log_inv n s \<longleftrightarrow>
     unat (flush_gen_pending (lg s)) \<le> n \<and>
     flush_gen_done (lg s) \<le> flush_gen_pending (lg s) \<and>
     (\<forall>pending. publishing (drain s) = Some pending \<longrightarrow> pending \<le> flush_gen_pending (lg s)) \<and>
     accepted s = written s @ in_flight (drain s) @ entries (lg s) \<and>
     (\<forall>c target. flush_target (clients s c) = Some target \<longrightarrow> flush_ok s target (mark s c)) \<and>
     (\<forall>c dtor target. clients s c = Flush_asleep dtor target \<longrightarrow>
        flush_gen_done (lg s) < target \<or> drain s = Notify_flushers) \<and>
     closed_ok s \<and>
     (drain s = Check_empty \<longrightarrow> \<not> running (lg s)) \<and>
     (drain s = Drain_exited \<longrightarrow> \<not> running (lg s) \<and> entries (lg s) = [])"

lemma wake_client_eq [simp]:
  "wake_client k = Outside \<longleftrightarrow> k = Outside" "wake_client k = Log_push e \<longleftrightarrow> k = Log_push e"
  "wake_client k = Joining \<longleftrightarrow> k = Joining" "wake_client k = Destroyed \<longleftrightarrow> k = Destroyed"
  "wake_client k = Stop_due \<longleftrightarrow> k = Stop_due" "wake_client k \<noteq> Flush_asleep d t"
  "wake_client k = Flush_wait d t \<longleftrightarrow> k = Flush_wait d t \<or> k = Flush_asleep d t"
  by (cases k; auto)+

lemma closed_ok_frame [simp]:
  "closed_ok (s\<lparr>drain := k\<rparr>) \<longleftrightarrow> closed_ok s"
  "closed_ok (s\<lparr>drain := k, written := w\<rparr>) \<longleftrightarrow> closed_ok s"
  "closed_ok (s\<lparr>drain := k, lg := (lg s)\<lparr>entries := q\<rparr>\<rparr>) \<longleftrightarrow> closed_ok s"
  "closed_ok (s\<lparr>drain := k, lg := (lg s)\<lparr>flush_gen_done := g\<rparr>\<rparr>) \<longleftrightarrow> closed_ok s"
  by (simp_all add: closed_ok_def)

lemma closed_ok_wake: "closed_ok s \<Longrightarrow> closed_ok (s\<lparr>drain := k, clients := (\<lambda>c. wake_client (clients s c))\<rparr>)"
  unfolding closed_ok_def by (simp split: if_splits)

lemma closed_ok_cases:
  assumes "closed_ok s" "clients s c \<noteq> Outside"
  shows "if closing s
    then (\<forall>d. d \<noteq> c \<longrightarrow> clients s d = Outside) \<and>
      (clients s c = Joining \<or> clients s c = Destroyed \<or>
       running (lg s) \<and> (clients s c = Stop_due \<or>
         (\<exists>t. clients s c = Flush_wait True t \<or> clients s c = Flush_asleep True t)))
    else running (lg s) \<and> ((\<exists>e. clients s c = Log_push e) \<or>
      (\<exists>t. clients s c = Flush_wait False t \<or> clients s c = Flush_asleep False t))"
proof (cases "closing s")
  case True
  then obtain b where b: "\<forall>d. d \<noteq> b \<longrightarrow> clients s d = Outside"
      "clients s b = Joining \<or> clients s b = Destroyed \<or>
       running (lg s) \<and> (clients s b = Stop_due \<or>
         (\<exists>t. clients s b = Flush_wait True t \<or> clients s b = Flush_asleep True t))"
    using assms(1) by (auto simp: closed_ok_def)
  then have "b = c" using assms(2) by auto
  then show ?thesis using True b by simp
next
  case False
  then show ?thesis using assms by (auto simp: closed_ok_def)
qed

lemma closed_ok_running: "closed_ok s \<Longrightarrow> flush_target (clients s c) = Some t \<Longrightarrow> running (lg s)"
  using closed_ok_cases [of s c] by (cases "clients s c") (auto split: if_splits)

lemma closed_ok_open: "closed_ok s \<Longrightarrow> clients s c = Log_push e \<Longrightarrow> \<not> closing s \<and> running (lg s)"
  using closed_ok_cases [of s c] by (auto split: if_splits)

lemma closed_ok_flush:
  assumes "closed_ok s" "clients s c = Flush_wait d t \<or> clients s c = Flush_asleep d t"
  shows "running (lg s)" "d = closing s"
  using closed_ok_cases [of s c] assms by (auto split: if_splits)

lemma log_inv_init: "log_init s \<Longrightarrow> log_inv 0 s"
  by (auto simp: log_init.simps log_defs Logger_def log_inv_def closed_ok_def)

lemma log_inv_drain:
  assumes inv: "log_inv n s" and step: "drain_step s = Some t"
  shows "log_inv (Suc n) t"
proof (cases "drain s")
  case Check_running
  then have "t = s\<lparr>drain := if running (lg s) then Wait_batch else Check_empty\<rparr>"
    using step by (simp add: drain_step_def)
  then show ?thesis
    using inv Check_running by (auto simp: log_inv_def flush_ok_def)
next
  case Check_empty
  then have "t = s\<lparr>drain := if entries (lg s) \<noteq> [] then Wait_batch else Drain_exited\<rparr>"
    using step by (simp add: drain_step_def)
  then show ?thesis
    using inv Check_empty by (auto simp: log_inv_def flush_ok_def)
next
  case Wait_batch
  then have "t = s\<lparr>drain := Writing (entries (lg s)) (flush_gen_pending (lg s)),
      lg := (lg s)\<lparr>entries := []\<rparr>\<rparr>"
    using step by (simp add: drain_step_def)
  then show ?thesis
    using inv Wait_batch by (auto simp: log_inv_def flush_ok_def)
next
  case (Writing batch pending)
  show ?thesis
  proof (cases batch)
    case Nil
    then have "t = s\<lparr>drain := Notify_flushers, lg := (lg s)\<lparr>flush_gen_done := pending\<rparr>\<rparr>"
      using step Writing by (simp add: drain_step_def)
    then show ?thesis
      using inv Writing Nil by (auto simp: log_inv_def flush_ok_def)
  next
    case (Cons e rest)
    then have "t = s\<lparr>drain := Writing rest pending, written := written s @ [e]\<rparr>"
      using step Writing by (simp add: drain_step_def)
    then show ?thesis
      using inv Writing Cons by (auto simp: log_inv_def flush_ok_def intro: le_SucI)
  qed
next
  case Notify_flushers
  then have "t = s\<lparr>drain := Check_running, clients := (\<lambda>c. wake_client (clients s c))\<rparr>"
    using step by (simp add: drain_step_def)
  then show ?thesis
    using inv Notify_flushers closed_ok_wake [of s Check_running]
    by (auto simp: log_inv_def flush_ok_def)
next
  case Drain_exited
  then show ?thesis using step by (simp add: drain_step_def)
next
  case (Sink_threw batch)
  then show ?thesis using step by (simp add: drain_step_def)
qed

lemma log_inv_throws:
  assumes "log_inv n s" "sink_throws s = Some t"
  shows "log_inv (Suc n) t"
  using assms
  by (auto simp: sink_throws_def log_inv_def flush_ok_def split: drain_pc.splits list.splits)

text \<open>Steps of a client that touch only its own control point.\<close>

lemma log_inv_client:
  assumes inv: "log_inv n s" and closed: "closed_ok (set_client c k s)"
    and target: "\<And>t. flush_target k = Some t \<Longrightarrow> flush_target (clients s c) = Some t"
    and asleep: "\<And>d t. k = Flush_asleep d t \<Longrightarrow> flush_gen_done (lg s) < t"
  shows "log_inv (Suc n) (set_client c k s)"
  using assms unfolding log_inv_def set_client_def
  by (auto simp: flush_ok_def split: if_splits)

lemma closed_ok_client:
  assumes "closed_ok s"
    and "clients s c \<noteq> Outside \<or> \<not> closing s"
    and "if closing s then k = Joining \<or> k = Destroyed \<or> running (lg s) \<and>
        (k = Stop_due \<or> (\<exists>t. k = Flush_wait True t \<or> k = Flush_asleep True t))
      else k = Outside \<or> (\<exists>e. k = Log_push e) \<or>
        (\<exists>t. k = Flush_wait False t \<or> k = Flush_asleep False t)"
  shows "closed_ok (set_client c k s)"
proof (cases "closing s")
  case True
  then show ?thesis
    using closed_ok_cases [OF assms(1), of c] assms(2,3)
    by (auto simp: closed_ok_def set_client_def intro!: exI [of _ c])
next
  case False
  then show ?thesis
    using assms by (auto simp: closed_ok_def set_client_def)
qed

lemma log_inv_eval:
  assumes inv: "log_inv n s" and step: "flush_eval c s = Some t"
  shows "log_inv (Suc n) t"
proof -
  obtain dtor target where c: "clients s c = Flush_wait dtor target"
    using step by (auto simp: flush_eval_def split: client.splits)
  then have t: "t = set_client c (if flush_gen_done (lg s) \<ge> target
      then (if dtor then Stop_due else Outside) else Flush_asleep dtor target) s"
    using step by (simp add: flush_eval_def)
  have closed: "closed_ok s" using inv by (simp add: log_inv_def)
  have r: "running (lg s)" and d: "dtor = closing s"
    using closed_ok_flush [OF closed] c by blast+
  show ?thesis
    unfolding t
    by (rule log_inv_client [OF inv closed_ok_client [OF closed]]) (use c r d in \<open>auto split: if_splits\<close>)
qed

lemma log_inv_spurious:
  assumes inv: "log_inv n s" and step: "flush_spurious c s = Some t"
  shows "log_inv (Suc n) t"
proof -
  obtain dtor target where c: "clients s c = Flush_asleep dtor target"
    and t: "t = set_client c (Flush_wait dtor target) s"
    using step by (auto simp: flush_spurious_def split: client.splits)
  have closed: "closed_ok s" using inv by (simp add: log_inv_def)
  have r: "running (lg s)" and d: "dtor = closing s"
    using closed_ok_flush [OF closed] c by blast+
  show ?thesis
    unfolding t
    by (rule log_inv_client [OF inv closed_ok_client [OF closed]]) (use c r d in auto)
qed

lemma log_inv_begin:
  assumes inv: "log_inv n s" and step: "log_begin c lvl msg now s = Some t"
  shows "log_inv (Suc n) t"
proof -
  have c: "clients s c = Outside" "\<not> closing s" and t: "t = s \<or> (\<exists>e. t = set_client c (Log_push e) s)"
    using step by (auto simp: log_begin_def split: if_splits)
  have closed: "closed_ok s" using inv by (simp add: log_inv_def)
  have "log_inv (Suc n) (set_client c (Log_push e) s)" for e
    by (rule log_inv_client [OF inv closed_ok_client [OF closed]]) (use c in auto)
  moreover have "log_inv (Suc n) s" using inv by (simp add: log_inv_def)
  ultimately show ?thesis using t by auto
qed

lemma log_inv_push:
  assumes inv: "log_inv n s" and step: "log_push c s = Some t"
  shows "log_inv (Suc n) t"
proof -
  obtain e where c: "clients s c = Log_push e" and t: "t = set_client c Outside
      (s\<lparr>lg := (lg s)\<lparr>entries := entries (lg s) @ [e]\<rparr>, accepted := accepted s @ [e]\<rparr>)"
    using step by (auto simp: log_push_def split: client.splits)
  have closed: "closed_ok s" using inv by (simp add: log_inv_def)
  have op: "\<not> closing s" "running (lg s)" using closed_ok_open [OF closed c] by auto
  have "closed_ok t"
    using closed op unfolding closed_ok_def t set_client_def by auto
  then show ?thesis
    using inv op unfolding log_inv_def t set_client_def
    by (auto simp: flush_ok_def intro: le_SucI split: if_splits)
qed

lemma log_inv_level:
  "log_inv n s \<Longrightarrow> set_level c lvl s = Some t \<Longrightarrow> log_inv (Suc n) t"
  by (auto simp: set_level_def log_inv_def flush_ok_def closed_ok_def split: if_splits)

text \<open>A new generation is above every one that has been asked for, as long as it fits.\<close>

lemma next_generation:
  fixes g :: uint64
  assumes "unat g < 2 ^ 64 - 1"
  shows "unat (g + 1) = unat g + 1" "x \<le> g \<Longrightarrow> x < g + 1"
proof -
  show *: "unat (g + 1) = unat g + 1"
    using assms by (simp add: unat_word_ariths)
  show "x < g + 1" if "x \<le> g"
    using that * by (simp add: word_less_nat_alt word_le_nat_alt)
qed

lemma log_inv_request:
  assumes inv: "log_inv n s" and n: "n < 2 ^ 64 - 1"
    and closed: "closed_ok ((flush_request d c s)\<lparr>closing := cl\<rparr>)"
    and c: "flush_target (clients s c) = None"
  shows "log_inv (Suc n) ((flush_request d c s)\<lparr>closing := cl\<rparr>)"
proof -
  have "unat (flush_gen_pending (lg s)) < 2 ^ 64 - 1"
    using inv n by (simp add: log_inv_def)
  note g = next_generation [OF this]
  have gen: "flush_gen_done (lg s) < flush_gen_pending (lg s) + 1"
    using inv g(2) by (simp add: log_inv_def)
  define t where "t = (flush_request d c s)\<lparr>closing := cl\<rparr>"
  have t: "flush_gen_pending (lg t) = flush_gen_pending (lg s) + 1"
    "flush_gen_done (lg t) = flush_gen_done (lg s)" "entries (lg t) = entries (lg s)"
    "running (lg t) = running (lg s)" "drain t = drain s" "accepted t = accepted s"
    "written t = written s"
    "clients t = (clients s)(c := Flush_wait d (flush_gen_pending (lg s) + 1))"
    "mark t = (mark s)(c := length (accepted s))"
    by (simp_all add: t_def flush_request_def set_client_def Let_def)
  have publ: "pending < flush_gen_pending (lg s) + 1" if "publishing (drain s) = Some pending" for pending
    using inv that g(2) by (simp add: log_inv_def)
  have new: "flush_ok t (flush_gen_pending (lg s) + 1) (length (accepted s))"
    using gen publ unfolding flush_ok_def t by (auto simp: not_le)
  have old: "flush_ok t target m" if "flush_ok s target m" for target m
    using that g(2) [of target] unfolding flush_ok_def t by auto
  have "flush_ok t target (mark t b)" if "flush_target (clients t b) = Some target" for b target
    using that new old inv by (cases "b = c") (auto simp: t log_inv_def)
  moreover have "flush_gen_done (lg t) < target \<or> drain t = Notify_flushers"
    if "clients t b = Flush_asleep dtor target" for b dtor target
    using that inv by (cases "b = c") (auto simp: t log_inv_def)
  moreover have "unat (flush_gen_pending (lg t)) \<le> Suc n"
    using inv g(1) by (simp add: t log_inv_def)
  moreover have "pending \<le> flush_gen_pending (lg t)" if "publishing (drain t) = Some pending" for pending
    using that publ by (simp add: t less_imp_le)
  ultimately show ?thesis
    using inv closed gen unfolding t_def [symmetric] log_inv_def t(2-7)
    by (simp add: t(1) less_imp_le)
qed

lemma log_inv_flush_begin:
  assumes inv: "log_inv n s" and n: "n < 2 ^ 64 - 1" and step: "flush_begin c s = Some t"
  shows "log_inv (Suc n) t"
proof -
  have c: "clients s c = Outside" "\<not> closing s" and t: "t = (flush_request False c s)\<lparr>closing := False\<rparr>"
    using step by (auto simp: flush_begin_def flush_request_def set_client_def Let_def split: if_splits)
  have "closed_ok t"
    using inv c unfolding log_inv_def closed_ok_def t flush_request_def set_client_def Let_def by auto
  then show ?thesis
    unfolding t by (intro log_inv_request [OF inv n]) (simp_all add: c)
qed

lemma log_inv_destroy_begin:
  assumes inv: "log_inv n s" and n: "n < 2 ^ 64 - 1"
    and all: "\<And>d. clients s d = Outside" and op: "\<not> closing s"
  shows "log_inv (Suc n) (destroy_begin c s)"
proof -
  have "closed_ok (destroy_begin c s)"
    using inv all op
    unfolding log_inv_def closed_ok_def destroy_begin_def flush_request_def set_client_def Let_def
    by auto
  then show ?thesis
    unfolding destroy_begin_def by (intro log_inv_request [OF inv n]) (simp_all add: all)
qed

lemma log_inv_stop:
  assumes inv: "log_inv n s" and step: "destroy_stop c s = Some t"
  shows "log_inv (Suc n) t"
proof -
  have c: "clients s c = Stop_due"
    and t: "t = set_client c Joining (s\<lparr>lg := (lg s)\<lparr>running := False\<rparr>\<rparr>)"
    using step by (auto simp: destroy_stop_def split: if_splits)
  have closed: "closed_ok s" using inv by (simp add: log_inv_def)
  have cl: "closing s" "\<And>d. d \<noteq> c \<Longrightarrow> clients s d = Outside"
    using closed_ok_cases [OF closed, of c] c by (auto split: if_splits)
  have "closed_ok t"
    using cl unfolding closed_ok_def t set_client_def by auto
  then show ?thesis
    using inv cl unfolding log_inv_def t set_client_def
    by (auto simp: flush_ok_def split: if_splits)
qed

lemma log_inv_join:
  assumes inv: "log_inv n s" and step: "destroy_join c s = Some t"
  shows "log_inv (Suc n) t"
proof -
  have c: "clients s c = Joining" and t: "t = set_client c Destroyed s"
    using step by (auto simp: destroy_join_def split: if_splits)
  have closed: "closed_ok s" using inv by (simp add: log_inv_def)
  have "closing s"
    using closed_ok_cases [OF closed, of c] c by (auto split: if_splits)
  then show ?thesis
    unfolding t by (intro log_inv_client [OF inv closed_ok_client [OF closed]]) (use c in auto)
qed

lemma log_inv_step:
  assumes "log_step s t" "log_inv n s" "n < 2 ^ 64 - 1"
  shows "log_inv (Suc n) t"
  using assms
  by (cases rule: log_step.cases)
    (blast intro: log_inv_begin log_inv_push log_inv_level log_inv_flush_begin log_inv_eval
      log_inv_spurious log_inv_destroy_begin log_inv_stop log_inv_join log_inv_drain
      log_inv_throws)+

interpretation lgi: bounded_invariant log_init log_step "2 ^ 64 - 1" log_inv
  by unfold_locales (auto intro: log_inv_init log_inv_step)

section \<open>The drain thread alone\<close>

primrec drain_run :: "nat \<Rightarrow> log_sys \<Rightarrow> log_sys" where
  "drain_run 0 s = s"
| "drain_run (Suc k) s = (case drain_step s of None \<Rightarrow> s | Some t \<Rightarrow> drain_run k t)"

lemma drain_run_add: "drain_run (j + k) s = drain_run k (drain_run j s)"
proof (induction j arbitrary: s)
  case (Suc j)
  show ?case
  proof (cases "drain_step s")
    case None
    then have "drain_run k s = s" for k by (cases k) auto
    then show ?thesis using None by simp
  next
    case (Some t)
    then show ?thesis using Suc.IH by simp
  qed
qed simp

lemma drain_run_write:
  assumes "drain s = Writing batch pending"
  shows "drain_run (length batch + 2) s =
    s\<lparr>drain := Check_running, written := written s @ batch,
      lg := (lg s)\<lparr>flush_gen_done := pending\<rparr>, clients := (\<lambda>c. wake_client (clients s c))\<rparr>"
  using assms
proof (induction batch arbitrary: s)
  case Nil
  then show ?case by (simp add: drain_step_def numeral_2_eq_2)
next
  case (Cons e batch)
  have "drain_step s = Some (s\<lparr>drain := Writing batch pending, written := written s @ [e]\<rparr>)"
    using Cons.prems by (simp add: drain_step_def)
  then show ?case
    using Cons.IH [of "s\<lparr>drain := Writing batch pending, written := written s @ [e]\<rparr>"] by simp
qed

text \<open>From the wait, one round writes the whole queue and completes every pending flush.\<close>

lemma drain_run_round:
  assumes "drain s = Wait_batch"
  shows "drain_run (length (entries (lg s)) + 3) s =
    s\<lparr>drain := Check_running, written := written s @ entries (lg s),
      lg := (lg s)\<lparr>entries := [], flush_gen_done := flush_gen_pending (lg s)\<rparr>,
      clients := (\<lambda>c. wake_client (clients s c))\<rparr>"
proof -
  define u where "u = s\<lparr>drain := Writing (entries (lg s)) (flush_gen_pending (lg s)),
      lg := (lg s)\<lparr>entries := []\<rparr>\<rparr>"
  have step: "drain_step s = Some u"
    using assms by (simp add: drain_step_def u_def)
  have "drain_run (length (entries (lg s)) + 3) s = drain_run (length (entries (lg s)) + 2) u"
    using step by (simp add: eval_nat_numeral)
  also have "\<dots> = u\<lparr>drain := Check_running, written := written u @ entries (lg s),
      lg := (lg u)\<lparr>flush_gen_done := flush_gen_pending (lg s)\<rparr>,
      clients := (\<lambda>c. wake_client (clients u c))\<rparr>"
    by (rule drain_run_write) (simp add: u_def)
  finally show ?thesis by (simp add: u_def)
qed

text \<open>While the logger runs, the drain thread comes to its wait in a bounded number of steps.\<close>

definition steps_to_wait :: "log_sys \<Rightarrow> nat" where
  "steps_to_wait s =
     (case drain s of Wait_batch \<Rightarrow> 0 | Check_running \<Rightarrow> 1 | Notify_flushers \<Rightarrow> 2
      | Writing batch pending \<Rightarrow> length batch + 3 | _ \<Rightarrow> 0)"

lemma drain_run_to_wait:
  assumes "running (lg s)" "drain s \<noteq> Check_empty" "drain s \<noteq> Drain_exited"
    and "\<And>batch. drain s \<noteq> Sink_threw batch"
  defines "t \<equiv> drain_run (steps_to_wait s) s"
  shows "drain t = Wait_batch \<and> entries (lg t) = entries (lg s) \<and>
    flush_gen_pending (lg t) = flush_gen_pending (lg s) \<and>
    flush_target (clients t c) = flush_target (clients s c)"
proof (cases "drain s")
  case (Writing batch pending)
  have "t = drain_run 1 (drain_run (length batch + 2) s)"
    unfolding t_def using drain_run_add [of "length batch + 2" 1 s] Writing
    by (simp add: steps_to_wait_def eval_nat_numeral)
  then show ?thesis
    using drain_run_write [OF Writing] assms(1) by (simp add: drain_step_def)
qed (use assms in \<open>auto simp: t_def steps_to_wait_def drain_step_def numeral_2_eq_2\<close>)

section \<open>Properties\<close>

text \<open>
  C21: First in, first out, exactly once. In every reachable state the sink has received a prefix
  of the entries in the order in which they were queued; the rest are, in order, those of the
  batch being written and those still in the queue. Nothing is lost, duplicated or reordered.
\<close>

lemma log_fifo:
  assumes "reach log_init log_step n s" and "n \<le> 2 ^ 64 - 1"
  shows "prefix (written s) (accepted s) \<and>
    accepted s = written s @ in_flight (drain s) @ entries (lg s)"
  using lgi.reach_inv [OF assms] by (auto simp: log_inv_def)

text \<open>
  C5: What a flush guarantees. When the wait of a flush can return, every entry that had been
  queued before the flush was called, by any thread, has been handed to the sink; a flush that
  sleeps has either not been served or is about to be woken.
\<close>

lemma log_flush_complete:
  assumes "reach log_init log_step n s" and "n \<le> 2 ^ 64 - 1"
    and "flush_target (clients s c) = Some target"
  shows "(target \<le> flush_gen_done (lg s) \<longrightarrow> prefix (take (mark s c) (accepted s)) (written s)) \<and>
    (clients s c = Flush_asleep dtor target \<longrightarrow> target \<le> flush_gen_done (lg s) \<longrightarrow>
      drain s = Notify_flushers)"
proof -
  note inv = lgi.reach_inv [OF assms(1,2)]
  have ok: "flush_ok s target (mark s c)"
    using inv assms(3) by (auto simp: log_inv_def)
  have acc: "accepted s = written s @ in_flight (drain s) @ entries (lg s)"
    using inv by (simp add: log_inv_def)
  have "prefix (take (mark s c) (accepted s)) (written s)" if "mark s c \<le> length (written s)"
    using that unfolding acc by (simp add: take_is_prefix)
  moreover have "flush_gen_done (lg s) < target \<or> drain s = Notify_flushers"
    if "clients s c = Flush_asleep dtor target"
    using inv that by (auto simp: log_inv_def)
  ultimately show ?thesis
    using ok by (auto simp: flush_ok_def)
qed

text \<open>
  C22: A flush terminates. From every reachable state in which a thread waits in \<open>flush()\<close>, if no
  call of the sink throws, the drain thread's own next steps, at most the entries in flight and queued
  and six more, write the whole queue, complete the flush and wake the thread, whatever the other
  threads have left.
\<close>

lemma log_flush_terminates:
  assumes "reach log_init log_step n s" and "n \<le> 2 ^ 64 - 1"
    and "flush_target (clients s c) = Some target" and "\<And>batch. drain s \<noteq> Sink_threw batch"
  shows "\<exists>k \<le> length (in_flight (drain s)) + length (entries (lg s)) + 6.
    (let t = drain_run k s in target \<le> flush_gen_done (lg t) \<and>
      (\<exists>dtor. clients t c = Flush_wait dtor target) \<and> entries (lg t) = [])"
proof -
  note inv = lgi.reach_inv [OF assms(1,2)]
  have r: "running (lg s)"
    using inv closed_ok_running assms(3) by (auto simp: log_inv_def)
  have pc: "drain s \<noteq> Check_empty" "drain s \<noteq> Drain_exited"
    using inv r by (auto simp: log_inv_def)
  define u where "u = drain_run (steps_to_wait s) s"
  note u = drain_run_to_wait [OF r pc assms(4), of c, folded u_def]
  define t where "t = drain_run (steps_to_wait s + (length (entries (lg s)) + 3)) s"
  have t: "t = u\<lparr>drain := Check_running, written := written u @ entries (lg u),
      lg := (lg u)\<lparr>entries := [], flush_gen_done := flush_gen_pending (lg u)\<rparr>,
      clients := (\<lambda>c. wake_client (clients u c))\<rparr>"
    using drain_run_round [of u] u drain_run_add [of "steps_to_wait s" "length (entries (lg s)) + 3" s]
    unfolding t_def u_def [symmetric] by simp
  have "target \<le> flush_gen_pending (lg s)"
    using inv assms(3) by (auto simp: log_inv_def flush_ok_def)
  moreover have "\<exists>dtor. wake_client (clients u c) = Flush_wait dtor target"
    using u assms(3) by (cases "clients u c") auto
  moreover have "steps_to_wait s \<le> length (in_flight (drain s)) + 3"
    by (cases "drain s") (auto simp: steps_to_wait_def)
  ultimately show ?thesis
    using u by (intro exI [of _ "steps_to_wait s + (length (entries (lg s)) + 3)"])
      (simp add: t_def [symmetric] t Let_def)
qed

text \<open>
  C23: The destructor loses nothing. When the drain thread has left its loop, which is what the
  destructor's join waits for, the sink has received every entry that was ever queued, and no
  client is inside the logger.
\<close>

lemma log_destructor_complete:
  assumes "reach log_init log_step n s" and "n \<le> 2 ^ 64 - 1" and "drain s = Drain_exited"
  shows "written s = accepted s \<and> closing s \<and>
    (\<forall>c. clients s c = Outside \<or> clients s c = Joining \<or> clients s c = Destroyed)"
  using lgi.reach_inv [OF assms(1,2)] assms(3)
  by (auto simp: log_inv_def closed_ok_def split: if_splits) metis+

text \<open>
  The threshold. A message below the current minimum level leaves the logger as it is; any
  other becomes one entry with its level, text and thread, which the next step of the thread
  appends to the queue. After \<open>set_level\<close> the new threshold decides.
\<close>

lemma log_threshold:
  assumes "clients s c = Outside" and "\<not> closing s" and "set_level d lvl s = Some s'"
  shows "(if l < lvl then log_begin c l msg now s' = Some s'
     else \<exists>t u. log_begin c l msg now s' = Some t \<and> log_push c t = Some u \<and>
       clients u c = Outside \<and>
       entries (lg u) = entries (lg s) @
         [\<lparr>level = l, message = msg, timestamp = now, thread_id = c\<rparr>])"
  using assms by (auto simp: set_level_def log_begin_def log_push_def set_client_def split: if_splits)

text \<open>What every step leaves alone once the sink has thrown.\<close>

lemma log_dead_step:
  assumes "log_step s t" "drain s = Sink_threw batch" "accepted s = ws @ entries (lg s)"
  shows "drain t = Sink_threw batch \<and> written t = written s \<and> accepted t = ws @ entries (lg t) \<and>
    flush_gen_done (lg t) = flush_gen_done (lg s)"
  using assms
  by (cases rule: log_step.cases)
    (auto simp: log_defs set_client_def drain_step_def sink_throws_def Let_def
      split: if_splits client.splits drain_pc.splits)

text \<open>
  C24: A sink that throws stops the logger for good. From then on no entry is written any more,
  neither those of the batch nor any that is queued before the process ends; no flush is served, so
  a thread whose flush was not served before stays in its wait; and the destructor never returns.
\<close>

theorem log_sink_throws:
  assumes "reach log_init log_step n s" and "n \<le> 2 ^ 64 - 1"
    and "drain s = Sink_threw batch" and "log_step\<^sup>*\<^sup>* s t"
  shows "written t = written s \<and> accepted t = written s @ batch @ entries (lg t) \<and>
    destroy_join c t = None \<and>
    (flush_target (clients t c) = Some target \<longrightarrow> flush_gen_done (lg s) < target \<longrightarrow>
      flush_eval c t = Some u \<longrightarrow> flush_target (clients u c) = Some target)"
proof -
  have acc: "accepted s = (written s @ batch) @ entries (lg s)"
    using lgi.reach_inv [OF assms(1,2)] assms(3) by (simp add: log_inv_def)
  have dead: "drain t = Sink_threw batch \<and> written t = written s \<and>
    accepted t = (written s @ batch) @ entries (lg t) \<and> flush_gen_done (lg t) = flush_gen_done (lg s)"
    using assms(4)
  proof (induction rule: rtranclp_induct)
    case base
    then show ?case using assms(3) acc by simp
  next
    case (step t u)
    then show ?case using log_dead_step [OF step.hyps(2)] by metis
  qed
  then show ?thesis
    by (auto simp: destroy_join_def flush_eval_def set_client_def split: client.splits if_splits)
qed

section \<open>Concrete runs\<close>

datatype log_action =
  Act_log nat LogLevel string | Act_push nat | Act_flush nat | Act_eval nat
  | Act_stop nat | Act_join nat | Act_drain | Act_throw

fun log_act :: "log_action \<Rightarrow> log_sys \<Rightarrow> log_sys option" where
  "log_act (Act_log c lvl msg) s = log_begin c lvl msg 0 s"
| "log_act (Act_push c) s = log_push c s"
| "log_act (Act_flush c) s = flush_begin c s"
| "log_act (Act_eval c) s = flush_eval c s"
| "log_act (Act_stop c) s = destroy_stop c s"
| "log_act (Act_join c) s = destroy_join c s"
| "log_act Act_drain s = drain_step s"
| "log_act Act_throw s = sink_throws s"

lemma log_act_step: "log_act a s = Some t \<Longrightarrow> log_step s t"
  by (cases a) (auto intro: log_step.intros)

lemma log_run_reach:
  "run_schedule log_act ls (log_start lvl) = Some s \<Longrightarrow> reach log_init log_step (length ls) s"
  by (rule run_schedule_reach [where act = log_act]) (auto intro: log_act_step log_init.intros)

text \<open>
  Two entries of two threads, one below the threshold, a flush of thread 0 which falls asleep
  while the drain thread has written the first entry.
\<close>

definition log_demo :: "log_action list" where
  "log_demo = [Act_log 0 Level_Info ''a'', Act_log 1 Level_Error ''b'', Act_log 2 Level_Debug ''c'',
     Act_push 1, Act_push 0, Act_flush 0, Act_eval 0, Act_drain, Act_drain, Act_drain]"

lemmas log_demo_eval = log_demo_def log_defs Logger_def set_client_def drain_step_def Let_def
  less_LogLevel_def

definition log_state :: "log_action list \<Rightarrow> log_sys" where
  "log_state ls = the (run_schedule log_act ls (log_start Level_Info))"

lemma log_state_run:
  "\<not> Option.is_none (run_schedule log_act ls (log_start Level_Info)) \<Longrightarrow>
     run_schedule log_act ls (log_start Level_Info) = Some (log_state ls)"
  by (auto simp: log_state_def Option.is_none_def)

lemma log_demo_run: "run_schedule log_act log_demo (log_start Level_Info) = Some (log_state log_demo)"
  by (rule log_state_run) code_simp

lemma log_demo_state:
  "clients (log_state log_demo) 0 = Flush_asleep False 1"
  "map message (accepted (log_state log_demo)) = [''b'', ''a'']"
  "map message (written (log_state log_demo)) = [''b'']"
  "length (in_flight (drain (log_state log_demo))) = 1" "entries (lg (log_state log_demo)) = []"
  "publishing (drain (log_state log_demo)) \<noteq> None"
  by code_simp+

lemma log_fifo_witness:
  "map message (written (log_state log_demo)) = [''b''] \<and>
   map message (in_flight (drain (log_state log_demo))) = [''a'']"
proof -
  have "accepted (log_state log_demo) = written (log_state log_demo) @
      in_flight (drain (log_state log_demo)) @ entries (lg (log_state log_demo))"
    using log_fifo [OF log_run_reach [OF log_demo_run]] by (simp add: log_demo_def)
  then show ?thesis
    using log_demo_state(2,3,5) by simp
qed

text \<open>The flush completes: three more steps of the drain thread.\<close>

definition log_demo_flushed :: "log_action list" where
  "log_demo_flushed = log_demo @ [Act_drain, Act_drain, Act_drain]"

lemma log_flush_complete_witness:
  "clients (log_state log_demo_flushed) 0 = Flush_wait False 1 \<and>
   prefix (take 2 (accepted (log_state log_demo_flushed))) (written (log_state log_demo_flushed))"
proof -
  have run: "run_schedule log_act log_demo_flushed (log_start Level_Info) = Some (log_state log_demo_flushed)"
    by (rule log_state_run) code_simp
  have s: "clients (log_state log_demo_flushed) 0 = Flush_wait False 1"
    "mark (log_state log_demo_flushed) 0 = 2" "flush_gen_done (lg (log_state log_demo_flushed)) = 1"
    by code_simp+
  then have t: "flush_target (clients (log_state log_demo_flushed) 0) = Some 1" by simp
  have "length log_demo_flushed \<le> 2 ^ 64 - 1"
    by (simp add: log_demo_flushed_def log_demo_def)
  then show ?thesis
    using log_flush_complete [OF log_run_reach [OF run] _ t, of False] s by simp
qed

lemma log_flush_terminates_witness:
  "clients (log_state log_demo) 0 = Flush_asleep False 1 \<and>
   (\<exists>k \<le> 7. \<exists>dtor. clients (drain_run k (log_state log_demo)) 0 = Flush_wait dtor 1)"
proof -
  have t: "flush_target (clients (log_state log_demo) 0) = Some 1"
    using log_demo_state(1) by simp
  have writing: "drain (log_state log_demo) \<noteq> Sink_threw batch" for batch
    using log_demo_state(6) by auto
  have "length log_demo \<le> 2 ^ 64 - 1"
    by (simp add: log_demo_def)
  then obtain k where "k \<le> 7" "\<exists>dtor. clients (drain_run k (log_state log_demo)) 0 = Flush_wait dtor 1"
    using log_flush_terminates [OF log_run_reach [OF log_demo_run] _ t writing] log_demo_state(4,5)
    by (auto simp: Let_def)
  then show ?thesis using log_demo_state(1) by blast
qed

text \<open>Two entries, then the destructor: its flush, the stop, the drain thread's exit.\<close>

definition log_demo_end :: "log_action list" where
  "log_demo_end = replicate 4 Act_drain @ [Act_eval 0, Act_stop 0] @ replicate 3 Act_drain"

definition log_demo_one :: "log_action list" where
  "log_demo_one = [Act_log 0 Level_Info ''a'', Act_push 0]"

definition log_ended :: log_sys where
  "log_ended = the (run_schedule log_act log_demo_end (destroy_begin 0 (log_state log_demo_one)))"

lemma log_ended_run:
  "run_schedule log_act log_demo_end (destroy_begin 0 (log_state log_demo_one)) = Some log_ended"
proof -
  have "\<not> Option.is_none (run_schedule log_act log_demo_end (destroy_begin 0 (log_state log_demo_one)))"
    by code_simp
  then show ?thesis by (auto simp: log_ended_def Option.is_none_def)
qed

lemma log_destructor_complete_witness:
  "drain log_ended = Drain_exited \<and> map message (written log_ended) = [''a'']"
proof -
  have t: "drain log_ended = Drain_exited" "map message (accepted log_ended) = [''a'']"
    by code_simp+
  have run: "run_schedule log_act log_demo_one (log_start Level_Info) = Some (log_state log_demo_one)"
    by (rule log_state_run) code_simp
  have "clients (log_state log_demo_one) d = Outside" "\<not> closing (log_state log_demo_one)" for d
    by (simp_all add: log_state_def log_demo_one_def log_demo_eval)
  then have "reach log_init log_step (Suc (length log_demo_one)) (destroy_begin 0 (log_state log_demo_one))"
    by (intro reach.more [OF log_run_reach [OF run] log_step.destroy_begin])
  then have r: "reach log_init log_step (Suc (length log_demo_one) + length log_demo_end) log_ended"
    by (rule run_schedule_reach_from [where act = log_act, rotated]) (auto intro: log_act_step log_ended_run)
  have "Suc (length log_demo_one) + length log_demo_end \<le> 2 ^ 64 - 1"
    by (simp add: log_demo_one_def log_demo_end_def)
  then show ?thesis
    using log_destructor_complete [OF r _ t(1)] t by simp
qed

lemma log_threshold_witness:
  "\<exists>s. set_level 1 Level_Warn (log_start Level_Info) = Some s \<and>
     log_begin 0 Level_Info ''a'' 0 s = Some s \<and> log_begin 0 Level_Error ''b'' 0 s \<noteq> Some s"
proof -
  obtain s where s: "set_level 1 Level_Warn (log_start Level_Info) = Some s"
    by (simp add: log_demo_eval)
  have st: "clients (log_start Level_Info) 0 = Outside" "\<not> closing (log_start Level_Info)"
    by (simp_all add: log_demo_eval)
  have "log_begin 0 Level_Info ''a'' 0 s = Some s"
    using log_threshold [OF st s, of Level_Info "''a''" 0] by (simp add: less_LogLevel_def)
  moreover have "\<exists>t u. log_begin 0 Level_Error ''b'' 0 s = Some t \<and> log_push 0 t = Some u"
    using log_threshold [OF st s, of Level_Error "''b''" 0] by (auto simp: less_LogLevel_def)
  moreover have "log_push 0 s = None"
    using s by (auto simp: log_demo_eval)
  ultimately show ?thesis using s by force
qed

text \<open>The sink throws on the second entry; thread 1 logs again, thread 0 sleeps in its flush.\<close>

definition log_late :: "log_action list" where
  "log_late = [Act_log 1 Level_Error ''d'', Act_push 1]"

definition log_thrown :: log_sys where
  "log_thrown = log_state (log_demo @ [Act_throw])"

lemma log_thrown_run: "run_schedule log_act (log_demo @ [Act_throw]) (log_start Level_Info) = Some log_thrown"
  unfolding log_thrown_def by (rule log_state_run) code_simp

lemma log_thrown_state:
  "length (in_flight (drain log_thrown)) = 1" "publishing (drain log_thrown) = None"
  "map message (written log_thrown) = [''b'']"
  by code_simp+

lemma log_late_run:
  "\<exists>t. run_schedule log_act log_late log_thrown = Some t \<and> map message (entries (lg t)) = [''d'']"
  by (rule case_Some_exists) code_simp

theorem log_sink_throws_witness:
  "\<exists>t. log_step\<^sup>*\<^sup>* log_thrown t \<and> map message (entries (lg t)) = [''d''] \<and>
     map message (written t) = [''b''] \<and> length (accepted t) = 3"
proof -
  obtain batch where s: "drain log_thrown = Sink_threw batch"
    using log_thrown_state(1,2) by (cases "drain log_thrown") auto
  have "length batch = 1" using log_thrown_state(1) s by simp
  obtain t where run: "run_schedule log_act log_late log_thrown = Some t"
    and t: "map message (entries (lg t)) = [''d'']"
    using log_late_run by (elim exE conjE)
  have steps: "log_step\<^sup>*\<^sup>* log_thrown t"
    by (rule run_schedule_steps [OF log_act_step run])
  have "length (log_demo @ [Act_throw]) \<le> 2 ^ 64 - 1" by (simp add: log_demo_def)
  then have dead: "written t = written log_thrown \<and> accepted t = written log_thrown @ batch @ entries (lg t)"
    using log_sink_throws [OF log_run_reach [OF log_thrown_run] _ s steps] by blast
  have "length (written log_thrown) = 1" "length (entries (lg t)) = 1"
    using log_thrown_state(3) t by (auto dest: arg_cong [where f = length])
  then show ?thesis using dead steps t log_thrown_state(3) \<open>length batch = 1\<close> by auto
qed

end
