(* ===== verification/Log_Format.thy ===== *)
theory Log_Format
  imports Logger
begin

text \<open>
  \<open>Logger::default_sink\<close>: the line that is printed for an entry, and that nothing but what the
  code drops on purpose is lost in it: a reader gets back the level, the microseconds within the
  second, the shortened thread number and the text.
\<close>

section \<open>Printing\<close>

definition digit_char :: "nat \<Rightarrow> char" where
  "digit_char d = char_of (48 + d)"

fun decimal :: "nat \<Rightarrow> string" where
  "decimal n = (if n < 10 then [digit_char n] else decimal (n div 10) @ [digit_char (n mod 10)])"

declare decimal.simps [simp del]

text \<open>\<open>%06ld\<close>\<close>

definition zero_padded :: "nat \<Rightarrow> nat \<Rightarrow> string" where
  "zero_padded w n = replicate (w - length (decimal n)) (CHR ''0'') @ decimal n"

text \<open>\<open>message.c_str()\<close> under \<open>%s\<close>: the text ends at the first NUL.\<close>

definition c_str :: "string \<Rightarrow> string" where
  "c_str s = takeWhile (\<lambda>c. c \<noteq> CHR 0x00) s"

definition micros :: "log_entry \<Rightarrow> nat" where
  "micros entry = timestamp entry div 1000 mod 1000000"

text \<open>\<open>hash\<close> is \<open>std::hash<std::thread::id>\<close>.\<close>

definition default_sink :: "(nat \<Rightarrow> size_t) \<Rightarrow> log_entry \<Rightarrow> string" where
  "default_sink hash entry =
     ''['' @ level_string (level entry) @ ''] ['' @ zero_padded 6 (micros entry) @ ''] [t:'' @
     decimal (unat (hash (thread_id entry) mod 10000)) @ ''] '' @ c_str (message entry) @
     [CHR 0x0A]"

section \<open>Reading back\<close>

definition digit_value :: "char \<Rightarrow> nat" where
  "digit_value c = of_char c - 48"

definition read_decimal :: "string \<Rightarrow> nat" where
  "read_decimal s = foldl (\<lambda>n c. 10 * n + digit_value c) 0 s"

definition read_level :: "string \<Rightarrow> LogLevel option" where
  "read_level s = find (\<lambda>l. level_string l = s)
     [Level_Trace, Level_Debug, Level_Info, Level_Warn, Level_Error, Level_Fatal]"

text \<open>The columns of the line: level, microseconds, thread, text.\<close>

definition read_line :: "string \<Rightarrow> (LogLevel \<times> nat \<times> nat \<times> string) option" where
  "read_line s =
     (let rest = drop 20 s; tid = takeWhile (\<lambda>c. c \<noteq> CHR '']'') rest
      in map_option (\<lambda>l. (l, read_decimal (take 6 (drop 9 s)), read_decimal tid,
           butlast (drop (length tid + 2) rest)))
         (read_level (take 5 (drop 1 s))))"

lemma digit_value_char [simp]: "d < 10 \<Longrightarrow> digit_value (digit_char d) = d"
  by (simp add: digit_value_def digit_char_def of_char_of)

lemma digit_char_not_bracket: "d < 10 \<Longrightarrow> digit_char d \<noteq> CHR '']''"
  using digit_value_char [of d] by (auto simp: digit_value_def)

lemma read_decimal_snoc: "read_decimal (s @ [c]) = 10 * read_decimal s + digit_value c"
  by (simp add: read_decimal_def)

lemma read_decimal_decimal [simp]: "read_decimal (decimal n) = n"
proof (induction n rule: decimal.induct)
  case (1 n)
  then show ?case
    by (subst decimal.simps) (auto simp: read_decimal_snoc, simp add: read_decimal_def)
qed

lemma decimal_no_bracket: "c \<in> set (decimal n) \<Longrightarrow> c \<noteq> CHR '']''"
proof (induction n rule: decimal.induct)
  case (1 n)
  then show ?case
    by (subst (asm) (2) decimal.simps) (auto simp: digit_char_not_bracket digit_char_not_bracket [symmetric] split: if_splits)
qed

lemma decimal_length: "n < 10 ^ Suc k \<Longrightarrow> length (decimal n) \<le> Suc k"
proof (induction k arbitrary: n)
  case 0
  then show ?case by (subst decimal.simps) simp
next
  case (Suc k)
  then have "n div 10 < 10 ^ Suc k" by (simp add: less_mult_imp_div_less mult.commute)
  then show ?case using Suc.IH [of "n div 10"] by (subst decimal.simps) simp
qed

lemma read_decimal_zeros: "read_decimal (replicate k (CHR ''0'') @ s) = read_decimal s"
proof -
  have "foldl (\<lambda>n c. 10 * n + digit_value c) 0 (replicate k (CHR ''0'')) = 0"
    by (induction k) (simp_all add: digit_value_def)
  then show ?thesis by (simp add: read_decimal_def)
qed

lemma zero_padded_6:
  assumes "n < 1000000"
  shows "length (zero_padded 6 n) = 6" "read_decimal (zero_padded 6 n) = n"
proof -
  have "length (decimal n) \<le> 6"
    using decimal_length [of n 5] assms by simp
  then show "length (zero_padded 6 n) = 6" "read_decimal (zero_padded 6 n) = n"
    by (simp_all add: zero_padded_def read_decimal_zeros)
qed

lemma level_string_columns: "length (level_string l) = 5" "read_level (level_string l) = Some l"
  by (cases l; simp add: read_level_def)+

section \<open>Properties\<close>

text \<open>
  C33: Round trip. From the line the default sink prints for an entry its level, the microseconds
  of its time within the second, its thread number modulo 10000 and its text can be read back,
  whatever characters the text has; only what follows a NUL in the text is not printed.
\<close>

lemma log_line_roundtrip:
  "read_line (default_sink hash entry) =
     Some (level entry, micros entry, unat (hash (thread_id entry) mod 10000), c_str (message entry))"
proof -
  define ds where "ds = zero_padded 6 (micros entry)"
  define tid where "tid = decimal (unat (hash (thread_id entry) mod 10000))"
  have ds: "length ds = 6" "read_decimal ds = micros entry"
    using zero_padded_6 [of "micros entry"] by (simp_all add: ds_def micros_def)
  have split: "default_sink hash entry = (''['' @ level_string (level entry) @ ''] ['' @ ds @ ''] [t:'')
      @ tid @ '']'' @ '' '' @ c_str (message entry) @ [CHR 0x0A]"
    by (simp add: default_sink_def ds_def tid_def)
  have rest: "drop 20 (default_sink hash entry) = tid @ '']'' @ '' '' @ c_str (message entry) @ [CHR 0x0A]"
    unfolding split by (subst drop_append) (simp add: ds level_string_columns)
  have tid_no: "\<forall>c \<in> set tid. c \<noteq> CHR '']''"
    using decimal_no_bracket by (auto simp: tid_def)
  have tw: "takeWhile (\<lambda>c. c \<noteq> CHR '']'') (tid @ '']'' @ '' '' @ c_str (message entry) @ [CHR 0x0A]) = tid"
    using tid_no by (subst takeWhile_append2) auto
  have lvl: "take 5 (drop 1 (default_sink hash entry)) = level_string (level entry)"
    unfolding split by (simp add: level_string_columns)
  have us: "take 6 (drop 9 (default_sink hash entry)) = ds"
    unfolding split by (simp add: level_string_columns ds numeral_eq_Suc)
  show ?thesis
    unfolding read_line_def rest tw lvl us Let_def
    by (simp add: level_string_columns ds tid_def butlast_append)
qed

end
