(* ===== verification/Io_Context.thy ===== *)
theory Io_Context
  imports Prelude "HOL-Library.Signed_Division"
begin

text \<open>
  \<open>include/ate/asio_context.hpp\<close>: what the engine hands to \<open>boost::asio\<close> and requires of it. The
  library is not part of the repository: its \<open>io_context\<close> is a type parameter, and what the code
  calls on it (starting a timer, posting a handler, running one ready handler) are arguments of
  the definitions. Here are the completion handlers, the contract of the library, the awaitable
  \<open>delay()\<close>, and one concrete library for the examples. Used by \<open>Asio_Context\<close> and by the coroutines.
\<close>

section \<open>Completion handlers\<close>

text \<open>
  The lambdas the code hands to the library: the ones of \<open>async_after\<close> and \<open>post\<close>, with the
  number of their promise and what the user's callable returns or throws, and the one of
  \<open>DelayAwaiter\<close>, which resumes a coroutine.
\<close>

datatype 'v handler = After nat "'v outcome" | Post nat "'v outcome" | Resume nat

text \<open>What a handler does when the library calls it with an error code (its message, if any).\<close>

definition timer_outcome :: "string option \<Rightarrow> 'v outcome \<Rightarrow> 'v outcome" where
  "timer_outcome ec f =
     (case ec of Some msg \<Rightarrow> Inl (Runtime_error (''Timer error: '' @ msg)) | None \<Rightarrow> f)"

definition set_promise :: "nat \<Rightarrow> 'v outcome \<Rightarrow> 'v outcome option list \<Rightarrow> 'v outcome option list" where
  "set_promise n r ps = ps[n := Some r]"

text \<open>The promises it fulfils. \<open>Resume\<close> fulfils none; the coroutine theories say what it resumes.\<close>

fun call_handler ::
    "string option \<Rightarrow> 'v handler \<Rightarrow> 'v outcome option list \<Rightarrow> 'v outcome option list" where
  "call_handler ec (After n f) ps = set_promise n (timer_outcome ec f) ps"
| "call_handler ec (Post n f) ps = set_promise n f ps"
| "call_handler ec (Resume c) ps = ps"

section \<open>What is required of the library\<close>

text \<open>
  Every handler that is registered is pending until a thread takes it, and taken exactly once.
\<close>

definition io_contract :: "('d \<Rightarrow> 'v handler \<Rightarrow> 'io \<Rightarrow> 'io) \<Rightarrow> ('v handler \<Rightarrow> 'io \<Rightarrow> 'io)
    \<Rightarrow> ('io \<Rightarrow> (string option \<times> 'v handler) option \<times> 'io) \<Rightarrow> ('io \<Rightarrow> 'v handler multiset) \<Rightarrow> bool"
  where
  "io_contract start_timer post_io run_one pending \<longleftrightarrow>
     (\<forall>d h io. pending (start_timer d h io) = add_mset h (pending io)) \<and>
     (\<forall>h io. pending (post_io h io) = add_mset h (pending io)) \<and>
     (\<forall>io io'. run_one io = (None, io') \<longrightarrow> pending io' = pending io) \<and>
     (\<forall>io ec h io'. run_one io = (Some (ec, h), io') \<longrightarrow>
        h \<in># pending io \<and> pending io' = pending io - {#h#})"

lemma io_contractD:
  assumes "io_contract st po ro pending"
  shows "pending (st d h io) = add_mset h (pending io)" "pending (po h io) = add_mset h (pending io)"
    and "ro io = (None, io') \<Longrightarrow> pending io' = pending io"
    and "ro io = (Some (ec, h), io') \<Longrightarrow> h \<in># pending io"
    and "ro io = (Some (ec, h), io') \<Longrightarrow> pending io' = pending io - {#h#}"
  using assms unfolding io_contract_def by blast+

text \<open>
  A context that is not stopped waits until it has a handler to run: it comes back without one
  only when none is pending.
\<close>

definition io_waits ::
    "('io \<Rightarrow> (string option \<times> 'v handler) option \<times> 'io) \<Rightarrow> ('io \<Rightarrow> 'v handler multiset) \<Rightarrow> bool" where
  "io_waits run_one pending \<longleftrightarrow> (\<forall>io io'. run_one io = (None, io') \<longrightarrow> pending io = {#})"

section \<open>The awaitable delay\<close>

text \<open>
  \<open>std::chrono::duration_cast\<close> from a 64-bit duration that counts \<open>num / den\<close> seconds to the
  64-bit nanoseconds of the steady clock: it multiplies by the reduced quotient of the two units and
  divides, rounding towards zero. \<open>None\<close> is the overflow of the multiplication, which is undefined.
\<close>

definition duration_cast :: "int \<Rightarrow> int \<Rightarrow> int \<Rightarrow> int option" where
  "duration_cast num den n =
     (let f = num * 1000000000; g = gcd f den; p = n * (f div g) in
      if - (2 ^ 63) \<le> p \<and> p < 2 ^ 63 then Some (p sdiv (den div g)) else None)"

text \<open>\<open>DelayAwaiter\<close>: the duration and whether its \<open>shared_ptr\<close> holds a timer.\<close>

record delay_awaiter =
  duration :: int
  timer :: bool

definition delay :: "int \<Rightarrow> int \<Rightarrow> int \<Rightarrow> delay_awaiter option" where
  "delay num den d = map_option (\<lambda>ns. \<lparr>duration = ns, timer = False\<rparr>) (duration_cast num den d)"

text \<open>
  \<open>await_suspend\<close> with the handle of coroutine \<open>c\<close>: the awaiter gets a timer, and the library a
  handler that resumes the coroutine whatever the error code.
\<close>

definition delay_await :: "(int \<Rightarrow> 'v handler \<Rightarrow> 'io \<Rightarrow> 'io) \<Rightarrow> nat \<Rightarrow> delay_awaiter \<Rightarrow> 'io
    \<Rightarrow> delay_awaiter \<times> 'io" where
  "delay_await start_timer c aw io = (aw\<lparr>timer := True\<rparr>, start_timer (duration aw) (Resume c) io)"

text \<open>
  The reduction of the quotient does not matter. Milliseconds are converted exactly, up to 292 years;
  beyond that \<open>delay\<close> overflows.
\<close>

lemma sdiv_cancel: "g > 0 \<Longrightarrow> (g * a) sdiv (g * b) = a sdiv b" for a b g :: int
  by (simp add: signed_divide_int_def sgn_mult abs_mult)

lemma duration_cast_sdiv:
  assumes "duration_cast num den n = Some t" "den > 0"
  shows "t = (n * (num * 1000000000)) sdiv den"
proof -
  define f where "f = num * 1000000000"
  define g where "g = gcd f den"
  have g: "g > 0" "g * (f div g) = f" "g * (den div g) = den"
    using assms(2) by (auto simp: g_def)
  have "t = (n * (f div g)) sdiv (den div g)"
    using assms(1) by (auto simp: duration_cast_def Let_def f_def [symmetric] g_def [symmetric] split: if_splits)
  also have "\<dots> = (g * (n * (f div g))) sdiv (g * (den div g))" using sdiv_cancel [OF g(1)] by simp
  also have "\<dots> = (n * f) sdiv den" using g(2,3) by (metis mult.left_commute)
  finally show ?thesis by (simp add: f_def)
qed

abbreviation milliseconds :: "int \<Rightarrow> delay_awaiter" where
  "milliseconds d \<equiv> the (delay 1 1000 d)"

lemma delay_milliseconds:
  "delay 1 1000 d = (if \<bar>d\<bar> \<le> 9223372036854 then Some \<lparr>duration = d * 1000000, timer = False\<rparr> else None)"
  by (auto simp: delay_def duration_cast_def Let_def abs_le_iff)

text \<open>
  C39: The conversion of a delay. Whatever the unit of the argument, \<open>num / den\<close> seconds, the timer
  is set to the duration truncated towards zero to whole nanoseconds, and is not armed yet.
  Milliseconds are converted exactly, if there are at most 9223372036854 of them: beyond these 292
  years the multiplication overflows, and the behaviour is undefined.
\<close>

theorem delay_correct:
  assumes "den > 0"
  shows "(\<forall>aw. delay num den d = Some aw \<longrightarrow>
      \<not> timer aw \<and> duration aw = (d * (num * 1000000000)) sdiv den) \<and>
    delay 1 1000 ms =
      (if \<bar>ms\<bar> \<le> 9223372036854 then Some \<lparr>duration = ms * 1000000, timer = False\<rparr> else None)"
  using duration_cast_sdiv [of num den d] assms delay_milliseconds [of ms] by (auto simp: delay_def)

theorem delay_correct_witness:
  "\<exists>aw. delay 1 3 (- 7) = Some aw \<and> duration aw = - 2333333333 \<and>
     delay 1 1000 9223372036855 = None"
proof -
  obtain aw where aw: "delay 1 3 (- 7) = Some aw"
    by (simp add: delay_def duration_cast_def Let_def gcd_non_0_int)
  moreover have "duration aw = - 2333333333"
    using delay_correct [of 3 1 "- 7" 0] aw by (simp add: signed_divide_int_def)
  moreover have "delay 1 1000 9223372036855 = None"
    using delay_correct [of 3 1 7 9223372036855] by simp
  ultimately show ?thesis by blast
qed

section \<open>A concrete library\<close>

text \<open>It keeps its handlers in a list and runs them oldest first, without errors.\<close>

definition fifo_timer :: "'d \<Rightarrow> 'v handler \<Rightarrow> 'v handler list \<Rightarrow> 'v handler list" where
  "fifo_timer d h io = io @ [h]"

definition fifo_post :: "'v handler \<Rightarrow> 'v handler list \<Rightarrow> 'v handler list" where
  "fifo_post h io = io @ [h]"

definition fifo_run :: "'v handler list \<Rightarrow> (string option \<times> 'v handler) option \<times> 'v handler list" where
  "fifo_run io = (case io of [] \<Rightarrow> (None, []) | h # hs \<Rightarrow> (Some (None, h), hs))"

lemma fifo_contract: "io_contract fifo_timer fifo_post fifo_run mset"
  by (auto simp: io_contract_def fifo_timer_def fifo_post_def fifo_run_def split: list.splits)

lemma fifo_waits: "io_waits fifo_run mset"
  by (auto simp: io_waits_def fifo_run_def split: list.splits)

end
