(* ===== verification/Coro_Task.thy ===== *)
theory Coro_Task
  imports Thread_Pool Io_Context
begin

text \<open>
  \<open>include/ate/coro_task.hpp\<close>: the lazy coroutine task for a value type, its promise, the
  awaiter that signals completion, and the awaitables that move a coroutine onto the pool or, in
  \<open>include/ate/asio_context.hpp\<close>, let a timer resume it. The compiler's state machine is the
  datatype of bodies: what is left to run at a suspension point. The pool is its task queue; a
  worker that pops a resumption resumes the frame, and so does a thread of the \<open>io_context\<close> that
  runs the handler of a timer. The coroutine has number 0 in the handlers.
\<close>

section \<open>Coroutine bodies and frames\<close>

text \<open>
  A body ends by \<open>co_return\<close> or an escaping exception, or reaches \<open>co_await pool.schedule()\<close>,
  where the second argument is what the body does when that expression throws, or
  \<open>co_await asio.delay(d)\<close> with the awaiter \<open>delay\<close> gives.
\<close>

datatype 'v body =
  Co_return 'v | Co_throw exn | Co_schedule "'v body" "exn \<Rightarrow> 'v body"
  | Co_delay delay_awaiter "'v body"

datatype 'v point = Suspended "'v body" | At_final

text \<open>A stored value that \<open>std::move\<close> may have emptied.\<close>

datatype 'v cell = Holds 'v | Moved_from

text \<open>
  \<open>CoroPromise\<close> with its suspension point. \<open>external_promise\<close> tells whether a promise of a
  \<open>get()\<close> is attached.
\<close>

record 'v frame =
  point :: "'v point"
  result_cell :: "'v cell option"
  exception_ptr :: "exn option"
  external_promise :: bool

text \<open>\<open>get_return_object\<close> and the lazy \<open>initial_suspend\<close>.\<close>

definition coro_create :: "'v body \<Rightarrow> 'v frame" where
  "coro_create b = \<lparr>point = Suspended b, result_cell = None, exception_ptr = None,
     external_promise = False\<rparr>"

definition return_value :: "'v \<Rightarrow> 'v frame \<Rightarrow> 'v frame" where
  "return_value v f = f\<lparr>result_cell := Some (Holds v)\<rparr>"

definition unhandled_exception :: "exn \<Rightarrow> 'v frame \<Rightarrow> 'v frame" where
  "unhandled_exception e f = f\<lparr>exception_ptr := Some e\<rparr>"

definition has_result :: "'v frame \<Rightarrow> bool" where
  "has_result f \<longleftrightarrow> result_cell f \<noteq> None \<or> exception_ptr f \<noteq> None"

definition set_external_promise :: "'v frame \<Rightarrow> 'v frame" where
  "set_external_promise f = f\<lparr>external_promise := True\<rparr>"

text \<open>\<open>get_result\<close>: rethrow, or move the result out; \<open>None\<close> when there is neither.\<close>

definition get_result :: "'v frame \<Rightarrow> ('v cell outcome \<times> 'v frame) option" where
  "get_result f =
     (case exception_ptr f of
        Some e \<Rightarrow> Some (Inl e, f)
      | None \<Rightarrow> (case result_cell f of
          None \<Rightarrow> None | Some c \<Rightarrow> Some (Inr c, f\<lparr>result_cell := Some Moved_from\<rparr>)))"

text \<open>
  \<open>FinalAwaiterVal::await_suspend\<close>, once the coroutine is suspended for good: what is put into
  the attached promise.
\<close>

definition final_await :: "'v frame \<Rightarrow> 'v cell outcome option \<times> 'v frame" where
  "final_await f =
     (if external_promise f
      then (case exception_ptr f of
          Some e \<Rightarrow> (Some (Inl e), f)
        | None \<Rightarrow> (map_option Inr (result_cell f), f\<lparr>result_cell := Some Moved_from\<rparr>))
      else (None, f))"

section \<open>Resumption\<close>

text \<open>
  The task object (its handle, null when moved from), the frame, the pool's queue of resumptions,
  the \<open>io_context\<close>, the promise of a \<open>get()\<close> in progress, and whether behaviour has become
  undefined.
\<close>

record ('io, 'v) coro_world =
  handle :: bool
  frame :: "'v frame option"
  resumptions :: "unit task_queue"
  coro_io :: 'io
  prom :: "'v cell outcome option"
  broken :: bool

definition coro_start :: "'v body \<Rightarrow> unit task_queue \<Rightarrow> 'io \<Rightarrow> ('io, 'v) coro_world" where
  "coro_start b q i = \<lparr>handle = True, frame = Some (coro_create b), resumptions = q, coro_io = i,
     prom = None, broken = False\<rparr>"

text \<open>
  \<open>PoolScheduler::await_suspend\<close>: submit the resumption; a closed pool throws into the body.
\<close>

definition schedule_await :: "unit task_queue \<Rightarrow> unit task_queue outcome" where
  "schedule_await q =
     (let (enqueued, q') = push () q in
      if enqueued then Inr q' else Inl (Runtime_error shut_down_message))"

text \<open>Run a body up to its next suspension or its end.\<close>

datatype ('io, 'v) stop = Awaits "'v body" "unit task_queue" 'io | Ends "'v outcome" "unit task_queue" 'io

primrec run_body :: "(int \<Rightarrow> 'v handler \<Rightarrow> 'io \<Rightarrow> 'io) \<Rightarrow> 'v body \<Rightarrow> unit task_queue \<Rightarrow> 'io
    \<Rightarrow> ('io, 'v) stop" where
  "run_body st (Co_return v) = (\<lambda>q i. Ends (Inr v) q i)"
| "run_body st (Co_throw e) = (\<lambda>q i. Ends (Inl e) q i)"
| "run_body st (Co_schedule b on_throw) = (\<lambda>q i.
     case schedule_await q of
       Inr q' \<Rightarrow> Awaits b q' i
     | Inl e \<Rightarrow> run_body st (on_throw e) q i)"
| "run_body st (Co_delay aw b) = (\<lambda>q i. Awaits b q (snd (delay_await st 0 aw i)))"

text \<open>The end of a coroutine: store the outcome, suspend for good, signal.\<close>

definition finish :: "'v outcome \<Rightarrow> 'v frame \<Rightarrow> 'v cell outcome option \<times> 'v frame" where
  "finish r f = final_await
     ((case r of Inr v \<Rightarrow> return_value v f | Inl e \<Rightarrow> unhandled_exception e f)\<lparr>point := At_final\<rparr>)"

text \<open>\<open>handle.resume()\<close>: undefined on a destroyed frame and at the final suspension.\<close>

definition resume_handle ::
    "(int \<Rightarrow> 'v handler \<Rightarrow> 'io \<Rightarrow> 'io) \<Rightarrow> ('io, 'v) coro_world \<Rightarrow> ('io, 'v) coro_world" where
  "resume_handle st w =
     (case frame w of
        None \<Rightarrow> w\<lparr>broken := True\<rparr>
      | Some f \<Rightarrow> (case point f of
          At_final \<Rightarrow> w\<lparr>broken := True\<rparr>
        | Suspended b \<Rightarrow> (case run_body st b (resumptions w) (coro_io w) of
            Awaits b' q i \<Rightarrow>
              w\<lparr>frame := Some (f\<lparr>point := Suspended b'\<rparr>), resumptions := q, coro_io := i\<rparr>
          | Ends r q i \<Rightarrow> (let (signal, f') = finish r f in
              w\<lparr>frame := Some f', resumptions := q, coro_io := i,
                prom := (case signal of None \<Rightarrow> prom w | Some s \<Rightarrow> Some s)\<rparr>))))"

text \<open>A pool worker takes one resumption; a thread of the \<open>io_context\<close> one handler.\<close>

definition worker_resume ::
    "(int \<Rightarrow> 'v handler \<Rightarrow> 'io \<Rightarrow> 'io) \<Rightarrow> ('io, 'v) coro_world \<Rightarrow> ('io, 'v) coro_world" where
  "worker_resume st w =
     (case try_pop (resumptions w) of
        (None, q) \<Rightarrow> w
      | (Some u, q) \<Rightarrow> resume_handle st (w\<lparr>resumptions := q\<rparr>))"

definition io_resume :: "(int \<Rightarrow> 'v handler \<Rightarrow> 'io \<Rightarrow> 'io)
    \<Rightarrow> ('io \<Rightarrow> (string option \<times> 'v handler) option \<times> 'io)
    \<Rightarrow> ('io, 'v) coro_world \<Rightarrow> ('io, 'v) coro_world" where
  "io_resume st ro w =
     (case ro (coro_io w) of
        (Some (ec, Resume c), i) \<Rightarrow>
          (if c = 0 then resume_handle st (w\<lparr>coro_io := i\<rparr>) else w\<lparr>coro_io := i\<rparr>)
      | (_, i) \<Rightarrow> w\<lparr>coro_io := i\<rparr>)"

section \<open>The task object\<close>

definition coro_done :: "('io, 'v) coro_world \<Rightarrow> bool" where
  "coro_done w \<longleftrightarrow> (if handle w then (\<exists>f. frame w = Some f \<and> point f = At_final) else True)"

definition coro_resume ::
    "(int \<Rightarrow> 'v handler \<Rightarrow> 'io \<Rightarrow> 'io) \<Rightarrow> ('io, 'v) coro_world \<Rightarrow> ('io, 'v) coro_world" where
  "coro_resume st w = (if handle w \<and> \<not> coro_done w then resume_handle st w else w)"

text \<open>The task object is moved into another one; this one keeps a null handle.\<close>

definition coro_moved :: "('io, 'v) coro_world \<Rightarrow> ('io, 'v) coro_world" where
  "coro_moved w = w\<lparr>handle := False\<rparr>"

definition coro_destroy :: "('io, 'v) coro_world \<Rightarrow> ('io, 'v) coro_world" where
  "coro_destroy w = (if handle w then w\<lparr>frame := None, handle := False\<rparr> else w)"

text \<open>
  \<open>get()\<close> up to its wait: an immediate answer when the coroutine is done, undefined behaviour when
  \<open>handle_.promise()\<close> is called on a null handle, otherwise a promise is attached and the
  coroutine resumed.
\<close>

datatype 'v got = Undefined_get | Answer "'v cell outcome" | Waits

definition get_begin ::
    "(int \<Rightarrow> 'v handler \<Rightarrow> 'io \<Rightarrow> 'io) \<Rightarrow> ('io, 'v) coro_world \<Rightarrow> 'v got \<times> ('io, 'v) coro_world" where
  "get_begin st w =
     (if coro_done w
      then (if \<not> handle w then (Undefined_get, w)
        else case frame w of
            None \<Rightarrow> (Undefined_get, w)
          | Some f \<Rightarrow> (case get_result f of
              None \<Rightarrow> (Undefined_get, w)
            | Some (r, f') \<Rightarrow> (Answer r, w\<lparr>frame := Some f'\<rparr>)))
      else (Waits, coro_resume st (w\<lparr>frame := map_option set_external_promise (frame w), prom := None\<rparr>)))"

text \<open>The wait of \<open>get()\<close> on its future: blocked until the promise is fulfilled.\<close>

definition get_end :: "('io, 'v) coro_world \<Rightarrow> 'v cell outcome option" where
  "get_end w = prom w"

text \<open>Whichever thread has the resumption: a worker when it is queued, otherwise one in \<open>run()\<close>.\<close>

definition resume_round :: "(int \<Rightarrow> 'v handler \<Rightarrow> 'io \<Rightarrow> 'io)
    \<Rightarrow> ('io \<Rightarrow> (string option \<times> 'v handler) option \<times> 'io)
    \<Rightarrow> ('io, 'v) coro_world \<Rightarrow> ('io, 'v) coro_world" where
  "resume_round st ro w =
     (if tasks (resumptions w) \<noteq> [] then worker_resume st w else io_resume st ro w)"

primrec resume_rounds :: "(int \<Rightarrow> 'v handler \<Rightarrow> 'io \<Rightarrow> 'io)
    \<Rightarrow> ('io \<Rightarrow> (string option \<times> 'v handler) option \<times> 'io) \<Rightarrow> nat
    \<Rightarrow> ('io, 'v) coro_world \<Rightarrow> ('io, 'v) coro_world" where
  "resume_rounds st ro 0 w = w"
| "resume_rounds st ro (Suc n) w = resume_rounds st ro n (resume_round st ro w)"

section \<open>What a coroutine computes\<close>

text \<open>
  The outcome of a body when the pool accepts every resumption, or none, and how many times it
  suspends. A timer resumes it in either case.
\<close>

primrec body_value :: "bool \<Rightarrow> 'v body \<Rightarrow> 'v outcome" where
  "body_value open_pool (Co_return v) = Inr v"
| "body_value open_pool (Co_throw e) = Inl e"
| "body_value open_pool (Co_schedule b on_throw) =
     (if open_pool then body_value open_pool b
      else body_value open_pool (on_throw (Runtime_error shut_down_message)))"
| "body_value open_pool (Co_delay aw b) = body_value open_pool b"

primrec hops :: "bool \<Rightarrow> 'v body \<Rightarrow> nat" where
  "hops open_pool (Co_return v) = 0"
| "hops open_pool (Co_throw e) = 0"
| "hops open_pool (Co_schedule b on_throw) =
     (if open_pool then Suc (hops open_pool b)
      else hops open_pool (on_throw (Runtime_error shut_down_message)))"
| "hops open_pool (Co_delay aw b) = Suc (hops open_pool b)"

definition fulfilled :: "'v outcome \<Rightarrow> 'v cell outcome" where
  "fulfilled r = (case r of Inl e \<Rightarrow> Inl e | Inr v \<Rightarrow> Inr (Holds v))"

text \<open>A coroutine inside a \<open>get()\<close>, suspended with body \<open>b\<close> and about to be resumed.\<close>

definition awaited :: "('io \<Rightarrow> 'v handler multiset) \<Rightarrow> 'v body \<Rightarrow> ('io, 'v) coro_world \<Rightarrow> bool" where
  "awaited pending b w \<longleftrightarrow> handle w \<and> \<not> broken w \<and> prom w = None \<and>
     frame w = Some ((coro_create b)\<lparr>external_promise := True\<rparr>) \<and>
     tasks (resumptions w) = [] \<and> pending (coro_io w) = {#}"

definition pool_open :: "('io, 'v) coro_world \<Rightarrow> bool" where
  "pool_open w \<longleftrightarrow> \<not> shutdown_flag (resumptions w)"

definition completed_with :: "'v outcome \<Rightarrow> ('io, 'v) coro_world \<Rightarrow> bool" where
  "completed_with r w \<longleftrightarrow> handle w \<and> \<not> broken w \<and> prom w = Some (fulfilled r) \<and> coro_done w \<and>
     tasks (resumptions w) = [] \<and>
     (\<exists>f. frame w = Some f \<and> get_result f =
        Some (case r of Inl e \<Rightarrow> Inl e | Inr v \<Rightarrow> Inr Moved_from, f))"

lemma resume_ends:
  assumes "handle w" "\<not> broken w" "prom w = None" "tasks (resumptions w) = []"
    and "frame w = Some ((coro_create b)\<lparr>external_promise := True\<rparr>)"
    and "run_body st b (resumptions w) (coro_io w) = Ends r (resumptions w) (coro_io w)"
  shows "completed_with r (resume_handle st w)"
  using assms
  by (cases r) (simp_all add: resume_handle_def coro_create_def finish_def final_await_def
      return_value_def unhandled_exception_def completed_with_def fulfilled_def coro_done_def
      get_result_def)

text \<open>
  Resuming at a suspension point. On an open pool a hop queues one resumption and the worker that
  takes it continues the body; a delay leaves one handler and the thread that runs it continues;
  on a closed pool a hop goes on at once with what the body does about the exception.
\<close>

lemma resume_hop:
  assumes "awaited pending (Co_schedule b h) w" "pool_open w"
  shows "\<exists>u. awaited pending b u \<and> pool_open u \<and> prom (resume_handle st w) = None \<and>
    resume_round st ro (resume_handle st w) = resume_handle st u"
proof -
  define u where "u = w\<lparr>frame := Some ((coro_create b)\<lparr>external_promise := True\<rparr>),
    resumptions := (resumptions w)\<lparr>tasks := []\<rparr>\<rparr>"
  have "resume_round st ro (resume_handle st w) = resume_handle st u"
    "prom (resume_handle st w) = None"
    using assms
    by (simp_all add: awaited_def pool_open_def resume_handle_def coro_create_def schedule_await_def
        push_def worker_resume_def resume_round_def try_pop_def u_def)
  moreover have "awaited pending b u" "pool_open u"
    using assms by (simp_all add: awaited_def pool_open_def u_def)
  ultimately show ?thesis by blast
qed

lemma resume_delay:
  assumes io: "io_contract st po ro pending" "io_waits ro pending"
    and w: "awaited pending (Co_delay aw b) w"
  shows "\<exists>u. awaited pending b u \<and> pool_open u = pool_open w \<and> prom (resume_handle st w) = None \<and>
    resume_round st ro (resume_handle st w) = resume_handle st u"
proof -
  let ?i = "st (duration aw) (Resume 0) (coro_io w)"
  have pend: "pending ?i = {#Resume 0#}"
    using io_contractD(1) [OF io(1)] w by (simp add: awaited_def)
  moreover obtain p i where ro: "ro ?i = (p, i)" by (cases "ro ?i")
  ultimately obtain ec h where p: "p = Some (ec, h)" using io(2) by (cases p) (auto simp: io_waits_def)
  have h: "h = Resume 0" "pending i = {#}"
    using io_contractD(4,5) [OF io(1) ro [unfolded p]] pend by simp_all
  define u where "u = w\<lparr>frame := Some ((coro_create b)\<lparr>external_promise := True\<rparr>), coro_io := i\<rparr>"
  have res: "resume_handle st w =
      w\<lparr>frame := Some ((coro_create b)\<lparr>external_promise := True\<rparr>), coro_io := ?i\<rparr>"
    using w by (simp add: awaited_def resume_handle_def coro_create_def delay_await_def)
  have "resume_round st ro (resume_handle st w) = resume_handle st u"
    "prom (resume_handle st w) = None"
    using w by (simp_all add: res awaited_def resume_round_def io_resume_def ro p h u_def)
  moreover have "awaited pending b u" "pool_open u = pool_open w"
    using w h by (simp_all add: awaited_def pool_open_def u_def)
  ultimately show ?thesis by blast
qed

lemma resume_refused:
  assumes "awaited pending (Co_schedule b h) w" "\<not> pool_open w"
  shows "\<exists>u. awaited pending (h (Runtime_error shut_down_message)) u \<and> \<not> pool_open u \<and>
    resume_handle st w = resume_handle st u"
proof -
  define u where "u = w\<lparr>frame :=
    Some ((coro_create (h (Runtime_error shut_down_message)))\<lparr>external_promise := True\<rparr>)\<rparr>"
  have "resume_handle st w = resume_handle st u"
    using assms
    by (simp add: awaited_def pool_open_def resume_handle_def coro_create_def schedule_await_def
        push_def u_def finish_def final_await_def return_value_def unhandled_exception_def
        split: stop.splits sum.splits)
  moreover have "awaited pending (h (Runtime_error shut_down_message)) u" "\<not> pool_open u"
    using assms by (simp_all add: awaited_def pool_open_def u_def)
  ultimately show ?thesis by blast
qed

lemma awaited_completes:
  assumes io: "io_contract st po ro pending" "io_waits ro pending" and w: "awaited pending b w"
  shows "completed_with (body_value (pool_open w) b)
      (resume_rounds st ro (hops (pool_open w) b) (resume_handle st w)) \<and>
    (\<forall>k < hops (pool_open w) b. prom (resume_rounds st ro k (resume_handle st w)) = None)"
  using w
proof (induction b arbitrary: w)
  case (Co_schedule b h)
  show ?case
  proof (cases "pool_open w")
    case True
    obtain u where u: "awaited pending b u" "pool_open u" "prom (resume_handle st w) = None"
        "resume_round st ro (resume_handle st w) = resume_handle st u"
      using resume_hop [OF Co_schedule.prems True] by blast
    have "prom (resume_rounds st ro k (resume_handle st w)) = None" if "k < Suc (hops True b)" for k
      using that u Co_schedule.IH(1) [OF u(1)] by (cases k) auto
    then show ?thesis
      using u Co_schedule.IH(1) [OF u(1)] True by simp
  next
    case False
    then obtain u where "awaited pending (h (Runtime_error shut_down_message)) u" "\<not> pool_open u"
        "resume_handle st w = resume_handle st u"
      using resume_refused [OF Co_schedule.prems] by blast
    then show ?thesis
      using Co_schedule.IH(2) [of "h (Runtime_error shut_down_message)" u] False by simp
  qed
next
  case (Co_delay aw b)
  obtain u where u: "awaited pending b u" "pool_open u = pool_open w"
      "prom (resume_handle st w) = None"
      "resume_round st ro (resume_handle st w) = resume_handle st u"
    using resume_delay [OF io Co_delay.prems] by blast
  have "prom (resume_rounds st ro k (resume_handle st w)) = None"
    if "k < Suc (hops (pool_open w) b)" for k
    using that u Co_delay.IH [OF u(1)] by (cases k) auto
  then show ?case
    using u Co_delay.IH [OF u(1)] by simp
qed (auto simp: awaited_def intro!: resume_ends)

lemma get_begin_fresh:
  assumes "tasks q = []" "pending i = {#}"
  shows "\<exists>w. awaited pending b w \<and> pool_open w = (\<not> shutdown_flag q) \<and>
    get_begin st (coro_start b q i) = (Waits, resume_handle st w)"
  using assms
  by (intro exI [of _ "(coro_start b q i)\<lparr>frame := Some ((coro_create b)\<lparr>external_promise := True\<rparr>)\<rparr>"])
    (simp add: get_begin_def coro_done_def coro_start_def coro_create_def awaited_def coro_resume_def
      set_external_promise_def pool_open_def)

lemma completed_get_again:
  "completed_with r w \<Longrightarrow> fst (get_begin st w) =
     Answer (case r of Inl e \<Rightarrow> Inl e | Inr v \<Rightarrow> Inr Moved_from)"
  by (auto simp: completed_with_def get_begin_def coro_done_def)

lemma get_moved: "coro_done (coro_moved w) \<and> fst (get_begin st (coro_moved w)) = Undefined_get"
  by (simp add: get_begin_def coro_done_def coro_moved_def)

section \<open>The specialisation for void\<close>

text \<open>\<open>CoroPromise<void>\<close> and \<open>FinalAwaiterVoid\<close>: a flag instead of a value.\<close>

record void_frame =
  void_point :: "unit point"
  completed :: bool
  void_exception :: "exn option"
  void_promise :: bool

definition void_create :: "unit body \<Rightarrow> void_frame" where
  "void_create b = \<lparr>void_point = Suspended b, completed = False, void_exception = None,
     void_promise = False\<rparr>"

definition return_void :: "void_frame \<Rightarrow> void_frame" where
  "return_void f = f\<lparr>completed := True\<rparr>"

definition void_unhandled_exception :: "exn \<Rightarrow> void_frame \<Rightarrow> void_frame" where
  "void_unhandled_exception e f = f\<lparr>void_exception := Some e\<rparr>"

definition void_has_result :: "void_frame \<Rightarrow> bool" where
  "void_has_result f \<longleftrightarrow> completed f \<or> void_exception f \<noteq> None"

definition void_set_external_promise :: "void_frame \<Rightarrow> void_frame" where
  "void_set_external_promise f = f\<lparr>void_promise := True\<rparr>"

definition void_get_result :: "void_frame \<Rightarrow> unit outcome" where
  "void_get_result f = (case void_exception f of Some e \<Rightarrow> Inl e | None \<Rightarrow> Inr ())"

definition void_final_await :: "void_frame \<Rightarrow> unit outcome option" where
  "void_final_await f =
     (if void_promise f
      then (case void_exception f of Some e \<Rightarrow> Some (Inl e) | None \<Rightarrow> Some (Inr ()))
      else None)"

definition void_finish :: "unit outcome \<Rightarrow> void_frame \<Rightarrow> unit outcome option \<times> void_frame" where
  "void_finish r f =
     (let f' = (case r of Inr v \<Rightarrow> return_void f | Inl e \<Rightarrow> void_unhandled_exception e f)
        \<lparr>void_point := At_final\<rparr>
      in (void_final_await f', f'))"

text \<open>The void promise as a promise of the type with one value.\<close>

definition void_abs :: "void_frame \<Rightarrow> unit frame" where
  "void_abs f = \<lparr>point = void_point f,
     result_cell = (if completed f then Some (Holds ()) else None),
     exception_ptr = void_exception f, external_promise = void_promise f\<rparr>"

text \<open>
  Both specialisations agree: creation, the test for a result, attaching a promise, and the end of
  a coroutine that has not ended yet, which signals the same outcome and leaves the same answer
  for a direct \<open>get_result\<close>, except that a void result cannot be moved away.
\<close>

lemma void_refines:
  "void_abs (void_create b) = coro_create b"
  "void_has_result f \<longleftrightarrow> has_result (void_abs f)"
  "void_abs (void_set_external_promise f) = set_external_promise (void_abs f)"
  by (simp_all add: void_abs_def void_create_def coro_create_def void_has_result_def has_result_def
      void_set_external_promise_def set_external_promise_def)

lemma void_finish_refines:
  assumes "\<not> void_has_result f"
  shows "map_option fulfilled (fst (void_finish r f)) = fst (finish r (void_abs f)) \<and>
    (\<not> void_promise f \<longrightarrow>
      void_abs (snd (void_finish r f)) = snd (finish r (void_abs f)) \<and>
      map_option fst (get_result (snd (finish r (void_abs f)))) =
        Some (fulfilled (void_get_result (snd (void_finish r f)))))"
  using assms
  by (cases r) (simp_all add: void_finish_def finish_def void_abs_def return_void_def
      return_value_def void_unhandled_exception_def unhandled_exception_def void_final_await_def
      final_await_def get_result_def void_get_result_def void_has_result_def fulfilled_def Let_def)

section \<open>Disciplined use\<close>

text \<open>
  Clients that call \<open>resume()\<close>, \<open>get()\<close> or the destructor only when no resumption is queued and
  no timer is armed for the coroutine; workers, threads in \<open>run()\<close>, other users of the
  \<open>io_context\<close>, and a shutdown of the pool at any time.
\<close>

definition idle :: "('io \<Rightarrow> 'v handler multiset) \<Rightarrow> ('io, 'v) coro_world \<Rightarrow> bool" where
  "idle pending w \<longleftrightarrow> tasks (resumptions w) = [] \<and> Resume 0 \<notin># pending (coro_io w)"

inductive coro_step :: "(int \<Rightarrow> 'v handler \<Rightarrow> 'io \<Rightarrow> 'io) \<Rightarrow> ('v handler \<Rightarrow> 'io \<Rightarrow> 'io)
    \<Rightarrow> ('io \<Rightarrow> (string option \<times> 'v handler) option \<times> 'io) \<Rightarrow> ('io \<Rightarrow> 'v handler multiset)
    \<Rightarrow> ('io, 'v) coro_world \<Rightarrow> ('io, 'v) coro_world \<Rightarrow> bool" for st po ro pending where
  resume: "idle pending w \<Longrightarrow> coro_step st po ro pending w (coro_resume st w)"
| get: "idle pending w \<Longrightarrow> handle w \<Longrightarrow> coro_step st po ro pending w (snd (get_begin st w))"
| destroy: "idle pending w \<Longrightarrow> coro_step st po ro pending w (coro_destroy w)"
| move: "coro_step st po ro pending w (coro_moved w)"
| worker: "coro_step st po ro pending w (worker_resume st w)"
| io: "coro_step st po ro pending w (io_resume st ro w)"
| timer: "h \<noteq> Resume 0 \<Longrightarrow> coro_step st po ro pending w (w\<lparr>coro_io := st d h (coro_io w)\<rparr>)"
| post: "h \<noteq> Resume 0 \<Longrightarrow> coro_step st po ro pending w (w\<lparr>coro_io := po h (coro_io w)\<rparr>)"
| close_pool: "coro_step st po ro pending w (w\<lparr>resumptions := shutdown (resumptions w)\<rparr>)"

text \<open>The start: a library that keeps its contract, and a coroutine that was just called.\<close>

inductive coro_init :: "(int \<Rightarrow> 'v handler \<Rightarrow> 'io \<Rightarrow> 'io) \<Rightarrow> ('v handler \<Rightarrow> 'io \<Rightarrow> 'io)
    \<Rightarrow> ('io \<Rightarrow> (string option \<times> 'v handler) option \<times> 'io) \<Rightarrow> ('io \<Rightarrow> 'v handler multiset)
    \<Rightarrow> ('io, 'v) coro_world \<Rightarrow> bool" for st po ro pending where
  "io_contract st po ro pending \<Longrightarrow> tasks q = [] \<Longrightarrow> Resume 0 \<notin># pending i
     \<Longrightarrow> coro_init st po ro pending (coro_start b q i)"

definition frame_ok :: "'v frame \<Rightarrow> bool" where
  "frame_ok f \<longleftrightarrow> (point f = At_final \<longrightarrow> has_result f)"

text \<open>The number of places from which the coroutine will be resumed.\<close>

definition due :: "('io \<Rightarrow> 'v handler multiset) \<Rightarrow> unit task_queue \<Rightarrow> 'io \<Rightarrow> nat" where
  "due pending q i = length (tasks q) + count (pending i) (Resume 0)"

definition coro_inv :: "('io \<Rightarrow> 'v handler multiset) \<Rightarrow> ('io, 'v) coro_world \<Rightarrow> bool" where
  "coro_inv pending w \<longleftrightarrow> \<not> broken w \<and> due pending (resumptions w) (coro_io w) \<le> 1 \<and>
     (\<forall>f. frame w = Some f \<longrightarrow> frame_ok f) \<and>
     (handle w \<longrightarrow> frame w \<noteq> None) \<and>
     (due pending (resumptions w) (coro_io w) \<noteq> 0 \<longrightarrow>
       (\<exists>f b. frame w = Some f \<and> point f = Suspended b))"

lemma idle_due: "idle pending w \<longleftrightarrow> due pending (resumptions w) (coro_io w) = 0"
  by (auto simp: idle_def due_def count_eq_zero_iff)

lemma run_body_due:
  assumes "io_contract st po ro pending" "due pending q i = 0"
  shows "case run_body st b q i of
      Awaits b' q' i' \<Rightarrow> due pending q' i' = 1 | Ends r q' i' \<Rightarrow> due pending q' i' = 0"
  using assms(2)
proof (induction b)
  case (Co_schedule b h)
  then show ?case
    by (cases "shutdown_flag q") (auto simp: schedule_await_def push_def due_def)
qed (auto simp: due_def delay_await_def io_contractD(1) [OF assms(1)])

lemma finish_frame_ok:
  "frame_ok (snd (finish r f)) \<and> point (snd (finish r f)) = At_final"
  by (cases r) (auto simp: finish_def final_await_def return_value_def unhandled_exception_def
      frame_ok_def has_result_def split: option.splits)

lemma coro_inv_resume:
  assumes "io_contract st po ro pending" "coro_inv pending w" "idle pending w"
    and "frame w = Some f" "point f = Suspended b"
  shows "coro_inv pending (resume_handle st w)"
proof (cases "run_body st b (resumptions w) (coro_io w)")
  case (Awaits b' q i)
  then show ?thesis
    using assms(2-) run_body_due [OF assms(1) assms(3) [unfolded idle_due], of b]
    by (auto simp: resume_handle_def coro_inv_def frame_ok_def)
next
  case (Ends r q i)
  then show ?thesis
    using assms(2-) run_body_due [OF assms(1) assms(3) [unfolded idle_due], of b]
      finish_frame_ok [of r f]
    by (auto simp: resume_handle_def coro_inv_def split: prod.splits)
qed

lemma coro_inv_client_resume:
  assumes "io_contract st po ro pending" "coro_inv pending w" "idle pending w"
  shows "coro_inv pending (coro_resume st w)"
proof (cases "handle w \<and> \<not> coro_done w")
  case True
  then obtain f b where "frame w = Some f" "point f = Suspended b"
    using assms(2) by (cases "frame w"; cases "point (the (frame w))") (auto simp: coro_inv_def coro_done_def)
  then show ?thesis using coro_inv_resume [OF assms] True by (simp add: coro_resume_def)
next
  case False
  then show ?thesis using assms(2) by (auto simp: coro_resume_def)
qed

lemma coro_inv_get:
  assumes "io_contract st po ro pending" "coro_inv pending w" "idle pending w" "handle w"
  shows "coro_inv pending (snd (get_begin st w)) \<and> fst (get_begin st w) \<noteq> Undefined_get"
proof (cases "coro_done w")
  case True
  then obtain f where f: "frame w = Some f" "point f = At_final"
    using assms(4) by (auto simp: coro_done_def)
  then have "has_result f" using assms(2) by (simp add: coro_inv_def frame_ok_def)
  then show ?thesis
    using assms f True
    by (auto simp: get_begin_def get_result_def has_result_def coro_inv_def frame_ok_def
        split: option.splits)
next
  case False
  let ?w = "w\<lparr>frame := map_option set_external_promise (frame w), prom := None\<rparr>"
  have "coro_inv pending ?w" "idle pending ?w"
    using assms(2,3)
    by (auto simp: coro_inv_def frame_ok_def has_result_def set_external_promise_def idle_def)
  from coro_inv_client_resume [OF assms(1) this] show ?thesis
    using False by (simp add: get_begin_def)
qed

text \<open>A thread that takes the one resumption due.\<close>

lemma coro_inv_take:
  assumes io: "io_contract st po ro pending" and inv: "coro_inv pending w"
    and w': "w' = w\<lparr>resumptions := q, coro_io := i\<rparr>"
    and due: "Suc (due pending q i) = due pending (resumptions w) (coro_io w)"
  shows "coro_inv pending (resume_handle st w')"
proof -
  obtain f b where f: "frame w = Some f" "point f = Suspended b"
    using inv due by (auto simp: coro_inv_def)
  have "coro_inv pending w'" "idle pending w'"
    using inv due by (simp_all add: coro_inv_def idle_due w')
  then show ?thesis
    by (rule coro_inv_resume [OF io]) (use f in \<open>simp_all add: w'\<close>)
qed

lemma coro_inv_worker:
  assumes "io_contract st po ro pending" "coro_inv pending w"
  shows "coro_inv pending (worker_resume st w)"
proof (cases "tasks (resumptions w)")
  case Nil
  then show ?thesis using assms by (simp add: worker_resume_def try_pop_def)
next
  case (Cons u us)
  let ?q = "(resumptions w)\<lparr>tasks := us\<rparr>"
  have "coro_inv pending (resume_handle st (w\<lparr>resumptions := ?q\<rparr>))"
    by (rule coro_inv_take [OF assms, where q = ?q and i = "coro_io w"]) (simp_all add: due_def Cons)
  then show ?thesis using Cons by (simp add: worker_resume_def try_pop_def)
qed

lemma coro_inv_io_changed:
  assumes "coro_inv pending w" "count (pending i) (Resume 0) = count (pending (coro_io w)) (Resume 0)"
  shows "coro_inv pending (w\<lparr>coro_io := i\<rparr>)"
  using assms by (simp add: coro_inv_def due_def)

lemma coro_inv_io:
  assumes io: "io_contract st po ro pending" and inv: "coro_inv pending w"
  shows "coro_inv pending (io_resume st ro w)"
proof -
  obtain p i where ro: "ro (coro_io w) = (p, i)" by (cases "ro (coro_io w)")
  show ?thesis
  proof (cases p)
    case None
    then show ?thesis
      using coro_inv_io_changed [OF inv] io_contractD(3) [OF io ro [unfolded None]]
      by (simp add: io_resume_def ro)
  next
    case (Some eh)
    then obtain ec h where p: "p = Some (ec, h)" by (cases eh) auto
    note taken = io_contractD(4,5) [OF io ro [unfolded p]]
    show ?thesis
    proof (cases "h = Resume 0")
      case True
      have "Suc (count (pending i) (Resume 0)) = count (pending (coro_io w)) (Resume 0)"
        using taken True by (metis Suc_pred count_greater_zero_iff count_single diff_Suc_1
            count_diff One_nat_def)
      then have "coro_inv pending (resume_handle st (w\<lparr>coro_io := i\<rparr>))"
        by (intro coro_inv_take [OF io inv, where q = "resumptions w" and i = i]) (simp_all add: due_def)
      then show ?thesis using p True by (simp add: io_resume_def ro)
    next
      case False
      then have "count (pending i) (Resume 0) = count (pending (coro_io w)) (Resume 0)"
        using taken by simp
      from coro_inv_io_changed [OF inv this] show ?thesis
        using p False by (cases h) (simp_all add: io_resume_def ro)
    qed
  qed
qed

lemma coro_inv_step:
  assumes io: "io_contract st po ro pending"
  shows "coro_step st po ro pending w w' \<Longrightarrow> coro_inv pending w \<Longrightarrow> coro_inv pending w'"
proof (induction rule: coro_step.induct)
  case (get w)
  then show ?case using coro_inv_get [OF io] by blast
next
  case (resume w)
  then show ?case by (simp add: coro_inv_client_resume [OF io])
next
  case (worker w)
  then show ?case by (rule coro_inv_worker [OF io])
next
  case (io w)
  then show ?case by (rule coro_inv_io [OF assms])
next
  case (timer h w d)
  then show ?case by (intro coro_inv_io_changed) (auto simp: io_contractD(1) [OF io])
next
  case (post h w)
  then show ?case by (intro coro_inv_io_changed) (auto simp: io_contractD(2) [OF io])
next
  case (destroy w)
  then show ?case by (auto simp: coro_inv_def coro_destroy_def idle_due)
qed (auto simp: coro_inv_def coro_moved_def shutdown_def due_def)

lemma coro_inv_init: "coro_init st po ro pending w \<Longrightarrow> io_contract st po ro pending \<and> coro_inv pending w"
  by (induction rule: coro_init.induct)
    (simp add: coro_start_def coro_inv_def frame_ok_def coro_create_def due_def not_in_iff)

interpretation coro: state_invariant "coro_init st po ro pending" "coro_step st po ro pending"
    "\<lambda>w. io_contract st po ro pending \<and> coro_inv pending w" for st po ro pending
  by unfold_locales (auto dest: coro_inv_init intro: coro_inv_step)

section \<open>Properties\<close>

text \<open>
  C10: \<open>get()\<close> on a fresh coroutine. It returns the value the body returns, or rethrows what the
  body throws, after exactly as many resumptions by pool workers and threads of the \<open>io_context\<close>
  as the body awaits \<open>pool.schedule()\<close> and \<open>asio.delay()\<close>, and blocks until then. On a pool that
  is shut down every \<open>co_await pool.schedule()\<close> throws into the body instead of suspending it.
  Nothing undefined happens, no resumption is left in the pool, and the task is done. A coroutine
  that never suspends completes inside the call.
\<close>

lemma coro_get_correct:
  assumes "io_contract st po ro pending" and "io_waits ro pending"
    and "tasks q = []" and "pending i = {#}"
  shows "let (g, w) = get_begin st (coro_start b q i); open_pool = (\<not> is_shutdown q);
             w' = resume_rounds st ro (hops open_pool b) w in
    g = Waits \<and> (\<forall>k < hops open_pool b. get_end (resume_rounds st ro k w) = None) \<and>
    get_end w' = Some (fulfilled (body_value open_pool b)) \<and>
    \<not> broken w' \<and> coro_done w' \<and> tasks (resumptions w') = []"
proof -
  obtain w where "awaited pending b w" "pool_open w = (\<not> shutdown_flag q)"
      "get_begin st (coro_start b q i) = (Waits, resume_handle st w)"
    using get_begin_fresh [OF assms(3), of pending] assms(4) by blast
  then show ?thesis
    using awaited_completes [OF assms(1,2), of b w]
    by (simp add: completed_with_def get_end_def is_shutdown_def)
qed

text \<open>
  A second \<open>get()\<close>. After a first \<open>get()\<close> has returned, another call rethrows the same
  exception when there was one, but otherwise does not fail: it returns a moved-from value. And
  \<open>get()\<close> on a task that has been moved from, which reports \<open>done()\<close>, is undefined.
\<close>

lemma coro_second_get:
  assumes "io_contract st po ro pending" and "io_waits ro pending"
    and "tasks q = []" and "pending i = {#}"
  shows "(let open_pool = (\<not> is_shutdown q);
        w = resume_rounds st ro (hops open_pool b) (snd (get_begin st (coro_start b q i))) in
      fst (get_begin st w) =
        Answer (case body_value open_pool b of Inl e \<Rightarrow> Inl e | Inr v \<Rightarrow> Inr Moved_from)) \<and>
    coro_done (coro_moved v) \<and> fst (get_begin st (coro_moved v)) = Undefined_get"
proof -
  obtain u where "awaited pending b u" "pool_open u = (\<not> shutdown_flag q)"
      "get_begin st (coro_start b q i) = (Waits, resume_handle st u)"
    using get_begin_fresh [OF assms(3), of pending] assms(4) by blast
  then have "completed_with (body_value (\<not> is_shutdown q) b)
      (resume_rounds st ro (hops (\<not> is_shutdown q) b) (snd (get_begin st (coro_start b q i))))"
    using awaited_completes [OF assms(1,2), of b u] by (simp add: is_shutdown_def)
  then show ?thesis
    by (simp only: Let_def completed_get_again get_moved simp_thms)
qed

text \<open>
  \<open>resume()\<close> before \<open>get()\<close> breaks a pool-scheduled coroutine. After \<open>resume()\<close> has queued
  it on the pool, \<open>get()\<close> resumes it again in the calling thread; the worker that later takes
  the queued resumption then resumes a coroutine that has already finished.
\<close>

lemma coro_resume_then_get_breaks:
  "let w = coro_resume st (coro_start (Co_schedule (Co_return (5::nat)) Co_throw) TaskQueue i);
       (g, w') = get_begin st w
   in g = Waits \<and> get_end w' = Some (Inr (Holds 5)) \<and> \<not> broken w' \<and> broken (worker_resume st w')"
  by (simp add: coro_resume_def coro_done_def coro_start_def coro_create_def resume_handle_def
      schedule_await_def push_def get_begin_def set_external_promise_def finish_def final_await_def
      return_value_def get_end_def worker_resume_def try_pop_def TaskQueue_def Let_def)

text \<open>
  C31: Well-formedness under disciplined use. As long as clients call \<open>resume()\<close>, \<open>get()\<close> and the
  destructor only while no resumption is queued on the pool and no timer is armed for the
  coroutine, then in every reachable state nothing undefined has happened, at most one resumption
  or timer is outstanding, only for a coroutine that is suspended before its end, and \<open>get()\<close>
  on a task that holds a coroutine is defined.
\<close>

lemma coro_discipline_safe:
  assumes "reach (coro_init st po ro pending) (coro_step st po ro pending) n w"
  shows "\<not> broken w \<and>
    length (tasks (resumptions w)) + count (pending (coro_io w)) (Resume 0) \<le> 1 \<and>
    (idle pending w \<or> (\<exists>f b. frame w = Some f \<and> point f = Suspended b)) \<and>
    (idle pending w \<and> handle w \<longrightarrow> fst (get_begin st w) \<noteq> Undefined_get)"
proof -
  have inv: "io_contract st po ro pending" "coro_inv pending w"
    using coro.reach_state [OF assms] by blast+
  have "idle pending w \<or> (\<exists>f b. frame w = Some f \<and> point f = Suspended b)"
    using inv(2) by (cases "idle pending w") (simp_all add: coro_inv_def idle_due)
  moreover have "idle pending w \<and> handle w \<longrightarrow> fst (get_begin st w) \<noteq> Undefined_get"
    using coro_inv_get [OF inv] by blast
  ultimately show ?thesis using inv(2) by (simp add: coro_inv_def due_def)
qed

section \<open>Concrete runs\<close>

definition coro_demo :: "nat body" where
  "coro_demo = Co_schedule (Co_delay (milliseconds 5) (Co_return 9)) (\<lambda>e. Co_return 0)"

lemma coro_get_correct_witness:
  "get_end (resume_rounds fifo_timer fifo_run 2
     (snd (get_begin fifo_timer (coro_start coro_demo TaskQueue [])))) = Some (Inr (Holds 9))"
  using coro_get_correct [OF fifo_contract fifo_waits, of TaskQueue "[]" coro_demo]
  by (simp add: coro_demo_def TaskQueue_def is_shutdown_def fulfilled_def numeral_2_eq_2 Let_def
      split: prod.splits)

lemma coro_discipline_safe_witness:
  "let w = worker_resume fifo_timer (coro_resume fifo_timer (coro_start coro_demo TaskQueue []))
   in \<not> broken w \<and> count (mset (coro_io w)) (Resume 0) = 1 \<and>
     (\<exists>f b. frame w = Some f \<and> point f = Suspended b)"
proof -
  let ?reach = "reach (coro_init fifo_timer fifo_post fifo_run mset)
    (coro_step fifo_timer fifo_post fifo_run mset)"
  let ?w = "coro_start coro_demo TaskQueue []"
  define w where "w = worker_resume fifo_timer (coro_resume fifo_timer ?w)"
  have "?reach 0 ?w"
    by (intro reach.start coro_init.intros fifo_contract) (simp_all add: TaskQueue_def)
  from reach.more [OF this coro_step.resume]
  have "?reach (Suc 0) (coro_resume fifo_timer ?w)"
    by (simp add: coro_start_def TaskQueue_def idle_def)
  from reach.more [OF this coro_step.worker] have "?reach (Suc (Suc 0)) w"
    by (simp add: w_def)
  note safe = coro_discipline_safe [OF this]
  have one: "coro_io w = [Resume 0]"
    by (simp add: w_def coro_demo_def coro_resume_def coro_done_def coro_start_def coro_create_def
        resume_handle_def schedule_await_def push_def worker_resume_def try_pop_def TaskQueue_def
        delay_await_def fifo_timer_def)
  then have "\<not> idle mset w" by (simp add: idle_def)
  then show ?thesis
    using safe one by (simp add: w_def [symmetric])
qed

end
