(* ===== verification/Coro_Ownership.thy ===== *)
theory Coro_Ownership
  imports Prelude
begin

text \<open>
  \<open>include/ate/coro_task.hpp\<close>: who owns a coroutine frame. \<open>CoroTask\<close> objects hold a handle
  each and are constructed, moved, assigned and destroyed in any order; the last two destroy
  frames. The theory \<open>Coro_Task\<close> looks at one object and the running of its coroutine; here there
  are any number of objects and only the lifetimes of the frames.
\<close>

section \<open>Objects and frames\<close>

text \<open>An object with its handle (null when moved from), or one whose lifetime has ended.\<close>

datatype task_object = Task_object "nat option" | Ended

text \<open>
  The objects in the order of their construction, and for every frame ever allocated whether it is
  alive. \<open>destroyed_twice\<close> records a \<open>destroy()\<close> of a frame that was not.
\<close>

record task_heap =
  objects :: "task_object list"
  alive :: "bool list"
  destroyed_twice :: bool

definition no_tasks :: task_heap where
  "no_tasks = \<lparr>objects = [], alive = [], destroyed_twice = False\<rparr>"

definition holds :: "task_object list \<Rightarrow> nat \<Rightarrow> nat \<Rightarrow> bool" where
  "holds obs i h \<longleftrightarrow> i < length obs \<and> obs ! i = Task_object (Some h)"

definition frame_alive :: "bool list \<Rightarrow> nat \<Rightarrow> bool" where
  "frame_alive al h \<longleftrightarrow> h < length al \<and> al ! h"

text \<open>\<open>handle_.destroy()\<close>, behind the test that the handle is not null.\<close>

definition destroy_frame :: "nat option \<Rightarrow> task_heap \<Rightarrow> task_heap" where
  "destroy_frame hdl w =
     (case hdl of
        None \<Rightarrow> w
      | Some h \<Rightarrow> if frame_alive (alive w) h then w\<lparr>alive := (alive w)[h := False]\<rparr>
          else w\<lparr>destroyed_twice := True\<rparr>)"

definition set_handle :: "nat \<Rightarrow> nat option \<Rightarrow> task_heap \<Rightarrow> task_heap" where
  "set_handle i hdl w = w\<lparr>objects := (objects w)[i := Task_object hdl]\<rparr>"

text \<open>Calling a coroutine allocates a frame; \<open>get_return_object\<close> constructs the object.\<close>

definition task_call :: "task_heap \<Rightarrow> task_heap" where
  "task_call w =
     w\<lparr>objects := objects w @ [Task_object (Some (length (alive w)))], alive := alive w @ [True]\<rparr>"

text \<open>
  The move constructor, the move assignment and the destructor. Each needs objects whose lifetime
  has not ended.
\<close>

definition task_move :: "nat \<Rightarrow> task_heap \<Rightarrow> task_heap option" where
  "task_move j w =
     (if j < length (objects w) then case objects w ! j of
          Ended \<Rightarrow> None
        | Task_object hdl \<Rightarrow> Some (let w' = set_handle j None w in
            w'\<lparr>objects := objects w' @ [Task_object hdl]\<rparr>)
      else None)"

definition task_assign :: "nat \<Rightarrow> nat \<Rightarrow> task_heap \<Rightarrow> task_heap option" where
  "task_assign i j w =
     (if i < length (objects w) \<and> j < length (objects w) then case (objects w ! i, objects w ! j) of
          (Task_object mine, Task_object other) \<Rightarrow>
            Some (if i \<noteq> j then set_handle i other (set_handle j None (destroy_frame mine w)) else w)
        | _ \<Rightarrow> None
      else None)"

definition task_end :: "nat \<Rightarrow> task_heap \<Rightarrow> task_heap option" where
  "task_end i w =
     (if i < length (objects w) then case objects w ! i of
          Ended \<Rightarrow> None
        | Task_object hdl \<Rightarrow> Some (let w' = destroy_frame hdl w in
            w'\<lparr>objects := (objects w')[i := Ended]\<rparr>)
      else None)"

inductive task_step :: "task_heap \<Rightarrow> task_heap \<Rightarrow> bool" where
  call: "task_step w (task_call w)"
| move: "task_move j w = Some w' \<Longrightarrow> task_step w w'"
| assign: "task_assign i j w = Some w' \<Longrightarrow> task_step w w'"
| ends: "task_end i w = Some w' \<Longrightarrow> task_step w w'"

inductive_cases task_stepE: "task_step w w'"

section \<open>The invariant\<close>

text \<open>The objects' handles are the frames alive, each held by exactly one object.\<close>

definition owned :: "task_object list \<Rightarrow> bool list \<Rightarrow> bool" where
  "owned obs al \<longleftrightarrow>
     (\<forall>i j h. holds obs i h \<longrightarrow> holds obs j h \<longrightarrow> i = j) \<and>
     (\<forall>h. frame_alive al h \<longleftrightarrow> (\<exists>i. holds obs i h))"

definition owned_once :: "task_heap \<Rightarrow> bool" where
  "owned_once w \<longleftrightarrow> \<not> destroyed_twice w \<and> owned (objects w) (alive w)"

lemma ownedI:
  assumes "\<And>i j h. holds obs i h \<Longrightarrow> holds obs j h \<Longrightarrow> i = j"
    and "\<And>h. frame_alive al h \<longleftrightarrow> (\<exists>i. holds obs i h)"
  shows "owned obs al"
  using assms unfolding owned_def by blast

lemma ownedD:
  assumes "owned obs al"
  shows "holds obs i h \<Longrightarrow> holds obs j h \<Longrightarrow> i = j"
    and "frame_alive al h \<longleftrightarrow> (\<exists>i. holds obs i h)"
  using assms unfolding owned_def by blast+

lemma holds_append [simp]:
  "holds (obs @ [ob]) i h \<longleftrightarrow> holds obs i h \<or> i = length obs \<and> ob = Task_object (Some h)"
  by (auto simp: holds_def nth_append)

lemma holds_update [simp]:
  "holds (obs[k := ob]) i h \<longleftrightarrow>
     (if i = k then k < length obs \<and> ob = Task_object (Some h) else holds obs i h)"
  by (auto simp: holds_def)

lemma holds_length: "holds obs i h \<Longrightarrow> i < length obs"
  by (simp add: holds_def)

lemma frame_alive_simps [simp]:
  "frame_alive (al[k := False]) h \<longleftrightarrow> frame_alive al h \<and> h \<noteq> k"
  "frame_alive (al @ [True]) h \<longleftrightarrow> frame_alive al h \<or> h = length al"
  by (cases "h = k") (auto simp: frame_alive_def nth_append)

lemma owned_call:
  assumes "owned obs al"
  shows "owned (obs @ [Task_object (Some (length al))]) (al @ [True])"
proof -
  have "\<not> holds obs i (length al)" for i
    using ownedD(2) [OF assms, of "length al"] by (auto simp: frame_alive_def)
  then show ?thesis
    using ownedD [OF assms] by (intro ownedI) auto
qed

text \<open>A handle passes from one object to another that has none.\<close>

lemma owned_transfer:
  assumes inv: "owned obs al" and j: "j < length obs" "obs ! j = Task_object hdl"
    and i: "i < length obs" "i \<noteq> j" "\<And>h. \<not> holds obs i h"
  shows "owned (obs[j := Task_object None, i := Task_object hdl]) al"
proof (rule ownedI)
  have hj: "holds obs j h \<longleftrightarrow> hdl = Some h" for h
    using j by (auto simp: holds_def)
  have new: "holds (obs[j := Task_object None, i := Task_object hdl]) k h \<longleftrightarrow>
      (k = i \<and> holds obs j h \<or> k \<noteq> i \<and> k \<noteq> j \<and> holds obs k h)" for k h
    using i(1) hj [of h] by simp
  show "a = b" if "holds (obs[j := Task_object None, i := Task_object hdl]) a h"
    "holds (obs[j := Task_object None, i := Task_object hdl]) b h" for a b h
    using that ownedD(1) [OF inv] unfolding new by metis
  show "frame_alive al h \<longleftrightarrow> (\<exists>k. holds (obs[j := Task_object None, i := Task_object hdl]) k h)" for h
    unfolding new using ownedD(2) [OF inv, of h] i(3) by metis
qed

text \<open>The frame of an object is destroyed and the object loses its handle.\<close>

lemma owned_release:
  assumes inv: "owned_once w" and i: "i < length (objects w)" "objects w ! i = Task_object hdl"
    and ob: "\<And>h. ob \<noteq> Task_object (Some h)"
  shows "owned_once ((destroy_frame hdl w)\<lparr>objects := (objects w)[i := ob]\<rparr>)"
proof -
  have own: "owned (objects w) (alive w)" and ok: "\<not> destroyed_twice w"
    using inv by (auto simp: owned_once_def)
  show ?thesis
  proof (cases hdl)
    case None
    then have "\<not> holds (objects w) i h" for h using i by (simp add: holds_def)
    then have "owned ((objects w)[i := ob]) (alive w)"
      using ob ownedD [OF own] by (intro ownedI) (auto split: if_splits, metis+)
    then show ?thesis using None ok by (simp add: owned_once_def destroy_frame_def)
  next
    case (Some h)
    then have h: "holds (objects w) i k \<longleftrightarrow> k = h" for k
      using i by (auto simp: holds_def)
    then have a: "frame_alive (alive w) h" using ownedD(2) [OF own] by blast
    have new: "holds ((objects w)[i := ob]) j k \<longleftrightarrow> j \<noteq> i \<and> holds (objects w) j k" for j k
      using ob by simp
    have "owned ((objects w)[i := ob]) ((alive w)[h := False])"
    proof (rule ownedI)
      fix k
      show "frame_alive ((alive w)[h := False]) k \<longleftrightarrow> (\<exists>j. holds ((objects w)[i := ob]) j k)"
        unfolding new frame_alive_simps using ownedD [OF own] h by metis
    qed (use ownedD(1) [OF own] in \<open>unfold new, blast\<close>)
    then show ?thesis using Some a ok by (simp add: owned_once_def destroy_frame_def)
  qed
qed

lemma owned_once_call: "owned_once w \<Longrightarrow> owned_once (task_call w)"
  by (simp add: owned_once_def task_call_def owned_call)

lemma owned_once_move:
  assumes inv: "owned_once w" and step: "task_move j w = Some w'"
  shows "owned_once w'"
proof -
  obtain hdl where j: "j < length (objects w)" "objects w ! j = Task_object hdl"
    and w': "w' = w\<lparr>objects := (objects w)[j := Task_object None] @ [Task_object hdl]\<rparr>"
    using step by (auto simp: task_move_def set_handle_def split: if_splits task_object.splits)
  have "owned (objects w) (alive w)" using inv by (simp add: owned_once_def)
  then have "owned (objects w @ [Ended]) (alive w)" by (auto simp: owned_def)
  then have "owned ((objects w @ [Ended])[j := Task_object None, length (objects w) := Task_object hdl])
      (alive w)"
    by (rule owned_transfer) (use j in \<open>auto simp: nth_append dest: holds_length\<close>)
  then show ?thesis
    using inv j by (simp add: owned_once_def w' list_update_append)
qed

lemma owned_once_assign:
  assumes inv: "owned_once w" and step: "task_assign i j w = Some w'"
  shows "owned_once w'"
proof (cases "i = j")
  case True
  then show ?thesis using inv step by (auto simp: task_assign_def split: if_splits task_object.splits)
next
  case False
  obtain mine other where ij: "i < length (objects w)" "j < length (objects w)"
      "objects w ! i = Task_object mine" "objects w ! j = Task_object other"
    and w': "w' = set_handle i other (set_handle j None (destroy_frame mine w))"
    using step False by (auto simp: task_assign_def split: if_splits task_object.splits)
  define u where "u = (destroy_frame mine w)\<lparr>objects := (objects w)[i := Task_object None]\<rparr>"
  have u: "owned_once u" "objects u = (objects w)[i := Task_object None]"
    unfolding u_def using owned_release [OF inv ij(1,3)] by simp_all
  then have "owned ((objects u)[j := Task_object None, i := Task_object other]) (alive u)"
    using ij False by (intro owned_transfer) (auto simp: owned_once_def)
  moreover have "(objects u)[j := Task_object None, i := Task_object other] = objects w'"
    using False by (simp add: u w' set_handle_def destroy_frame_def list_update_swap split: option.splits)
  moreover have "alive u = alive w'" "destroyed_twice u = destroyed_twice w'"
    by (simp_all add: u_def w' set_handle_def)
  ultimately show ?thesis using u(1) by (simp add: owned_once_def)
qed

lemma owned_once_end:
  assumes inv: "owned_once w" and step: "task_end i w = Some w'"
  shows "owned_once w'"
proof -
  obtain hdl where i: "i < length (objects w)" "objects w ! i = Task_object hdl"
    and "w' = (let w' = destroy_frame hdl w in w'\<lparr>objects := (objects w')[i := Ended]\<rparr>)"
    using step by (auto simp: task_end_def split: if_splits task_object.splits)
  then have "w' = (destroy_frame hdl w)\<lparr>objects := (objects w)[i := Ended]\<rparr>"
    by (simp add: destroy_frame_def split: option.splits)
  then show ?thesis using owned_release [OF inv i] by simp
qed

interpretation ownership: state_invariant "\<lambda>w. w = no_tasks" task_step owned_once
proof unfold_locales
  show "owned_once s" if "s = no_tasks" for s
    using that by (simp add: owned_once_def no_tasks_def owned_def holds_def frame_alive_def)
  show "owned_once t" if "owned_once s" "task_step s t" for s t
    using that(2,1)
    by (elim task_stepE) (auto intro: owned_once_call owned_once_move owned_once_assign owned_once_end)
qed

section \<open>Properties\<close>

text \<open>
  C32: Ownership of coroutine frames. Whatever the order in which coroutines are called and their
  task objects moved, move-assigned (also to themselves) and destroyed: no frame is destroyed
  twice, every live frame is held by exactly one object and every handle that is not null refers
  to a live frame, so once the lifetimes of all objects have ended no frame is left over.
\<close>

theorem coro_frames_owned:
  assumes "reach (\<lambda>w. w = no_tasks) task_step n w"
  shows "\<not> destroyed_twice w \<and>
    (\<forall>h. frame_alive (alive w) h \<longrightarrow> (\<exists>!i. holds (objects w) i h)) \<and>
    (\<forall>i h. holds (objects w) i h \<longrightarrow> frame_alive (alive w) h) \<and>
    (set (objects w) \<subseteq> {Ended} \<longrightarrow> True \<notin> set (alive w))"
proof -
  have own: "owned (objects w) (alive w)" "\<not> destroyed_twice w"
    using ownership.reach_state [OF assms] by (auto simp: owned_once_def)
  have "True \<notin> set (alive w)" if "set (objects w) \<subseteq> {Ended}"
  proof
    assume "True \<in> set (alive w)"
    then obtain h where "frame_alive (alive w) h" by (auto simp: in_set_conv_nth frame_alive_def)
    then obtain i where "holds (objects w) i h" using ownedD(2) [OF own(1)] by blast
    then have "Task_object (Some h) \<in> set (objects w)" by (auto simp: holds_def in_set_conv_nth)
    with that show False by blast
  qed
  then show ?thesis using own ownedD [OF own(1)] by blast
qed

theorem coro_frames_owned_witness:
  "\<exists>w n. reach (\<lambda>w. w = no_tasks) task_step n w \<and> alive w = [False, True, False] \<and>
     objects w = [Task_object None, Ended, Task_object None, Task_object (Some 1)] \<and>
     (\<exists>!i. holds (objects w) i 1) \<and> \<not> destroyed_twice w"
proof -
  define w3 where "w3 = task_call (task_call (task_call no_tasks))"
  have "reach (\<lambda>w. w = no_tasks) task_step 0 no_tasks" by (rule reach.start) simp
  then have "reach (\<lambda>w. w = no_tasks) task_step 3 w3"
    unfolding w3_def numeral_3_eq_3 by (blast intro: reach.more task_step.call)
  moreover obtain w4 w5 w6 w7 where
    steps: "task_assign 0 1 w3 = Some w4" "task_end 1 w4 = Some w5" "task_move 0 w5 = Some w6"
      "task_assign 2 0 w6 = Some w7"
    and w7: "alive w7 = [False, True, False]"
      "objects w7 = [Task_object None, Ended, Task_object None, Task_object (Some 1)]"
    by (simp add: w3_def task_call_def no_tasks_def task_assign_def set_handle_def destroy_frame_def
        frame_alive_def task_end_def task_move_def numeral_2_eq_2 numeral_3_eq_3)
  ultimately have r: "reach (\<lambda>w. w = no_tasks) task_step (Suc (Suc (Suc (Suc 3)))) w7"
    using reach.more task_step.assign task_step.ends task_step.move by metis
  have "frame_alive (alive w7) 1" by (simp add: w7 frame_alive_def)
  then show ?thesis using coro_frames_owned [OF r] r w7 by blast
qed

end
