(* ===== verification/Coro_Pool.thy ===== *)
theory Coro_Pool
  imports Coro_Task
begin

text \<open>
  Many coroutines on one pool: \<open>include/ate/coro_task.hpp\<close> under concurrency, with the timers of
  \<open>include/ate/asio_context.hpp\<close>. Client thread \<open>c\<close> calls \<open>get()\<close> on coroutine \<open>c\<close>, which it
  owns, and destroys it afterwards; workers take what \<open>PoolScheduler::await_suspend\<close> has queued and
  the \<open>io_context::run()\<close> tasks of an \<open>AsioContext\<close>, in which they resume what
  \<open>DelayAwaiter::await_suspend\<close> has armed a timer for. Suspending, queueing the resumption or
  arming the timer, leaving \<open>await_suspend\<close>, storing the outcome and signalling are separate steps,
  so another thread may resume or destroy a frame as early as the code allows. The theory
  \<open>Coro_Task\<close> has one coroutine and every way of using it; \<open>Thread_Pool\<close> has the workers' sleeping
  and exiting; \<open>Coro_Progress\<close> shows that the calls return.
\<close>

section \<open>Threads and frames\<close>

text \<open>The tasks in the pool's queue: a resumption, or \<open>io_ctx_.run()\<close>.\<close>

datatype work = Resumption nat | Run_io

text \<open>
  A worker rests, polls inside \<open>run()\<close>, or works; a client calls \<open>get()\<close>, waits on its future, has
  returned, has destroyed the task object. Either may run a body, be inside
  \<open>PoolScheduler::await_suspend\<close> before the push (with what the body does if that throws), inside
  \<open>DelayAwaiter::await_suspend\<close> before the timer is armed or still in the call that arms it, inside
  \<open>FinalAwaiterVal::await_suspend\<close> before the signal, or past the last access to the frame in one
  of them.
\<close>

datatype 'v doing =
  Resting | Polling | Calls | Executing nat "'v body" | Suspends nat "exn \<Rightarrow> 'v body"
  | Arming nat delay_awaiter | In_async_wait nat | Signals nat | Leaving
  | Getting | Returned_get "'v cell outcome" | Destroyed "'v cell outcome"

text \<open>\<open>in_run\<close> tells of every thread whether it is inside \<open>io_context::run()\<close>.\<close>

record ('io, 'v) coro_pool =
  frames :: "'v frame option list"
  proms :: "'v cell outcome option list"
  ready :: "work task_queue"
  pool_io :: 'io
  io_stopped :: bool
  doing :: "'v doing list"
  in_run :: "bool list"
  misuse :: bool

text \<open>
  The start: the coroutines have been called, the pool has \<open>n\<close> workers, and the constructor of the
  \<open>AsioContext\<close> has submitted \<open>m\<close> calls of \<open>run()\<close>.
\<close>

definition coro_pool_start :: "'v body list \<Rightarrow> nat \<Rightarrow> nat \<Rightarrow> 'io \<Rightarrow> ('io, 'v) coro_pool" where
  "coro_pool_start bs n m i = \<lparr>frames = map (\<lambda>b. Some (coro_create b)) bs,
     proms = replicate (length bs) None,
     ready = TaskQueue\<lparr>tasks := replicate m Run_io\<rparr>, pool_io = i, io_stopped = False,
     doing = replicate (length bs) Calls @ replicate n Resting,
     in_run = replicate (length bs + n) False, misuse = False\<rparr>"

definition moves :: "nat \<Rightarrow> 'v doing \<Rightarrow> ('io, 'v) coro_pool \<Rightarrow> ('io, 'v) coro_pool" where
  "moves i d w = w\<lparr>doing := (doing w)[i := d]\<rparr>"

text \<open>An access to frame \<open>c\<close>: misuse when it is destroyed.\<close>

definition on_frame ::
    "nat \<Rightarrow> ('v frame \<Rightarrow> 'v frame) \<Rightarrow> ('io, 'v) coro_pool \<Rightarrow> ('io, 'v) coro_pool" where
  "on_frame c g w =
     (case frames w ! c of
        None \<Rightarrow> w\<lparr>misuse := True\<rparr>
      | Some f \<Rightarrow> w\<lparr>frames := (frames w)[c := Some (g f)]\<rparr>)"

text \<open>\<open>handle.resume()\<close> by thread \<open>i\<close>.\<close>

definition resume_on :: "nat \<Rightarrow> nat \<Rightarrow> ('io, 'v) coro_pool \<Rightarrow> ('io, 'v) coro_pool" where
  "resume_on i c w =
     (case frames w ! c of
        None \<Rightarrow> w\<lparr>misuse := True\<rparr>
      | Some f \<Rightarrow> (case point f of
          At_final \<Rightarrow> w\<lparr>misuse := True\<rparr>
        | Suspended b \<Rightarrow> moves i (Executing c b) w))"

text \<open>The end of the body stores the outcome and suspends for good.\<close>

definition store_outcome :: "'v outcome \<Rightarrow> 'v frame \<Rightarrow> 'v frame" where
  "store_outcome r f =
     (case r of Inr v \<Rightarrow> return_value v f | Inl e \<Rightarrow> unhandled_exception e f)\<lparr>point := At_final\<rparr>"

text \<open>The signal: the outcome moves from the frame into the promise of the \<open>get()\<close>.\<close>

definition signal_outcome :: "nat \<Rightarrow> ('io, 'v) coro_pool \<Rightarrow> ('io, 'v) coro_pool" where
  "signal_outcome c w =
     (case frames w ! c of
        None \<Rightarrow> w\<lparr>misuse := True\<rparr>
      | Some f \<Rightarrow> (case final_await f of
          (None, f') \<Rightarrow> w\<lparr>frames := (frames w)[c := Some f']\<rparr>
        | (Some r, f') \<Rightarrow> w\<lparr>frames := (frames w)[c := Some f'], proms := (proms w)[c := Some r]\<rparr>))"

text \<open>A worker begins with a task; a resting one takes it from the queue, if there is one.\<close>

definition begin_work :: "nat \<Rightarrow> work \<Rightarrow> ('io, 'v) coro_pool \<Rightarrow> ('io, 'v) coro_pool" where
  "begin_work i t w =
     (case t of
        Resumption c \<Rightarrow> resume_on i c w
      | Run_io \<Rightarrow> moves i Polling (w\<lparr>in_run := (in_run w)[i := True]\<rparr>))"

definition take_work :: "nat \<Rightarrow> ('io, 'v) coro_pool \<Rightarrow> ('io, 'v) coro_pool option" where
  "take_work i w =
     (case try_pop (ready w) of
        (None, q) \<Rightarrow> None
      | (Some t, q) \<Rightarrow> Some (begin_work i t (w\<lparr>ready := q\<rparr>)))"

text \<open>
  A thread in \<open>run()\<close>, between two handlers: it returns when the context is stopped, otherwise
  takes a handler, or waits.
\<close>

definition poll_io :: "('io \<Rightarrow> (string option \<times> 'v handler) option \<times> 'io)
    \<Rightarrow> nat \<Rightarrow> ('io, 'v) coro_pool \<Rightarrow> ('io, 'v) coro_pool option" where
  "poll_io ro i w =
     (if io_stopped w then Some (moves i Resting (w\<lparr>in_run := (in_run w)[i := False]\<rparr>))
      else case ro (pool_io w) of
          (None, io) \<Rightarrow> None
        | (Some (ec, Resume c), io) \<Rightarrow> Some (resume_on i c (w\<lparr>pool_io := io\<rparr>))
        | (Some (ec, h), io) \<Rightarrow> Some (w\<lparr>pool_io := io\<rparr>))"

text \<open>Running the body of \<open>c\<close> up to its next suspension point or its end.\<close>

definition execute :: "nat \<Rightarrow> nat \<Rightarrow> 'v body \<Rightarrow> ('io, 'v) coro_pool \<Rightarrow> ('io, 'v) coro_pool" where
  "execute i c b w =
     (case b of
        Co_return v \<Rightarrow> moves i (Signals c) (on_frame c (store_outcome (Inr v)) w)
      | Co_throw e \<Rightarrow> moves i (Signals c) (on_frame c (store_outcome (Inl e)) w)
      | Co_schedule b' on_throw \<Rightarrow>
          moves i (Suspends c on_throw) (on_frame c (\<lambda>f. f\<lparr>point := Suspended b'\<rparr>) w)
      | Co_delay aw b' \<Rightarrow> moves i (Arming c aw) (on_frame c (\<lambda>f. f\<lparr>point := Suspended b'\<rparr>) w))"

text \<open>One step of thread \<open>i\<close>; \<open>None\<close> when it has to wait or has nothing to do.\<close>

definition coro_thread_step :: "(int \<Rightarrow> 'v handler \<Rightarrow> 'io \<Rightarrow> 'io)
    \<Rightarrow> ('io \<Rightarrow> (string option \<times> 'v handler) option \<times> 'io)
    \<Rightarrow> nat \<Rightarrow> ('io, 'v) coro_pool \<Rightarrow> ('io, 'v) coro_pool option" where
  "coro_thread_step st ro i w =
     (if i < length (doing w) then case doing w ! i of
        Resting \<Rightarrow> take_work i w
      | Polling \<Rightarrow> poll_io ro i w
      | Calls \<Rightarrow> Some (resume_on i i (on_frame i set_external_promise w))
      | Executing c b \<Rightarrow> Some (execute i c b w)
      | Suspends c on_throw \<Rightarrow> Some (case push (Resumption c) (ready w) of
            (True, q) \<Rightarrow> moves i Leaving (w\<lparr>ready := q\<rparr>)
          | (False, q) \<Rightarrow> moves i (Executing c (on_throw (Runtime_error shut_down_message))) w)
      | Arming c aw \<Rightarrow> Some (case delay_await st c aw (pool_io w) of
            (aw', io) \<Rightarrow> moves i (In_async_wait c) (w\<lparr>pool_io := io\<rparr>))
      | In_async_wait c \<Rightarrow> Some (moves i Leaving w)
      | Signals c \<Rightarrow> Some (moves i Leaving (signal_outcome c w))
      | Leaving \<Rightarrow> Some (moves i
          (if i < length (frames w) then Getting else if in_run w ! i then Polling else Resting) w)
      | Getting \<Rightarrow> map_option (\<lambda>r. moves i (Returned_get r) w) (proms w ! i)
      | Returned_get r \<Rightarrow> Some (moves i (Destroyed r) (w\<lparr>frames := (frames w)[i := None]\<rparr>))
      | Destroyed r \<Rightarrow> None
      else None)"

text \<open>
  Besides the threads: the pool is shut down, the context is stopped, other users register
  handlers of their own, and the library changes its state on its own account.
\<close>

inductive coro_pool_step :: "(int \<Rightarrow> 'v handler \<Rightarrow> 'io \<Rightarrow> 'io) \<Rightarrow> ('v handler \<Rightarrow> 'io \<Rightarrow> 'io)
    \<Rightarrow> ('io \<Rightarrow> (string option \<times> 'v handler) option \<times> 'io)
    \<Rightarrow> ('io, 'v) coro_pool \<Rightarrow> ('io, 'v) coro_pool \<Rightarrow> bool" for st po ro where
  thread: "coro_thread_step st ro i w = Some w' \<Longrightarrow> coro_pool_step st po ro w w'"
| close: "coro_pool_step st po ro w (w\<lparr>ready := shutdown (ready w)\<rparr>)"
| stop: "coro_pool_step st po ro w (w\<lparr>io_stopped := True\<rparr>)"
| timer: "(\<And>c. h \<noteq> Resume c) \<Longrightarrow> coro_pool_step st po ro w (w\<lparr>pool_io := st d h (pool_io w)\<rparr>)"
| post: "(\<And>c. h \<noteq> Resume c) \<Longrightarrow> coro_pool_step st po ro w (w\<lparr>pool_io := po h (pool_io w)\<rparr>)"
| wait: "ro (pool_io w) = (None, io) \<Longrightarrow> coro_pool_step st po ro w (w\<lparr>pool_io := io\<rparr>)"

inductive_cases coro_pool_stepE: "coro_pool_step st po ro w w'"

inductive coro_pool_init :: "(int \<Rightarrow> 'v handler \<Rightarrow> 'io \<Rightarrow> 'io) \<Rightarrow> ('v handler \<Rightarrow> 'io \<Rightarrow> 'io)
    \<Rightarrow> ('io \<Rightarrow> (string option \<times> 'v handler) option \<times> 'io) \<Rightarrow> ('io \<Rightarrow> 'v handler multiset)
    \<Rightarrow> 'v body list \<Rightarrow> nat \<Rightarrow> ('io, 'v) coro_pool \<Rightarrow> bool" for st po ro pending bs m where
  "io_contract st po ro pending \<Longrightarrow> (\<And>c. Resume c \<notin># pending i)
     \<Longrightarrow> coro_pool_init st po ro pending bs m (coro_pool_start bs n m i)"

section \<open>The outcomes a body can have\<close>

text \<open>The pool may be closed at any point of a run: at each hop or at none.\<close>

primrec outcomes :: "'v body \<Rightarrow> 'v outcome set" where
  "outcomes (Co_return v) = {Inr v}"
| "outcomes (Co_throw e) = {Inl e}"
| "outcomes (Co_schedule b on_throw) =
     insert (body_value False (on_throw (Runtime_error shut_down_message))) (outcomes b)"
| "outcomes (Co_delay aw b) = outcomes b"

lemma body_value_outcomes: "body_value open_pool b \<in> outcomes b"
  by (induction b) (cases open_pool; simp)+

text \<open>What is left of a body, and an outcome, against the body the coroutine started with.\<close>

definition expects :: "bool \<Rightarrow> 'v body \<Rightarrow> 'v body \<Rightarrow> bool" where
  "expects closed b0 b \<longleftrightarrow>
     (if closed then body_value False b \<in> outcomes b0
      else outcomes b \<subseteq> outcomes b0 \<and> body_value True b = body_value True b0)"

definition expected :: "bool \<Rightarrow> 'v body \<Rightarrow> 'v outcome \<Rightarrow> bool" where
  "expected closed b0 r \<longleftrightarrow> r \<in> outcomes b0 \<and> (\<not> closed \<longrightarrow> r = body_value True b0)"

lemma expects_start: "expects False b b"
  by (simp add: expects_def)

lemma expects_close: "expects cl b0 b \<Longrightarrow> expects True b0 b"
  using body_value_outcomes [of False b] by (auto simp: expects_def split: if_splits)

lemma expected_close: "expected cl b0 r \<Longrightarrow> expected True b0 r"
  by (simp add: expected_def)

lemma expects_Co_return: "expects cl b0 (Co_return v) \<Longrightarrow> expected cl b0 (Inr v)"
  by (auto simp: expects_def expected_def split: if_splits)

lemma expects_Co_throw: "expects cl b0 (Co_throw e) \<Longrightarrow> expected cl b0 (Inl e)"
  by (auto simp: expects_def expected_def split: if_splits)

lemma expects_hop: "expects False b0 (Co_schedule b h) \<Longrightarrow> expects False b0 b"
  by (simp add: expects_def)

lemma expects_delay: "expects cl b0 (Co_delay aw b) \<Longrightarrow> expects cl b0 b"
  by (simp add: expects_def split: if_splits)

lemma expects_refused:
  "expects True b0 (Co_schedule b h) \<Longrightarrow> expects True b0 (h (Runtime_error shut_down_message))"
  by (simp add: expects_def)

section \<open>The invariant\<close>

text \<open>A thread that may access frame \<open>c\<close>.\<close>

fun engaged :: "nat \<Rightarrow> 'v doing \<Rightarrow> bool" where
  "engaged c (Executing d b) \<longleftrightarrow> d = c"
| "engaged c (Suspends d h) \<longleftrightarrow> d = c"
| "engaged c (Arming d aw) \<longleftrightarrow> d = c"
| "engaged c (Signals d) \<longleftrightarrow> d = c"
| "engaged c d \<longleftrightarrow> False"

text \<open>A client inside \<open>get()\<close> that has left its coroutine to another thread.\<close>

fun away :: "'v doing \<Rightarrow> bool" where
  "away Leaving \<longleftrightarrow> True"
| "away (In_async_wait c) \<longleftrightarrow> True"
| "away Getting \<longleftrightarrow> True"
| "away d \<longleftrightarrow> False"

text \<open>How often coroutine \<open>c\<close> is due to be resumed: from the pool's queue or by a timer.\<close>

definition due_at :: "('io \<Rightarrow> 'v handler multiset) \<Rightarrow> ('io, 'v) coro_pool \<Rightarrow> nat \<Rightarrow> nat" where
  "due_at pending w c =
     count_list (tasks (ready w)) (Resumption c) + count (pending (pool_io w)) (Resume c)"

text \<open>The frames of a coroutine under way, suspended or at its end.\<close>

definition susp :: "'v body \<Rightarrow> 'v frame" where
  "susp b = (coro_create b)\<lparr>external_promise := True\<rparr>"

definition stored :: "'v outcome \<Rightarrow> 'v frame" where
  "stored r = store_outcome r (susp (Co_throw (User_exn [])))"

text \<open>The thread engaged in a coroutine with body \<open>b0\<close>, and the frame.\<close>

fun held_ok :: "bool \<Rightarrow> 'v body \<Rightarrow> 'v doing \<Rightarrow> 'v frame option \<Rightarrow> bool" where
  "held_ok cl b0 (Executing c b) fr \<longleftrightarrow> (\<exists>b'. fr = Some (susp b')) \<and> expects cl b0 b"
| "held_ok cl b0 (Suspends c h) fr \<longleftrightarrow>
     (\<exists>b'. fr = Some (susp b') \<and> expects cl b0 (Co_schedule b' h))"
| "held_ok cl b0 (Arming c aw) fr \<longleftrightarrow> (\<exists>b'. fr = Some (susp b') \<and> expects cl b0 b')"
| "held_ok cl b0 (Signals c) fr \<longleftrightarrow> (\<exists>r. fr = Some (stored r) \<and> expected cl b0 r)"
| "held_ok cl b0 d fr \<longleftrightarrow> False"

lemma due_at_simps [simp]:
  "due_at pending (w\<lparr>doing := ds\<rparr>) c = due_at pending w c"
  "due_at pending (w\<lparr>frames := fs\<rparr>) c = due_at pending w c"
  "due_at pending (w\<lparr>proms := ps\<rparr>) c = due_at pending w c"
  "due_at pending (w\<lparr>in_run := rs\<rparr>) c = due_at pending w c"
  "due_at pending (w\<lparr>io_stopped := b\<rparr>) c = due_at pending w c"
  "due_at pending (w\<lparr>ready := shutdown (ready w)\<rparr>) c = due_at pending w c"
  by (simp_all add: due_at_def shutdown_def)

datatype phase = Fresh | Due | Held nat | Fulfilled

definition at_phase :: "('io \<Rightarrow> 'v handler multiset) \<Rightarrow> 'v body list \<Rightarrow> ('io, 'v) coro_pool
    \<Rightarrow> nat \<Rightarrow> phase \<Rightarrow> bool" where
  "at_phase pending bs w c ph \<longleftrightarrow>
     (case ph of
        Fresh \<Rightarrow> doing w ! c = Calls \<and> frames w ! c = Some (coro_create (bs ! c)) \<and>
          proms w ! c = None \<and> due_at pending w c = 0 \<and>
          (\<forall>j < length (doing w). \<not> engaged c (doing w ! j))
      | Due \<Rightarrow> away (doing w ! c) \<and> proms w ! c = None \<and> due_at pending w c = 1 \<and>
          (\<forall>j < length (doing w). \<not> engaged c (doing w ! j)) \<and>
          (\<exists>b. frames w ! c = Some (susp b) \<and> expects (shutdown_flag (ready w)) (bs ! c) b)
      | Held i \<Rightarrow> i < length (doing w) \<and> engaged c (doing w ! i) \<and> proms w ! c = None \<and>
          due_at pending w c = 0 \<and>
          (\<forall>j < length (doing w). j \<noteq> i \<longrightarrow> \<not> engaged c (doing w ! j)) \<and>
          (i \<noteq> c \<longrightarrow> length (frames w) \<le> i \<and> away (doing w ! c)) \<and>
          held_ok (shutdown_flag (ready w)) (bs ! c) (doing w ! i) (frames w ! c)
      | Fulfilled \<Rightarrow> due_at pending w c = 0 \<and>
          (\<forall>j < length (doing w). \<not> engaged c (doing w ! j)) \<and>
          (\<exists>r. proms w ! c = Some (fulfilled r) \<and> expected (shutdown_flag (ready w)) (bs ! c) r \<and>
            ((away (doing w ! c) \<or> doing w ! c = Returned_get (fulfilled r)) \<and> frames w ! c \<noteq> None \<or>
             doing w ! c = Destroyed (fulfilled r) \<and> frames w ! c = None)))"

definition worker_ok :: "'v doing \<Rightarrow> bool" where
  "worker_ok d \<longleftrightarrow> d = Resting \<or> d = Polling \<or> d = Leaving \<or> (\<exists>c. d = In_async_wait c \<or> engaged c d)"

definition coro_pool_inv :: "('io \<Rightarrow> 'v handler multiset) \<Rightarrow> 'v body list \<Rightarrow> ('io, 'v) coro_pool \<Rightarrow> bool"
  where
  "coro_pool_inv pending bs w \<longleftrightarrow>
     \<not> misuse w \<and> length (frames w) = length bs \<and> length (proms w) = length bs \<and>
     length bs \<le> length (doing w) \<and> (\<forall>c. due_at pending w c \<noteq> 0 \<longrightarrow> c < length bs) \<and>
     (\<forall>i < length (doing w). \<forall>c. engaged c (doing w ! i) \<longrightarrow> c < length bs) \<and>
     (\<forall>i < length (doing w). length bs \<le> i \<longrightarrow> worker_ok (doing w ! i)) \<and>
     (\<forall>c < length bs. \<exists>ph. at_phase pending bs w c ph)"

lemma coro_pool_invD:
  assumes "coro_pool_inv pending bs w"
  shows "\<not> misuse w" "length (frames w) = length bs" "length (proms w) = length bs"
    and "length bs \<le> length (doing w)" "\<And>c. due_at pending w c \<noteq> 0 \<Longrightarrow> c < length bs"
    and "\<And>i c. i < length (doing w) \<Longrightarrow> engaged c (doing w ! i) \<Longrightarrow> c < length bs"
    and "\<And>i. i < length (doing w) \<Longrightarrow> length bs \<le> i \<Longrightarrow> worker_ok (doing w ! i)"
    and "\<And>c. c < length bs \<Longrightarrow> \<exists>ph. at_phase pending bs w c ph"
  using assms unfolding coro_pool_inv_def by blast+

text \<open>
  A step of thread \<open>i\<close> concerns one coroutine \<open>c\<close>: the others see the same frame, promise and
  places of resumption, and a thread that is not engaged in them before or after.
\<close>

lemma at_phase_other:
  assumes "at_phase pending bs w d ph" "d \<noteq> c" "i < length (doing w)"
    and "doing w' = (doing w)[i := x]" "\<not> engaged d (doing w ! i)" "\<not> engaged d x" "i \<noteq> d"
    and "frames w' ! d = frames w ! d" "proms w' ! d = proms w ! d" "length (frames w') = length (frames w)"
    and "due_at pending w' d = due_at pending w d"
    and "shutdown_flag (ready w') = shutdown_flag (ready w)"
  shows "at_phase pending bs w' d ph"
proof -
  have eng: "engaged d (doing w' ! j) \<longleftrightarrow> engaged d (doing w ! j)" for j
    using assms by (cases "j = i") auto
  have same: "j \<noteq> i \<Longrightarrow> doing w' ! j = doing w ! j" for j
    using assms by auto
  have len: "length (doing w') = length (doing w)" using assms by simp
  show ?thesis
  proof (cases ph)
    case (Held k)
    then have "k \<noteq> i" using assms(1,5) by (auto simp: at_phase_def)
    then show ?thesis
      using assms(1,7-) Held eng same [of k] same [of d] len by (simp add: at_phase_def)
  qed (use assms(1,7-) eng same [of d] len in \<open>simp_all add: at_phase_def\<close>)
qed

lemma coro_pool_inv_step:
  assumes inv: "coro_pool_inv pending bs w" and i: "i < length (doing w)"
    and c: "c < length bs" "i < length bs \<Longrightarrow> i = c"
    and old: "\<And>d. engaged d (doing w ! i) \<Longrightarrow> d = c" and new: "\<And>d. engaged d x \<Longrightarrow> d = c"
    and doing: "doing w' = (doing w)[i := x]"
    and frames: "length (frames w') = length (frames w)" "\<And>d. d \<noteq> c \<Longrightarrow> frames w' ! d = frames w ! d"
    and proms: "length (proms w') = length (proms w)" "\<And>d. d \<noteq> c \<Longrightarrow> proms w' ! d = proms w ! d"
    and queue: "\<And>d. d \<noteq> c \<Longrightarrow> due_at pending w' d = due_at pending w d"
      "shutdown_flag (ready w') = shutdown_flag (ready w)"
    and ok: "\<not> misuse w'" "length bs \<le> i \<Longrightarrow> worker_ok x" "at_phase pending bs w' c ph'"
  shows "coro_pool_inv pending bs w'"
proof -
  note I = coro_pool_invD [OF inv]
  have "\<exists>ph. at_phase pending bs w' d ph" if d: "d < length bs" for d
  proof (cases "d = c")
    case True
    then show ?thesis using ok(3) by blast
  next
    case False
    obtain ph where ph: "at_phase pending bs w d ph" using I(8) [OF d] by blast
    have "i \<noteq> d" using c(2) d False by blast
    then show ?thesis
      using at_phase_other [OF ph False i doing] old new False frames proms queue by blast
  qed
  moreover have "due_at pending w' d \<noteq> 0 \<Longrightarrow> d < length bs" for d
    using queue(1) [of d] I(5) c(1) by (cases "d = c") auto
  moreover have "engaged d (doing w' ! j) \<Longrightarrow> j < length (doing w) \<Longrightarrow> d < length bs" for j d
    using I(6) [of j d] new c(1) i by (cases "j = i") (auto simp: doing)
  moreover have "j < length (doing w) \<Longrightarrow> length bs \<le> j \<Longrightarrow> worker_ok (doing w' ! j)" for j
    using I(7) [of j] ok(2) i by (cases "j = i") (auto simp: doing)
  ultimately show ?thesis
    using I(2-4) frames(1) proms(1) ok(1) doing unfolding coro_pool_inv_def by simp
qed

text \<open>Which phase a coroutine is in can be read off a thread or the places of resumption.\<close>

lemma engaged_Held:
  assumes "coro_pool_inv pending bs w" "i < length (doing w)" "engaged c (doing w ! i)"
  shows "c < length bs" "at_phase pending bs w c (Held i)" "i < length bs \<Longrightarrow> i = c"
proof -
  show c: "c < length bs" using coro_pool_invD(6) [OF assms] .
  then obtain ph where ph: "at_phase pending bs w c ph" using coro_pool_invD(8) [OF assms(1)] by blast
  then have "ph = Held i" using assms(2,3) by (cases ph) (auto simp: at_phase_def)
  with ph show "at_phase pending bs w c (Held i)" by simp
  then show "i < length bs \<Longrightarrow> i = c"
    using coro_pool_invD(2) [OF assms(1)] by (auto simp: at_phase_def)
qed

lemma due_Due:
  assumes "coro_pool_inv pending bs w" "due_at pending w c \<noteq> 0"
  shows "c < length bs" "at_phase pending bs w c Due"
proof -
  show c: "c < length bs" using coro_pool_invD(5) [OF assms] .
  then obtain ph where ph: "at_phase pending bs w c ph" using coro_pool_invD(8) [OF assms(1)] by blast
  then have "ph = Due" using assms(2) by (cases ph) (auto simp: at_phase_def)
  with ph show "at_phase pending bs w c Due" by simp
qed

lemma client_phase:
  assumes "coro_pool_inv pending bs w" "i < length bs"
  shows "doing w ! i = Calls \<Longrightarrow> at_phase pending bs w i Fresh"
    and "proms w ! i = Some r \<Longrightarrow> at_phase pending bs w i Fulfilled"
    and "doing w ! i = Returned_get r \<Longrightarrow> at_phase pending bs w i Fulfilled"
    and "doing w ! i \<noteq> Resting" "doing w ! i \<noteq> Polling"
proof -
  obtain ph where ph: "at_phase pending bs w i ph" using coro_pool_invD(8) [OF assms] by blast
  have eng: "ph = Held k \<Longrightarrow> k = i \<Longrightarrow> engaged i (doing w ! i)" for k
    using ph by (auto simp: at_phase_def)
  show "doing w ! i = Calls \<Longrightarrow> at_phase pending bs w i Fresh"
    "doing w ! i = Returned_get r \<Longrightarrow> at_phase pending bs w i Fulfilled" "doing w ! i \<noteq> Resting"
    "doing w ! i \<noteq> Polling"
    using ph eng by (cases ph; auto simp: at_phase_def)+
  show "proms w ! i = Some r \<Longrightarrow> at_phase pending bs w i Fulfilled"
    using ph by (cases ph; auto simp: at_phase_def)
qed

lemma susp_simps [simp]:
  "(coro_create b)\<lparr>external_promise := True\<rparr> = susp b" "set_external_promise (coro_create b) = susp b"
  "point (susp b) = Suspended b" "(susp b)\<lparr>point := Suspended b'\<rparr> = susp b'"
  "store_outcome r (susp b) = stored r"
  by (simp_all add: susp_def coro_create_def set_external_promise_def stored_def store_outcome_def
      return_value_def unhandled_exception_def split: sum.splits)

lemma susp_inject [simp]: "susp b = susp b' \<longleftrightarrow> b = b'"
  by (simp add: susp_def coro_create_def)

lemma stored_inject [simp]: "stored r = stored r' \<longleftrightarrow> r = r'"
  by (auto simp: stored_def store_outcome_def susp_def coro_create_def return_value_def
      unhandled_exception_def split: sum.splits)

lemma final_await_stored:
  "\<exists>f'. final_await (stored r) = (Some (fulfilled r), f')"
  by (cases r) (simp_all add: stored_def store_outcome_def susp_def coro_create_def final_await_def
      return_value_def unhandled_exception_def fulfilled_def)

section \<open>Every step preserves the invariant\<close>

text \<open>A worker takes a resumption that is due.\<close>

lemma inv_resume:
  assumes inv: "coro_pool_inv pending bs w" and i: "i < length (doing w)" "length bs \<le> i"
    "doing w ! i = Resting \<or> doing w ! i = Polling"
    and w': "w' = w\<lparr>ready := q, pool_io := io\<rparr>" "shutdown_flag q = shutdown_flag (ready w)"
    and due: "Suc (due_at pending w' c) = due_at pending w c"
      "\<And>d. d \<noteq> c \<Longrightarrow> due_at pending w' d = due_at pending w d"
  shows "coro_pool_inv pending bs (resume_on i c w') \<and>
    (\<exists>b. frames w ! c = Some (susp b) \<and> resume_on i c w' = moves i (Executing c b) w')"
proof -
  have "due_at pending w c \<noteq> 0" using due(1) by simp
  note ph = due_Due [OF inv this]
  obtain b where b: "frames w ! c = Some (susp b)" "expects (shutdown_flag (ready w)) (bs ! c) b"
    using ph(2) by (auto simp: at_phase_def)
  have eq: "resume_on i c w' = moves i (Executing c b) w'"
    using b by (simp add: resume_on_def w')
  define u where "u = moves i (Executing c b) w'"
  have u: "doing u = (doing w)[i := Executing c b]" "frames u = frames w" "proms u = proms w"
    "shutdown_flag (ready u) = shutdown_flag (ready w)" "misuse u = misuse w"
    "due_at pending u d = due_at pending w' d" for d
    using w' by (simp_all add: u_def moves_def due_at_def)
  have quiet: "\<not> engaged d (doing w ! i)" for d using i(3) by auto
  have "at_phase pending bs u c (Held i)"
    using ph b i due(1) coro_pool_invD(2) [OF inv] by (simp add: at_phase_def u)
  then have "coro_pool_inv pending bs u"
    by (rule coro_pool_inv_step [OF inv i(1) ph(1), rotated -1])
      (use i due(2) quiet coro_pool_invD(1) [OF inv] in \<open>auto simp: u worker_ok_def\<close>)
  then have "coro_pool_inv pending bs (moves i (Executing c b) w')" by (simp add: u_def)
  then show ?thesis using eq b(1) by simp
qed

lemma inv_call:
  assumes inv: "coro_pool_inv pending bs w" and i: "i < length (doing w)" "doing w ! i = Calls"
  shows "coro_pool_inv pending bs (resume_on i i (on_frame i set_external_promise w))"
proof -
  have less: "i < length bs"
    using coro_pool_invD(7) [OF inv i(1)] i(2) by (cases "i < length bs") (auto simp: worker_ok_def)
  note ph = client_phase(1) [OF inv less i(2)]
  define w' where "w' = moves i (Executing i (bs ! i)) (w\<lparr>frames := (frames w)[i := Some (susp (bs ! i))]\<rparr>)"
  have eq: "resume_on i i (on_frame i set_external_promise w) = w'"
    using ph less coro_pool_invD(2) [OF inv] by (simp add: at_phase_def resume_on_def on_frame_def w'_def)
  have due: "due_at pending w' d = due_at pending w d" for d
    by (simp add: due_at_def moves_def w'_def)
  have "at_phase pending bs w' i (Held i)"
    using ph less i coro_pool_invD(2) [OF inv] expects_start [of "bs ! i"]
      expects_close [OF expects_start, of "bs ! i"]
    by (cases "shutdown_flag (ready w)"; simp add: at_phase_def due; simp add: moves_def w'_def)
  then show ?thesis
    unfolding eq
    by (rule coro_pool_inv_step [OF inv i(1) less, rotated -1])
      (use i less coro_pool_invD(1) [OF inv] due in \<open>auto simp: moves_def w'_def\<close>)
qed

text \<open>A thread engaged in \<open>c\<close> that stays engaged.\<close>

lemma inv_stay:
  assumes inv: "coro_pool_inv pending bs w" and i: "i < length (doing w)" "engaged c (doing w ! i)"
    and x: "engaged c x" and fr: "frames w' = (frames w)[c := fr]" and w': "doing w' = (doing w)[i := x]"
      "proms w' = proms w" "ready w' = ready w" "pool_io w' = pool_io w" "misuse w' = misuse w"
    and held: "held_ok (shutdown_flag (ready w)) (bs ! c) x fr"
  shows "coro_pool_inv pending bs w'"
proof -
  note ph = engaged_Held [OF inv i]
  have one: "engaged d y \<Longrightarrow> engaged e y \<Longrightarrow> d = e" for d e :: nat and y :: "'b doing"
    by (cases y) auto
  have due: "due_at pending w' d = due_at pending w d" for d by (simp add: due_at_def w')
  have "at_phase pending bs w' c (Held i)"
    using ph(1,2) i x held coro_pool_invD(2) [OF inv] by (auto simp: at_phase_def due w' fr)
  then show ?thesis
    by (rule coro_pool_inv_step [OF inv i(1) ph(1), rotated -1])
      (use i x one ph(3) coro_pool_invD(1) [OF inv] due in \<open>auto simp: fr w' worker_ok_def\<close>)
qed

lemma inv_execute:
  assumes inv: "coro_pool_inv pending bs w" and i: "i < length (doing w)" "doing w ! i = Executing c b"
  shows "coro_pool_inv pending bs (execute i c b w)"
proof -
  have eng: "engaged c (doing w ! i)" using i by simp
  obtain b' where f: "frames w ! c = Some (susp b')" and ex: "expects (shutdown_flag (ready w)) (bs ! c) b"
    using engaged_Held(2) [OF inv i(1) eng] i(2) by (auto simp: at_phase_def)
  have on: "on_frame c g w = w\<lparr>frames := (frames w)[c := Some (g (susp b'))]\<rparr>" for g
    using f by (simp add: on_frame_def)
  note stay = inv_stay [OF inv i(1) eng]
  show ?thesis
  proof (cases b)
    case (Co_return v)
    then show ?thesis
      using expects_Co_return [OF ex [unfolded Co_return]]
      by (intro stay [of "Signals c" _ "Some (stored (Inr v))"]) (auto simp: execute_def on moves_def)
  next
    case (Co_throw e)
    then show ?thesis
      using expects_Co_throw [OF ex [unfolded Co_throw]]
      by (intro stay [of "Signals c" _ "Some (stored (Inl e))"]) (auto simp: execute_def on moves_def)
  next
    case (Co_schedule a h)
    then show ?thesis
      using ex by (intro stay [of "Suspends c h" _ "Some (susp a)"]) (auto simp: execute_def on moves_def)
  next
    case (Co_delay aw a)
    then show ?thesis
      using expects_delay [OF ex [unfolded Co_delay]]
      by (intro stay [of "Arming c aw" _ "Some (susp a)"]) (auto simp: execute_def on moves_def)
  qed
qed

text \<open>A thread engaged in \<open>c\<close> that is through with it.\<close>

lemma inv_leave:
  assumes inv: "coro_pool_inv pending bs w" and i: "i < length (doing w)" "engaged c (doing w ! i)"
    and x: "x = Leaving \<or> x = In_async_wait c"
    and w': "doing w' = (doing w)[i := x]" "length (frames w') = length (frames w)"
      "\<And>d. d \<noteq> c \<Longrightarrow> frames w' ! d = frames w ! d" "length (proms w') = length (proms w)"
      "\<And>d. d \<noteq> c \<Longrightarrow> proms w' ! d = proms w ! d"
      "\<And>d. d \<noteq> c \<Longrightarrow> due_at pending w' d = due_at pending w d"
      "shutdown_flag (ready w') = shutdown_flag (ready w)" "\<not> misuse w'"
    and ph': "at_phase pending bs w' c ph'"
  shows "coro_pool_inv pending bs w'"
proof -
  note ph = engaged_Held [OF inv i]
  have "d = c" if "engaged d (doing w ! i)" for d
    using that i(2) by (cases "doing w ! i") auto
  then show ?thesis
    using ph' by (intro coro_pool_inv_step [OF inv i(1) ph(1), where x = x and ph' = ph'])
      (use x ph(3) w' in \<open>auto simp: worker_ok_def\<close>)
qed

lemma leave_client:
  assumes "coro_pool_inv pending bs w" "i < length (doing w)" "engaged c (doing w ! i)"
    and "x = Leaving \<or> x = In_async_wait c"
  shows "away ((doing w)[i := x] ! c)"
    and "\<And>j. j < length (doing w) \<Longrightarrow> \<not> engaged c ((doing w)[i := x] ! j)"
proof -
  note ph = engaged_Held [OF assms(1-3)]
  show "away ((doing w)[i := x] ! c)"
    using ph(2) assms(2,4) by (cases "i = c") (auto simp: at_phase_def)
  show "\<not> engaged c ((doing w)[i := x] ! j)" if "j < length (doing w)" for j
    using ph(2) that assms(4) by (cases "j = i") (auto simp: at_phase_def)
qed

text \<open>The coroutine is suspended and has become due.\<close>

lemma inv_hand_over:
  assumes inv: "coro_pool_inv pending bs w" and i: "i < length (doing w)" "engaged c (doing w ! i)"
    and x: "x = Leaving \<or> x = In_async_wait c"
    and w': "doing w' = (doing w)[i := x]" "frames w' = frames w" "proms w' = proms w"
      "\<And>d. due_at pending w' d = due_at pending w d + (if d = c then 1 else 0)"
      "shutdown_flag (ready w') = shutdown_flag (ready w)" "misuse w' = misuse w"
    and fr: "frames w ! c = Some (susp b)" "expects (shutdown_flag (ready w)) (bs ! c) b"
  shows "coro_pool_inv pending bs w'"
proof -
  note ph = engaged_Held(2) [OF inv i]
  have "at_phase pending bs w' c Due"
    using ph leave_client [OF inv i x] fr by (auto simp: at_phase_def w')
  then show ?thesis
    by (intro inv_leave [OF inv i x]) (use coro_pool_invD(1) [OF inv] in \<open>auto simp: w'\<close>)
qed

lemma inv_suspends:
  assumes inv: "coro_pool_inv pending bs w" and i: "i < length (doing w)" "doing w ! i = Suspends c h"
    and step: "coro_thread_step st ro i w = Some w'"
  shows "coro_pool_inv pending bs w'"
proof -
  have eng: "engaged c (doing w ! i)" using i by simp
  obtain b' where f: "frames w ! c = Some (susp b')"
    and ex: "expects (shutdown_flag (ready w)) (bs ! c) (Co_schedule b' h)"
    using engaged_Held(2) [OF inv i(1) eng] i(2) by (auto simp: at_phase_def)
  show ?thesis
  proof (cases "shutdown_flag (ready w)")
    case True
    then have "w' = moves i (Executing c (h (Runtime_error shut_down_message))) w"
      using step i by (simp add: coro_thread_step_def push_def)
    moreover have "frames w = (frames w)[c := Some (susp b')]" using f by (metis list_update_id)
    ultimately show ?thesis
      using ex expects_refused True
      by (intro inv_stay [OF inv i(1) eng, where fr = "Some (susp b')"
            and x = "Executing c (h (Runtime_error shut_down_message))"]) (auto simp: moves_def)
  next
    case False
    then have w': "w' = moves i Leaving (w\<lparr>ready := (ready w)\<lparr>tasks := tasks (ready w) @ [Resumption c]\<rparr>\<rparr>)"
      using step i by (simp add: coro_thread_step_def push_def)
    have "expects (shutdown_flag (ready w)) (bs ! c) b'" using ex False expects_hop by simp
    then show ?thesis
      by (intro inv_hand_over [OF inv i(1) eng, where x = Leaving and b = b'])
        (use f in \<open>auto simp: w' moves_def due_at_def\<close>)
  qed
qed

lemma inv_arming:
  assumes io: "io_contract st po ro pending" and inv: "coro_pool_inv pending bs w"
    and i: "i < length (doing w)" "doing w ! i = Arming c aw"
    and step: "coro_thread_step st ro i w = Some w'"
  shows "coro_pool_inv pending bs w'"
proof -
  have eng: "engaged c (doing w ! i)" using i by simp
  obtain b' where f: "frames w ! c = Some (susp b')" "expects (shutdown_flag (ready w)) (bs ! c) b'"
    using engaged_Held(2) [OF inv i(1) eng] i(2) by (auto simp: at_phase_def)
  have w': "w' = moves i (In_async_wait c) (w\<lparr>pool_io := st (duration aw) (Resume c) (pool_io w)\<rparr>)"
    using step i by (simp add: coro_thread_step_def delay_await_def)
  show ?thesis
    by (intro inv_hand_over [OF inv i(1) eng, where x = "In_async_wait c" and b = b'])
      (use f in \<open>auto simp: w' moves_def due_at_def io_contractD(1) [OF io]\<close>)
qed

lemma inv_signals:
  assumes inv: "coro_pool_inv pending bs w" and i: "i < length (doing w)" "doing w ! i = Signals c"
    and step: "coro_thread_step st ro i w = Some w'"
  shows "coro_pool_inv pending bs w'"
proof -
  have eng: "engaged c (doing w ! i)" using i by simp
  note ph = engaged_Held [OF inv i(1) eng]
  obtain r where f: "frames w ! c = Some (stored r)" and ex: "expected (shutdown_flag (ready w)) (bs ! c) r"
    using ph(2) i(2) by (auto simp: at_phase_def)
  obtain f' where f': "final_await (stored r) = (Some (fulfilled r), f')"
    using final_await_stored [of r] by blast
  have w': "w' = moves i Leaving (w\<lparr>frames := (frames w)[c := Some f'],
      proms := (proms w)[c := Some (fulfilled r)]\<rparr>)"
    using step i f f' by (simp add: coro_thread_step_def signal_outcome_def)
  have due: "due_at pending w' d = due_at pending w d" for d by (simp add: due_at_def w' moves_def)
  have "at_phase pending bs w' c Fulfilled"
    using ph(1,2) leave_client [OF inv i(1) eng, of Leaving] ex coro_pool_invD(2,3) [OF inv]
    by (simp add: at_phase_def due) (auto simp: w' moves_def)
  then show ?thesis
    by (intro inv_leave [OF inv i(1) eng, of Leaving])
      (use coro_pool_invD(1) [OF inv] due in \<open>auto simp: w' moves_def\<close>)
qed

text \<open>The steps of a client outside its coroutine, and of a worker outside of any.\<close>

lemma at_phase_moves:
  assumes "at_phase pending bs w d ph" "i < length (doing w)"
    and w': "doing w' = (doing w)[i := x]" "frames w' = frames w" "proms w' = proms w"
      "due_at pending w' d = due_at pending w d" "shutdown_flag (ready w') = shutdown_flag (ready w)"
    and "\<And>e. \<not> engaged e (doing w ! i)" "\<And>e. \<not> engaged e x"
    and "i = d \<Longrightarrow> away (doing w ! i) \<and> away x"
  shows "at_phase pending bs w' d ph"
proof -
  have eng: "engaged e ((doing w)[i := x] ! j) \<longleftrightarrow> engaged e (doing w ! j)" for e j
    using assms(2,8,9) by (cases "j = i") auto
  have client: "away ((doing w)[i := x] ! d) \<longleftrightarrow> away (doing w ! d)"
    using assms(2,10) by (cases "i = d") auto
  have not_away: "away (Returned_get r :: 'b doing) \<longleftrightarrow> False" "away (Destroyed r :: 'b doing) \<longleftrightarrow> False"
    "away (Calls :: 'b doing) \<longleftrightarrow> False" for r by simp_all
  have same: "j \<noteq> i \<Longrightarrow> (doing w)[i := x] ! j = doing w ! j" for j by auto
  show ?thesis
  proof (cases ph)
    case (Held k)
    then have "k \<noteq> i" using assms(1,8) by (auto simp: at_phase_def)
    then show ?thesis
      using assms(1) Held eng client by (simp add: at_phase_def w')
  next
    case Due
    then show ?thesis
      using assms(1) eng client by (simp add: at_phase_def w')
  next
    case Fulfilled
    then show ?thesis
      using assms(1,2,10) eng client not_away
      by (cases "i = d") (auto simp: at_phase_def w')
  next
    case Fresh
    then show ?thesis
      using assms(1,10) eng by (cases "i = d") (auto simp: at_phase_def w')
  qed
qed

lemma inv_aside:
  assumes inv: "coro_pool_inv pending bs w" and i: "i < length (doing w)"
    and w': "doing w' = (doing w)[i := x]" "frames w' = frames w" "proms w' = proms w"
      "misuse w' = misuse w" "shutdown_flag (ready w') = shutdown_flag (ready w)"
      "\<And>d. due_at pending w' d = due_at pending w d"
    and quiet: "\<And>e. \<not> engaged e (doing w ! i)" "\<And>e. \<not> engaged e x"
    and client: "i < length bs \<Longrightarrow> away (doing w ! i) \<and> away x"
    and worker: "length bs \<le> i \<Longrightarrow> worker_ok x"
  shows "coro_pool_inv pending bs w'"
proof -
  note I = coro_pool_invD [OF inv]
  have "\<exists>ph. at_phase pending bs w' d ph" if d: "d < length bs" for d
  proof -
    obtain ph where "at_phase pending bs w d ph" using I(8) [OF d] by blast
    then have "at_phase pending bs w' d ph"
      by (rule at_phase_moves) (use i d quiet client w' in auto)
    then show ?thesis by blast
  qed
  moreover have "engaged e ((doing w)[i := x] ! j) \<Longrightarrow> j < length (doing w) \<Longrightarrow> e < length bs" for e j
    using I(6) [of j e] i quiet by (cases "j = i") auto
  moreover have "j < length (doing w) \<Longrightarrow> length bs \<le> j \<Longrightarrow> worker_ok ((doing w)[i := x] ! j)" for j
    using I(7) [of j] worker by (cases "j = i") auto
  ultimately show ?thesis
    unfolding coro_pool_inv_def using I by (simp add: w')
qed

lemma client_only:
  assumes "coro_pool_inv pending bs w" "i < length (doing w)" "\<not> worker_ok (doing w ! i)"
  shows "i < length bs"
  using coro_pool_invD(7) [OF assms(1,2)] assms(3) by (cases "i < length bs") auto

lemma worker_only:
  assumes "coro_pool_inv pending bs w" "doing w ! i = Resting \<or> doing w ! i = Polling"
  shows "length bs \<le> i"
  using client_phase(4,5) [OF assms(1), of i] assms(2) by (cases "i < length bs") auto

lemma inv_take_work:
  assumes inv: "coro_pool_inv pending bs w" and i: "i < length (doing w)" "doing w ! i = Resting"
    and step: "take_work i w = Some w'"
  shows "coro_pool_inv pending bs w'"
proof -
  have ge: "length bs \<le> i" using worker_only [OF inv] i(2) by blast
  obtain t rest where t: "tasks (ready w) = t # rest"
    using step by (auto simp: take_work_def begin_work_def try_pop_def split: list.splits)
  let ?q = "(ready w)\<lparr>tasks := rest\<rparr>"
  show ?thesis
  proof (cases t)
    case (Resumption c)
    have "w' = resume_on i c (w\<lparr>ready := ?q\<rparr>)"
      using step t Resumption by (simp add: take_work_def begin_work_def try_pop_def)
    moreover have "coro_pool_inv pending bs (resume_on i c (w\<lparr>ready := ?q\<rparr>))"
      by (rule conjunct1 [OF inv_resume [OF inv i(1) ge, where q = ?q and io = "pool_io w"]])
        (use i t Resumption in \<open>auto simp: due_at_def\<close>)
    ultimately show ?thesis by simp
  next
    case Run_io
    then have "w' = moves i Polling (w\<lparr>ready := ?q, in_run := (in_run w)[i := True]\<rparr>)"
      using step t by (simp add: take_work_def begin_work_def try_pop_def)
    then show ?thesis
      using i ge t Run_io
      by (intro inv_aside [OF inv i(1), where x = Polling]) (auto simp: moves_def due_at_def worker_ok_def)
  qed
qed

lemma taken_due:
  assumes io: "io_contract st po ro pending" and ro: "ro (pool_io w) = (Some (ec, h), io)"
  shows "h = Resume c \<Longrightarrow> Suc (due_at pending (w\<lparr>pool_io := io\<rparr>) c) = due_at pending w c"
    and "h \<noteq> Resume d \<Longrightarrow> due_at pending (w\<lparr>pool_io := io\<rparr>) d = due_at pending w d"
proof -
  note t = io_contractD(4,5) [OF io ro]
  show "Suc (due_at pending (w\<lparr>pool_io := io\<rparr>) c) = due_at pending w c" if "h = Resume c"
  proof -
    have "0 < count (pending (pool_io w)) (Resume c)" using t(1) that by simp
    then show ?thesis using t(2) that by (simp add: due_at_def)
  qed
  show "due_at pending (w\<lparr>pool_io := io\<rparr>) d = due_at pending w d" if "h \<noteq> Resume d"
    using t(2) that by (simp add: due_at_def)
qed

text \<open>What the invariant depends on.\<close>

lemma inv_cong:
  assumes "doing w' = doing w" "frames w' = frames w" "proms w' = proms w" "misuse w' = misuse w"
    and "shutdown_flag (ready w') = shutdown_flag (ready w)"
    and "\<And>d. due_at pending w' d = due_at pending w d"
  shows "coro_pool_inv pending bs w' = coro_pool_inv pending bs w"
proof -
  have "at_phase pending bs w' = at_phase pending bs w"
    unfolding at_phase_def [abs_def] assms ..
  then show ?thesis unfolding coro_pool_inv_def assms by simp
qed

lemma inv_io_changed:
  assumes "coro_pool_inv pending bs w" "\<And>d. due_at pending (w\<lparr>pool_io := io\<rparr>) d = due_at pending w d"
  shows "coro_pool_inv pending bs (w\<lparr>pool_io := io\<rparr>)"
  using assms inv_cong [of "w\<lparr>pool_io := io\<rparr>" w] by simp

lemma inv_poll_io:
  assumes io: "io_contract st po ro pending" and inv: "coro_pool_inv pending bs w"
    and i: "i < length (doing w)" "doing w ! i = Polling" and step: "poll_io ro i w = Some w'"
  shows "coro_pool_inv pending bs w'"
proof -
  have ge: "length bs \<le> i" using worker_only [OF inv] i(2) by blast
  show ?thesis
  proof (cases "io_stopped w")
    case True
    then have "w' = moves i Resting (w\<lparr>in_run := (in_run w)[i := False]\<rparr>)"
      using step by (simp add: poll_io_def)
    then show ?thesis
      using i ge
      by (intro inv_aside [OF inv i(1), where x = Resting]) (auto simp: moves_def due_at_def worker_ok_def)
  next
    case False
    then obtain ec h s where ro: "ro (pool_io w) = (Some (ec, h), s)"
      using step by (auto simp: poll_io_def split: prod.splits option.splits)
    show ?thesis
    proof (cases "\<exists>c. h = Resume c")
      case True
      then obtain c where h: "h = Resume c" by blast
      then have "w' = resume_on i c (w\<lparr>pool_io := s\<rparr>)"
        using step False ro by (simp add: poll_io_def)
      moreover have "coro_pool_inv pending bs (resume_on i c (w\<lparr>pool_io := s\<rparr>))"
        by (rule conjunct1 [OF inv_resume [OF inv i(1) ge, where q = "ready w" and io = s]])
          (use i h taken_due [OF io ro] in auto)
      ultimately show ?thesis by simp
    next
      case False
      then have "w' = w\<lparr>pool_io := s\<rparr>"
        using step \<open>\<not> io_stopped w\<close> ro by (cases h) (auto simp: poll_io_def)
      then show ?thesis
        using inv_io_changed [OF inv] taken_due(2) [OF io ro] False by blast
    qed
  qed
qed

lemma inv_leaving:
  assumes inv: "coro_pool_inv pending bs w" and i: "i < length (doing w)" "doing w ! i = Leaving"
    and step: "coro_thread_step st ro i w = Some w'"
  shows "coro_pool_inv pending bs w'"
proof -
  define x :: "'b doing"
    where "x = (if i < length bs then Getting else if in_run w ! i then Polling else Resting)"
  have w': "w' = moves i x w"
    using step i coro_pool_invD(2) [OF inv] by (simp add: coro_thread_step_def x_def)
  show ?thesis
    by (intro inv_aside [OF inv i(1), where x = x])
      (use i in \<open>auto simp: w' x_def moves_def due_at_def worker_ok_def\<close>)
qed

lemma inv_async_wait:
  assumes inv: "coro_pool_inv pending bs w" and i: "i < length (doing w)" "doing w ! i = In_async_wait c"
    and step: "coro_thread_step st ro i w = Some w'"
  shows "coro_pool_inv pending bs w'"
  using step i
  by (intro inv_aside [OF inv i(1), where x = Leaving])
    (auto simp: coro_thread_step_def moves_def due_at_def worker_ok_def)

lemma inv_getting:
  assumes inv: "coro_pool_inv pending bs w" and i: "i < length (doing w)" "doing w ! i = Getting"
    and step: "coro_thread_step st ro i w = Some w'"
  shows "coro_pool_inv pending bs w'"
proof -
  have less: "i < length bs" using client_only [OF inv i(1)] i(2) by (simp add: worker_ok_def)
  obtain x where x: "proms w ! i = Some x" "w' = moves i (Returned_get x) w"
    using step i by (auto simp: coro_thread_step_def)
  note ph = client_phase(2) [OF inv less x(1)]
  have quiet: "j < length (doing w) \<Longrightarrow> \<not> engaged i ((doing w)[i := Returned_get x] ! j)" for j
    using ph by (cases "j = i") (auto simp: at_phase_def)
  have due: "due_at pending w' d = due_at pending w d" for d by (simp add: due_at_def x(2) moves_def)
  have "at_phase pending bs w' i Fulfilled"
    using ph quiet i x by (simp add: at_phase_def due) (auto simp: moves_def)
  then show ?thesis
    by (rule coro_pool_inv_step [OF inv i(1) less, rotated -1])
      (use i x less coro_pool_invD(1) [OF inv] due in \<open>auto simp: moves_def\<close>)
qed

lemma inv_returned:
  assumes inv: "coro_pool_inv pending bs w" and i: "i < length (doing w)" "doing w ! i = Returned_get x"
    and step: "coro_thread_step st ro i w = Some w'"
  shows "coro_pool_inv pending bs w'"
proof -
  have less: "i < length bs" using client_only [OF inv i(1)] i(2) by (simp add: worker_ok_def)
  have w': "w' = moves i (Destroyed x) (w\<lparr>frames := (frames w)[i := None]\<rparr>)"
    using step i by (simp add: coro_thread_step_def)
  note ph = client_phase(3) [OF inv less i(2)]
  have quiet: "j < length (doing w) \<Longrightarrow> \<not> engaged i ((doing w)[i := Destroyed x] ! j)" for j
    using ph by (cases "j = i") (auto simp: at_phase_def)
  have due: "due_at pending w' d = due_at pending w d" for d by (simp add: due_at_def w' moves_def)
  have "at_phase pending bs w' i Fulfilled"
    using ph quiet i less coro_pool_invD(2) [OF inv]
    by (simp add: at_phase_def due) (auto simp: moves_def w')
  then show ?thesis
    by (rule coro_pool_inv_step [OF inv i(1) less, rotated -1])
      (use i less coro_pool_invD(1) [OF inv] due in \<open>auto simp: moves_def w'\<close>)
qed

lemma inv_thread:
  assumes io: "io_contract st po ro pending" and inv: "coro_pool_inv pending bs w"
    and step: "coro_thread_step st ro i w = Some w'"
  shows "coro_pool_inv pending bs w'"
proof -
  have i: "i < length (doing w)" using step by (simp add: coro_thread_step_def split: if_splits)
  note st = step [unfolded coro_thread_step_def, simplified i if_True]
  show ?thesis
  proof (cases "doing w ! i")
    case Resting
    then show ?thesis using st inv_take_work [OF inv i Resting] by simp
  next
    case Polling
    then show ?thesis using st inv_poll_io [OF io inv i Polling] by simp
  next
    case Calls
    then show ?thesis using st inv_call [OF inv i Calls] by simp
  next
    case (Executing c b)
    then show ?thesis using st inv_execute [OF inv i Executing] by simp
  next
    case (Destroyed r)
    then show ?thesis using st by simp
  qed (use inv_suspends [OF inv i _ step] inv_arming [OF io inv i _ step] inv_async_wait [OF inv i _ step]
      inv_signals [OF inv i _ step] inv_leaving [OF inv i _ step] inv_getting [OF inv i _ step]
      inv_returned [OF inv i _ step] in blast)+
qed

lemma held_ok_close: "held_ok cl b0 d fr \<Longrightarrow> held_ok True b0 d fr"
  by (cases d) (auto intro: expects_close expected_close)

lemma inv_close_pool:
  assumes inv: "coro_pool_inv pending bs w"
  shows "coro_pool_inv pending bs (w\<lparr>ready := shutdown (ready w)\<rparr>)"
proof -
  have due: "due_at pending (w\<lparr>ready := shutdown (ready w)\<rparr>) d = due_at pending w d" for d
    by (simp add: due_at_def shutdown_def)
  have "at_phase pending bs w c ph \<Longrightarrow> at_phase pending bs (w\<lparr>ready := shutdown (ready w)\<rparr>) c ph" for c ph
    by (cases ph) (auto simp: at_phase_def due, auto simp: shutdown_def
        intro: expects_close expected_close held_ok_close)
  then show ?thesis
    using inv unfolding coro_pool_inv_def due by simp blast
qed

lemma inv_stop_io: "coro_pool_inv pending bs (w\<lparr>io_stopped := b\<rparr>) \<longleftrightarrow> coro_pool_inv pending bs w"
  by (rule inv_cong) (simp_all add: due_at_def)

lemma inv_start:
  assumes "coro_pool_init st po ro pending bs m w"
  shows "io_contract st po ro pending \<and> coro_pool_inv pending bs w"
  using assms
proof (induction rule: coro_pool_init.induct)
  case (1 i n)
  let ?w = "coro_pool_start bs n m i"
  have d: "j < length bs + n \<Longrightarrow> doing ?w ! j = (if j < length bs then Calls else Resting)" for j
    by (simp add: coro_pool_start_def nth_append)
  have len: "length (doing ?w) = length bs + n" by (simp add: coro_pool_start_def)
  have "count_list (replicate m Run_io) (Resumption c) = 0" for c by (induction m) auto
  then have due: "due_at pending ?w c = 0" for c
    using 1(2) by (simp add: due_at_def coro_pool_start_def TaskQueue_def not_in_iff)
  have "at_phase pending bs ?w c Fresh" if "c < length bs" for c
    using that d by (simp add: at_phase_def due len) (simp add: coro_pool_start_def)
  then show ?case
    using 1(1) d due len unfolding coro_pool_inv_def
    by (auto simp: worker_ok_def) (auto simp: coro_pool_start_def)
qed

lemma inv_coro_pool_step:
  assumes "io_contract st po ro pending" "coro_pool_inv pending bs w" "coro_pool_step st po ro w w'"
  shows "coro_pool_inv pending bs w'"
  using assms(3)
proof (cases rule: coro_pool_step.cases)
  case (thread i)
  then show ?thesis using inv_thread [OF assms(1,2)] by blast
next
  case close
  then show ?thesis using inv_close_pool [OF assms(2)] by simp
next
  case stop
  then show ?thesis using assms(2) inv_stop_io by blast
next
  case (timer h d)
  then show ?thesis
    using inv_io_changed [OF assms(2)] io_contractD(1) [OF assms(1)] by (simp add: due_at_def)
next
  case (post h)
  then show ?thesis
    using inv_io_changed [OF assms(2)] io_contractD(2) [OF assms(1)] by (simp add: due_at_def)
next
  case (wait i)
  then show ?thesis
    using inv_io_changed [OF assms(2)] io_contractD(3) [OF assms(1)] by (simp add: due_at_def)
qed

interpretation coros: state_invariant "coro_pool_init st po ro pending bs m" "coro_pool_step st po ro"
    "\<lambda>w. io_contract st po ro pending \<and> coro_pool_inv pending bs w" for st po ro pending bs m
  by unfold_locales (auto dest: inv_start intro: inv_coro_pool_step)

end
