(* ===== verification/Coro_Progress.thy ===== *)
theory Coro_Progress
  imports Coro_Pool
begin

text \<open>
  The coroutines of \<open>Coro_Pool\<close> come to their end: where the calls of \<open>io_context::run()\<close> are, what
  it means that no thread can move, a measure that bounds the steps of all threads together, and
  what becomes of a coroutine whose timer is abandoned.
\<close>

section \<open>The calls of run()\<close>

text \<open>They are queued or under way; they get fewer only when the context is stopped.\<close>

definition run_calls :: "('io, 'v) coro_pool \<Rightarrow> nat" where
  "run_calls w = count_list (tasks (ready w)) Run_io + count_list (in_run w) True"

text \<open>A thread at a given point agrees with whether it is inside \<open>run()\<close>.\<close>

fun run_fits :: "bool \<Rightarrow> 'v doing \<Rightarrow> bool" where
  "run_fits r Resting \<longleftrightarrow> \<not> r"
| "run_fits r Polling \<longleftrightarrow> r"
| "run_fits r d \<longleftrightarrow> True"

definition runs_inv :: "nat \<Rightarrow> nat \<Rightarrow> ('io, 'v) coro_pool \<Rightarrow> bool" where
  "runs_inv k m w \<longleftrightarrow> length (frames w) = k \<and> length (in_run w) = length (doing w) \<and>
     (\<forall>i < length (doing w). run_fits (in_run w ! i) (doing w ! i)) \<and>
     (\<forall>i < length (doing w). in_run w ! i \<longrightarrow> k \<le> i) \<and>
     (\<forall>i < length (doing w). i < k \<longrightarrow> doing w ! i \<noteq> Resting) \<and>
     run_calls w \<le> m \<and> (io_stopped w \<or> run_calls w = m)"

lemma runs_inv_step:
  assumes inv: "runs_inv k m w" and i: "i < length (doing w)"
    and w': "length (frames w') = length (frames w)" "doing w' = (doing w)[i := x]"
      "in_run w' = (in_run w)[i := r]" "io_stopped w' = io_stopped w"
    and x: "run_fits r x" "r \<Longrightarrow> k \<le> i" "i < k \<Longrightarrow> x \<noteq> Resting"
    and calls: "run_calls w' = run_calls w \<or> io_stopped w \<and> run_calls w' \<le> run_calls w"
  shows "runs_inv k m w'"
  using assms unfolding runs_inv_def by (auto simp: nth_list_update)

text \<open>Most steps of a thread do not touch its stay in \<open>run()\<close>.\<close>

lemma runs_inv_same:
  assumes inv: "runs_inv k m w" and i: "i < length (doing w)"
    and w': "length (frames w') = length (frames w)" "doing w' = (doing w)[i := x]"
      "in_run w' = in_run w" "io_stopped w' = io_stopped w"
      "count_list (tasks (ready w')) Run_io = count_list (tasks (ready w)) Run_io"
    and x: "run_fits (in_run w ! i) x" "i < k \<Longrightarrow> x \<noteq> Resting"
  shows "runs_inv k m w'"
  by (rule runs_inv_step [OF inv i w'(1,2), where r = "in_run w ! i"])
    (use assms in \<open>auto simp: runs_inv_def run_calls_def\<close>)

lemma runs_inv_frames:
  "runs_inv k m w \<Longrightarrow> length fs = length (frames w) \<Longrightarrow> runs_inv k m (w\<lparr>frames := fs\<rparr>)"
  "runs_inv k m (w\<lparr>misuse := b\<rparr>) = runs_inv k m w"
  "runs_inv k m (w\<lparr>pool_io := io\<rparr>) = runs_inv k m w"
  by (simp_all add: runs_inv_def run_calls_def)

text \<open>Resuming a frame, or making use of one.\<close>

lemma runs_inv_resume_on:
  assumes "runs_inv k m w" "i < length (doing w)"
  shows "runs_inv k m (resume_on i c w)"
proof -
  have "runs_inv k m (moves i (Executing c b) w)" for b
    by (rule runs_inv_same [OF assms]) (auto simp: moves_def)
  then show ?thesis
    using assms(1) by (auto simp: resume_on_def runs_inv_frames split: option.splits point.splits)
qed

lemma runs_inv_queue:
  assumes "runs_inv k m w" "count_list (tasks q) Run_io = count_list (tasks (ready w)) Run_io"
  shows "runs_inv k m (w\<lparr>ready := q\<rparr>)"
  using assms by (simp add: runs_inv_def run_calls_def)

lemma runs_inv_on_frame: "runs_inv k m w \<Longrightarrow> runs_inv k m (on_frame c g w)"
  by (auto simp: on_frame_def runs_inv_frames split: option.splits)

lemma runs_inv_signal: "runs_inv k m w \<Longrightarrow> runs_inv k m (signal_outcome c w)"
  by (auto simp: signal_outcome_def runs_inv_def run_calls_def split: option.splits prod.splits)

lemma runs_inv_moves:
  assumes "runs_inv k m w" "i < length (doing w)" "run_fits (in_run w ! i) x" "i < k \<Longrightarrow> x \<noteq> Resting"
  shows "runs_inv k m (moves i x w)"
  by (rule runs_inv_same [OF assms(1,2)]) (use assms(3,4) in \<open>auto simp: moves_def\<close>)

lemma on_frame_same [simp]:
  "doing (on_frame c g w) = doing w" "in_run (on_frame c g w) = in_run w"
  "doing (signal_outcome c w) = doing w" "in_run (signal_outcome c w) = in_run w"
  by (auto simp: on_frame_def signal_outcome_def split: option.splits prod.splits)

lemma runs_inv_take_work:
  assumes inv: "runs_inv k m w" and i: "i < length (doing w)" "doing w ! i = Resting"
    and step: "take_work i w = Some w'"
  shows "runs_inv k m w'"
proof -
  obtain t rest where t: "tasks (ready w) = t # rest"
    using step by (auto simp: take_work_def begin_work_def try_pop_def split: list.splits)
  let ?q = "(ready w)\<lparr>tasks := rest\<rparr>"
  show ?thesis
  proof (cases t)
    case (Resumption c)
    then have "w' = resume_on i c (w\<lparr>ready := ?q\<rparr>)"
      using step t by (simp add: take_work_def begin_work_def try_pop_def)
    then show ?thesis
      using runs_inv_resume_on [OF runs_inv_queue [OF inv, of ?q], of i c] i t Resumption by simp
  next
    case Run_io
    have r: "i < length (in_run w)" "\<not> in_run w ! i" "k \<le> i"
      using inv i unfolding runs_inv_def by (auto simp: not_less [symmetric])
    have "run_calls (w\<lparr>ready := ?q, in_run := (in_run w)[i := True]\<rparr>) = run_calls w"
      using t Run_io r(2) count_list_update [OF r(1), of True True] by (simp add: run_calls_def)
    moreover have w': "w' = moves i Polling (w\<lparr>ready := ?q, in_run := (in_run w)[i := True]\<rparr>)"
      using step t Run_io by (simp add: take_work_def begin_work_def try_pop_def)
    ultimately show ?thesis
      by (intro runs_inv_step [OF inv i(1), where x = Polling and r = True])
        (use r in \<open>auto simp: moves_def run_calls_def\<close>)
  qed
qed

lemma runs_inv_poll_io:
  assumes inv: "runs_inv k m w" and i: "i < length (doing w)" "doing w ! i = Polling"
    and step: "poll_io ro i w = Some w'"
  shows "runs_inv k m w'"
proof (cases "io_stopped w")
  case True
  have r: "i < length (in_run w)" "in_run w ! i" "k \<le> i"
    using inv i unfolding runs_inv_def by auto
  have "count_list ((in_run w)[i := False]) True \<le> count_list (in_run w) True"
    using count_list_update [OF r(1), of False True] r(2) by simp
  moreover have "w' = moves i Resting (w\<lparr>in_run := (in_run w)[i := False]\<rparr>)"
    using step True by (simp add: poll_io_def)
  ultimately show ?thesis
    by (intro runs_inv_step [OF inv i(1), where x = Resting and r = False])
      (use r True in \<open>auto simp: moves_def run_calls_def\<close>)
next
  case False
  then obtain ec h s where ro: "ro (pool_io w) = (Some (ec, h), s)"
    using step by (auto simp: poll_io_def split: prod.splits option.splits)
  show ?thesis
  proof (cases h)
    case (Resume c)
    then have "w' = resume_on i c (w\<lparr>pool_io := s\<rparr>)"
      using step False ro by (simp add: poll_io_def)
    then show ?thesis
      using runs_inv_resume_on [of k m "w\<lparr>pool_io := s\<rparr>" i c] i inv by (simp add: runs_inv_frames)
  qed (use step False ro inv in \<open>simp_all add: poll_io_def, auto simp: runs_inv_frames\<close>)
qed

lemma runs_inv_thread:
  assumes inv: "runs_inv k m w" and step: "coro_thread_step st ro i w = Some w'"
  shows "runs_inv k m w'"
proof -
  have i: "i < length (doing w)" using step by (simp add: coro_thread_step_def split: if_splits)
  note st = step [unfolded coro_thread_step_def, simplified i if_True]
  note move = runs_inv_moves [OF _ _, of k m _ i]
  have fit: "run_fits (in_run w ! i) (if i < length (frames w) then Getting
      else if in_run w ! i then Polling else Resting)" by simp
  have len: "length (frames w) = k" using inv by (simp add: runs_inv_def)
  show ?thesis
  proof (cases "doing w ! i")
    case Resting
    then show ?thesis using st runs_inv_take_work [OF inv i Resting] by simp
  next
    case Polling
    then show ?thesis using st runs_inv_poll_io [OF inv i Polling] by simp
  next
    case Calls
    then show ?thesis
      using st i runs_inv_resume_on [OF runs_inv_on_frame [OF inv], of i i set_external_promise i]
      by simp
  next
    case (Executing c b)
    then show ?thesis
      using st i runs_inv_on_frame [OF inv] by (cases b) (auto simp: execute_def intro!: move)
  next
    case (Suspends c h)
    then show ?thesis
      using st i inv by (cases "shutdown_flag (ready w)")
        (auto simp: push_def intro!: move runs_inv_queue)
  next
    case (Arming c aw)
    then show ?thesis
      using st i inv by (auto simp: delay_await_def runs_inv_frames intro!: move)
  next
    case (Signals c)
    then show ?thesis using st i runs_inv_signal [OF inv] by (auto intro!: move)
  next
    case Leaving
    then show ?thesis using st len runs_inv_moves [OF inv i fit] by (simp split: if_splits)
  next
    case (Returned_get r)
    then show ?thesis
      using st i runs_inv_frames(1) [OF inv, of "(frames w)[i := None]"] by (auto intro!: move)
  qed (use st i inv in \<open>auto intro!: move\<close>)
qed

lemma runs_inv_pool_step:
  assumes "coro_pool_step st po ro w w'" "runs_inv k m w"
  shows "runs_inv k m w'"
  using assms by (induction rule: coro_pool_step.induct)
    (auto simp: runs_inv_frames intro: runs_inv_thread, auto simp: runs_inv_def run_calls_def shutdown_def)

lemma runs_inv_start: "coro_pool_init st po ro pending bs m w \<Longrightarrow> runs_inv (length bs) m w"
proof (induction rule: coro_pool_init.induct)
  case (1 i n)
  have "count_list (replicate m Run_io) Run_io = m" by (induction m) simp_all
  moreover have "count_list (replicate l False) True = 0" for l by (induction l) simp_all
  ultimately show ?case
    by (auto simp: runs_inv_def coro_pool_start_def run_calls_def TaskQueue_def nth_append)
qed

interpretation runs: state_invariant "coro_pool_init st po ro pending bs m" "coro_pool_step st po ro"
    "runs_inv (length bs) m" for st po ro pending bs m
  by unfold_locales (auto dest: runs_inv_start intro: runs_inv_pool_step)

section \<open>Nothing is left when nothing can move\<close>

lemma stuck_thread:
  assumes "coro_thread_step st ro i w = None" "i < length (doing w)"
  shows "\<not> engaged c (doing w ! i)" "doing w ! i \<noteq> Leaving" "doing w ! i \<noteq> Calls"
    "doing w ! i \<noteq> Returned_get r" "doing w ! i \<noteq> In_async_wait c"
    "doing w ! i = Resting \<Longrightarrow> tasks (ready w) = []"
    "doing w ! i = Polling \<Longrightarrow> \<not> io_stopped w \<and> fst (ro (pool_io w)) = None"
    "doing w ! i = Getting \<Longrightarrow> proms w ! i = None"
  using assms
  by (auto simp: coro_thread_step_def take_work_def begin_work_def try_pop_def poll_io_def
      split: doing.splits list.splits work.splits if_splits prod.splits option.splits handler.splits)

lemma a_False_above:
  assumes "k + count_list xs True < length xs"
  shows "\<exists>i. k \<le> i \<and> i < length xs \<and> \<not> xs ! i"
proof (rule ccontr)
  assume "\<nexists>i. k \<le> i \<and> i < length xs \<and> \<not> xs ! i"
  then have "\<forall>x \<in> set (drop k xs). x" by (auto simp: in_set_conv_nth)
  then have "count_list (drop k xs) True = length (drop k xs)"
    by (simp add: count_list_eq_length_filter)
  moreover have "count_list xs True = count_list (take k xs) True + count_list (drop k xs) True"
    by (metis append_take_drop_id count_list_append)
  ultimately show False using assms by simp
qed

lemma a_True: "count_list xs True \<noteq> 0 \<Longrightarrow> \<exists>i < length xs. xs ! i"
  by (metis count_list_0_iff in_set_conv_nth)

lemma stuck_returned:
  assumes inv: "coro_pool_inv pending bs w" "runs_inv (length bs) m w" and wait: "io_waits ro pending"
    and stuck: "\<And>i. coro_thread_step st ro i w = None"
    and workers: "length bs + m < length (doing w)" and c: "c < length bs"
  shows "(\<exists>r. doing w ! c = Destroyed (fulfilled r) \<and> frames w ! c = None \<and>
      expected (shutdown_flag (ready w)) (bs ! c) r) \<or>
    Resume c \<in># pending (pool_io w) \<and> (io_stopped w \<or> m = 0)"
proof -
  note I = coro_pool_invD [OF inv(1)] and T = stuck_thread [OF stuck]
  have R: "length (in_run w) = length (doing w)" "count_list (in_run w) True \<le> m"
      "count_list (tasks (ready w)) Run_io + count_list (in_run w) True = m \<or> io_stopped w"
    using inv(2) by (auto simp: runs_inv_def run_calls_def)
  have F: "run_fits (in_run w ! i) (doing w ! i)" if "i < length (doing w)" for i
    using inv(2) that by (simp add: runs_inv_def)
  have at: "doing w ! i = Resting \<or> doing w ! i = Polling" if "i < length (doing w)" "length bs \<le> i" for i
    using I(7) [OF that] T(1,2,5) [OF that(1)] by (auto simp: worker_ok_def)
  obtain i where i: "length bs \<le> i" "i < length (doing w)" "\<not> in_run w ! i"
    using a_False_above [of "length bs" "in_run w"] R workers by auto
  then have empty: "tasks (ready w) = []"
    using at [OF i(2,1)] F [OF i(2)] T(6) [OF i(2)] by auto
  have none: "pending (pool_io w) = {#}" if running: "\<not> io_stopped w" "m \<noteq> 0"
  proof -
    obtain j where j: "j < length (doing w)" "in_run w ! j"
      using R(1,3) running empty a_True [of "in_run w"] by auto
    then have "length bs \<le> j" using inv(2) by (simp add: runs_inv_def)
    then have "doing w ! j = Polling" using at [OF j(1)] F [OF j(1)] j(2) by auto
    then have "fst (ro (pool_io w)) = None" using T(7) [OF j(1)] by blast
    then show ?thesis using wait by (cases "ro (pool_io w)") (auto simp: io_waits_def)
  qed
  obtain ph where ph: "at_phase pending bs w c ph" using I(8) [OF c] by blast
  have cl: "c < length (doing w)" using c workers by simp
  have away: "away (doing w ! c) \<Longrightarrow> doing w ! c = Getting"
    using T(2,5) [OF cl] by (cases "doing w ! c") auto
  show ?thesis
  proof (cases ph)
    case Due
    then have "Resume c \<in># pending (pool_io w)"
      using ph empty by (auto simp: at_phase_def due_at_def simp flip: count_greater_zero_iff)
    then show ?thesis using none by auto
  next
    case Fulfilled
    then show ?thesis
      using ph away T(4,8) [OF cl] by (auto simp: at_phase_def)
  qed (use ph T(1,3) [OF cl] T(1) in \<open>auto simp: at_phase_def\<close>)
qed

section \<open>Every run of the threads ends\<close>

text \<open>
  A body is finite, so a measure bounds the steps the threads can make: what is left of the
  bodies they run or that are due, the handlers pending, and what every client has still to do.
\<close>

primrec body_work :: "'v body \<Rightarrow> nat" where
  "body_work (Co_return v) = 1"
| "body_work (Co_throw e) = 1"
| "body_work (Co_schedule b on_throw) =
     Suc (max (body_work b) (body_work (on_throw (Runtime_error shut_down_message))))"
| "body_work (Co_delay aw b) = Suc (body_work b)"

definition frame_work :: "'v frame option \<Rightarrow> nat" where
  "frame_work fr =
     (case fr of None \<Rightarrow> 0 | Some f \<Rightarrow>
        (case point f of At_final \<Rightarrow> 0 | Suspended b \<Rightarrow> 8 * body_work b + 5))"

fun doing_work :: "'v frame option list \<Rightarrow> nat \<Rightarrow> 'v doing \<Rightarrow> nat" where
  "doing_work fr i Resting = 0"
| "doing_work fr i Polling = 1"
| "doing_work fr i Calls = frame_work (fr ! i)"
| "doing_work fr i (Executing c b) = 8 * body_work b + 4"
| "doing_work fr i (Suspends c h) =
     Suc (max (frame_work (fr ! c) + 3) (8 * body_work (h (Runtime_error shut_down_message)) + 4))"
| "doing_work fr i (Arming c aw) = Suc (frame_work (fr ! c) + 4)"
| "doing_work fr i (In_async_wait c) = 4"
| "doing_work fr i (Signals c) = 4"
| "doing_work fr i Leaving = 3"
| "doing_work fr i Getting = 2"
| "doing_work fr i (Returned_get r) = 1"
| "doing_work fr i (Destroyed r) = 0"

fun task_work :: "'v frame option list \<Rightarrow> work \<Rightarrow> nat" where
  "task_work fr (Resumption c) = frame_work (fr ! c)"
| "task_work fr Run_io = 2"

fun handler_work :: "'v frame option list \<Rightarrow> 'v handler \<Rightarrow> nat" where
  "handler_work fr (Resume c) = frame_work (fr ! c)"
| "handler_work fr h = 1"

definition threads_work :: "('io, 'v) coro_pool \<Rightarrow> nat" where
  "threads_work w = (\<Sum>i < length (doing w). doing_work (frames w) i (doing w ! i))"

definition due_work :: "('io \<Rightarrow> 'v handler multiset) \<Rightarrow> ('io, 'v) coro_pool \<Rightarrow> nat" where
  "due_work pending w = sum_list (map (task_work (frames w)) (tasks (ready w)))
     + sum_mset (image_mset (handler_work (frames w)) (pending (pool_io w)))"

definition coro_pool_work :: "('io \<Rightarrow> 'v handler multiset) \<Rightarrow> ('io, 'v) coro_pool \<Rightarrow> nat" where
  "coro_pool_work pending w = threads_work w + due_work pending w"

text \<open>Thread \<open>i\<close> is the only one whose work depends on frame \<open>c\<close>, which is not due.\<close>

definition sole :: "('io \<Rightarrow> 'v handler multiset) \<Rightarrow> nat \<Rightarrow> nat \<Rightarrow> ('io, 'v) coro_pool \<Rightarrow> bool" where
  "sole pending i c w \<longleftrightarrow> due_at pending w c = 0 \<and>
     (\<forall>j < length (doing w). j \<noteq> i \<longrightarrow> \<not> engaged c (doing w ! j) \<and> (doing w ! j = Calls \<longrightarrow> j \<noteq> c))"

lemma sole_Held: "at_phase pending bs w c (Held i) \<Longrightarrow> sole pending i c w"
  by (auto simp: at_phase_def sole_def)

lemma sole_client:
  "at_phase pending bs w c Fresh \<or> at_phase pending bs w c Fulfilled \<Longrightarrow> sole pending c c w"
  by (auto simp: at_phase_def sole_def)

lemma threads_work_update:
  assumes i: "i < length (doing w)" and w': "doing w' = (doing w)[i := x]"
    and fr: "frames w' = frames w \<or> sole pending i c w \<and> frames w' = (frames w)[c := f]"
  shows "threads_work w' + doing_work (frames w) i (doing w ! i) = threads_work w + doing_work (frames w') i x"
proof -
  have other: "doing_work (frames w') j (doing w' ! j) = doing_work (frames w) j (doing w ! j)"
    if "j \<in> {..<length (doing w)} - {i}" for j
    using fr that by (cases "doing w ! j") (auto simp: sole_def w')
  have "threads_work w' = doing_work (frames w') i x
      + (\<Sum>j \<in> {..<length (doing w)} - {i}. doing_work (frames w) j (doing w ! j))"
    using i other by (simp add: threads_work_def w' sum.remove [of _ i])
  then show ?thesis using i by (simp add: threads_work_def sum.remove [of _ i])
qed

lemma due_work_other:
  assumes "sole pending i c w" "frames w' = (frames w)[c := f]" "tasks (ready w') = tasks (ready w)"
    and "pool_io w' = pool_io w"
  shows "due_work pending w' = due_work pending w"
proof -
  have not: "Resumption c \<notin> set (tasks (ready w))" "Resume c \<notin># pending (pool_io w)"
    using assms(1) by (auto simp: sole_def due_at_def count_list_0_iff not_in_iff)
  have "task_work (frames w') t = task_work (frames w) t" if "t \<in> set (tasks (ready w))" for t
    using not(1) that assms(2) by (cases t) (auto, metis nth_list_update_neq)
  moreover have "handler_work (frames w') h = handler_work (frames w) h" if "h \<in># pending (pool_io w)" for h
    using not(2) that assms(2) by (cases h) (auto, metis nth_list_update_neq)
  ultimately have "map (task_work (frames w')) (tasks (ready w)) = map (task_work (frames w)) (tasks (ready w))"
    "image_mset (handler_work (frames w')) (pending (pool_io w))
      = image_mset (handler_work (frames w)) (pending (pool_io w))"
    by (auto intro: image_mset_cong)
  then show ?thesis by (simp only: due_work_def assms(3,4))
qed

lemma work_less:
  assumes "i < length (doing w)" "doing w' = (doing w)[i := x]" "sole pending i c w"
    and "frames w' = (frames w)[c := f]" "tasks (ready w') = tasks (ready w)" "pool_io w' = pool_io w"
    and "doing_work (frames w') i x < doing_work (frames w) i (doing w ! i)"
  shows "coro_pool_work pending w' < coro_pool_work pending w"
  using threads_work_update [OF assms(1,2), of pending c f] due_work_other [OF assms(3-6)] assms(3,4,7)
  by (simp add: coro_pool_work_def)

lemma work_less_same:
  assumes "i < length (doing w)" "doing w' = (doing w)[i := x]" "frames w' = frames w"
    and "doing_work (frames w) i x + due_work pending w'
      < doing_work (frames w) i (doing w ! i) + due_work pending w"
  shows "coro_pool_work pending w' < coro_pool_work pending w"
  using threads_work_update [OF assms(1,2), of pending 0 None] assms(3,4)
  by (simp add: coro_pool_work_def)

lemma frame_work_simps [simp]:
  "frame_work (Some (susp b)) = 8 * body_work b + 5" "frame_work None = 0"
  "frame_work (Some (coro_create b)) = 8 * body_work b + 5"
  by (simp_all add: frame_work_def coro_create_def)

lemma execute_work:
  assumes inv: "coro_pool_inv pending bs w" and i: "i < length (doing w)" "doing w ! i = Executing c b"
  shows "coro_pool_work pending (execute i c b w) < coro_pool_work pending w"
proof -
  have eng: "engaged c (doing w ! i)" using i by simp
  note ph = engaged_Held [OF inv i(1) eng]
  obtain b' where f: "frames w ! c = Some (susp b')"
    using ph(2) i(2) by (auto simp: at_phase_def)
  have on: "on_frame c g w = w\<lparr>frames := (frames w)[c := Some (g (susp b'))]\<rparr>" for g
    using f by (simp add: on_frame_def)
  have c: "c < length (frames w)" using ph(1) coro_pool_invD(2) [OF inv] by simp
  note less = work_less [OF i(1) _ sole_Held [OF ph(2)]]
  show ?thesis
  proof (cases b)
    case (Co_return v)
    then show ?thesis
      using i by (intro less [where x = "Signals c" and f = "Some (stored (Inr v))"])
        (auto simp: execute_def on moves_def)
  next
    case (Co_throw e)
    then show ?thesis
      using i by (intro less [where x = "Signals c" and f = "Some (stored (Inl e))"])
        (auto simp: execute_def on moves_def)
  next
    case (Co_schedule a h)
    then show ?thesis
      using i c by (intro less [where x = "Suspends c h" and f = "Some (susp a)"])
        (auto simp: execute_def on moves_def)
  next
    case (Co_delay aw a)
    then show ?thesis
      using i c by (intro less [where x = "Arming c aw" and f = "Some (susp a)"])
        (auto simp: execute_def on moves_def)
  qed
qed

lemma suspends_work:
  assumes i: "i < length (doing w)" "doing w ! i = Suspends c h"
    and step: "coro_thread_step st ro i w = Some w'"
  shows "coro_pool_work pending w' < coro_pool_work pending w"
proof (cases "shutdown_flag (ready w)")
  case True
  then have "w' = moves i (Executing c (h (Runtime_error shut_down_message))) w"
    using step i by (simp add: coro_thread_step_def push_def)
  then show ?thesis
    using i by (intro work_less_same [OF i(1)]) (auto simp: moves_def due_work_def)
next
  case False
  then have "w' = moves i Leaving (w\<lparr>ready := (ready w)\<lparr>tasks := tasks (ready w) @ [Resumption c]\<rparr>\<rparr>)"
    using step i by (simp add: coro_thread_step_def push_def)
  then show ?thesis
    using i by (intro work_less_same [OF i(1)]) (auto simp: moves_def due_work_def)
qed

lemma signals_work:
  assumes inv: "coro_pool_inv pending bs w" and i: "i < length (doing w)" "doing w ! i = Signals c"
    and step: "coro_thread_step st ro i w = Some w'"
  shows "coro_pool_work pending w' < coro_pool_work pending w"
proof -
  have eng: "engaged c (doing w ! i)" using i by simp
  note ph = engaged_Held [OF inv i(1) eng]
  obtain r where f: "frames w ! c = Some (stored r)"
    using ph(2) i(2) by (auto simp: at_phase_def)
  obtain f' where f': "final_await (stored r) = (Some (fulfilled r), f')"
    using final_await_stored [of r] by blast
  have "w' = moves i Leaving (w\<lparr>frames := (frames w)[c := Some f'],
      proms := (proms w)[c := Some (fulfilled r)]\<rparr>)"
    using step i f f' by (simp add: coro_thread_step_def signal_outcome_def)
  then show ?thesis
    using i by (intro work_less [OF i(1) _ sole_Held [OF ph(2)]]) (auto simp: moves_def)
qed

text \<open>Taking a resumption that is due, from the queue or from the library.\<close>

lemma resume_work:
  assumes inv: "coro_pool_inv pending bs w" and i: "i < length (doing w)" and due: "due_at pending w c \<noteq> 0"
    and w': "frames w' = frames w" "doing w' = doing w"
      "due_work pending w' + frame_work (frames w ! c) = due_work pending w"
  shows "coro_pool_work pending (resume_on i c w') < coro_pool_work pending w"
proof -
  obtain b where b: "frames w ! c = Some (susp b)"
    using due_Due(2) [OF inv due] by (auto simp: at_phase_def)
  have r: "resume_on i c w' = moves i (Executing c b) w'"
    using b w' by (simp add: resume_on_def)
  have "due_work pending (moves i x w') = due_work pending w'" for x
    by (simp add: due_work_def moves_def)
  then show ?thesis
    unfolding r by (intro work_less_same [OF i])
      (use b w' in \<open>auto simp: moves_def\<close>)
qed

lemma take_work_less:
  assumes inv: "coro_pool_inv pending bs w" and i: "i < length (doing w)" "doing w ! i = Resting"
    and step: "take_work i w = Some w'"
  shows "coro_pool_work pending w' < coro_pool_work pending w"
proof -
  obtain t rest where t: "tasks (ready w) = t # rest"
    using step by (auto simp: take_work_def begin_work_def try_pop_def split: list.splits)
  let ?q = "(ready w)\<lparr>tasks := rest\<rparr>"
  show ?thesis
  proof (cases t)
    case (Resumption c)
    then have "w' = resume_on i c (w\<lparr>ready := ?q\<rparr>)"
      using step t by (simp add: take_work_def begin_work_def try_pop_def)
    then show ?thesis
      using resume_work [OF inv i(1), of c "w\<lparr>ready := ?q\<rparr>"] t Resumption
      by (simp add: due_work_def due_at_def)
  next
    case Run_io
    then have "w' = moves i Polling (w\<lparr>ready := ?q, in_run := (in_run w)[i := True]\<rparr>)"
      using step t by (simp add: take_work_def begin_work_def try_pop_def)
    then show ?thesis
      using i t Run_io by (intro work_less_same [OF i(1)]) (auto simp: moves_def due_work_def)
  qed
qed

lemma taken_work:
  assumes io: "io_contract st po ro pending" and ro: "ro (pool_io w) = (Some (ec, h), io)"
  shows "due_work pending (w\<lparr>pool_io := io\<rparr>) + handler_work (frames w) h = due_work pending w"
proof -
  have "pending (pool_io w) = add_mset h (pending io)"
    using io_contractD(4,5) [OF io ro] by (simp add: insert_DiffM)
  then show ?thesis by (simp add: due_work_def)
qed

lemma poll_io_less:
  assumes io: "io_contract st po ro pending" and inv: "coro_pool_inv pending bs w"
    and i: "i < length (doing w)" "doing w ! i = Polling" and step: "poll_io ro i w = Some w'"
  shows "coro_pool_work pending w' < coro_pool_work pending w"
proof (cases "io_stopped w")
  case True
  then have "w' = moves i Resting (w\<lparr>in_run := (in_run w)[i := False]\<rparr>)"
    using step by (simp add: poll_io_def)
  then show ?thesis
    using i by (intro work_less_same [OF i(1)]) (auto simp: moves_def due_work_def)
next
  case False
  then obtain ec h s where ro: "ro (pool_io w) = (Some (ec, h), s)"
    using step by (auto simp: poll_io_def split: prod.splits option.splits)
  note less = taken_work [OF io ro]
  show ?thesis
  proof (cases h)
    case (Resume c)
    then have "w' = resume_on i c (w\<lparr>pool_io := s\<rparr>)"
      using step False ro by (simp add: poll_io_def)
    moreover have "due_at pending w c \<noteq> 0" using taken_due(1) [OF io ro Resume] by simp
    ultimately show ?thesis
      using resume_work [OF inv i(1), of c "w\<lparr>pool_io := s\<rparr>"] less Resume by simp
  qed (use step False ro less in \<open>auto simp: poll_io_def coro_pool_work_def threads_work_def\<close>)
qed

lemma call_work:
  assumes inv: "coro_pool_inv pending bs w" and i: "i < length (doing w)" "doing w ! i = Calls"
  shows "coro_pool_work pending (resume_on i i (on_frame i set_external_promise w)) < coro_pool_work pending w"
proof -
  have less: "i < length bs" using client_only [OF inv i(1)] i(2) by (simp add: worker_ok_def)
  note ph = client_phase(1) [OF inv less i(2)]
  then have f: "frames w ! i = Some (coro_create (bs ! i))" by (simp add: at_phase_def)
  have "resume_on i i (on_frame i set_external_promise w)
      = moves i (Executing i (bs ! i)) (w\<lparr>frames := (frames w)[i := Some (susp (bs ! i))]\<rparr>)"
    using f less coro_pool_invD(2) [OF inv] by (simp add: resume_on_def on_frame_def)
  then show ?thesis
    using i f ph by (intro work_less [OF i(1) _ sole_client]) (auto simp: moves_def)
qed

lemma returned_work:
  assumes inv: "coro_pool_inv pending bs w" and i: "i < length (doing w)" "doing w ! i = Returned_get r"
    and step: "coro_thread_step st ro i w = Some w'"
  shows "coro_pool_work pending w' < coro_pool_work pending w"
proof -
  have less: "i < length bs" using client_only [OF inv i(1)] i(2) by (simp add: worker_ok_def)
  have w': "w' = moves i (Destroyed r) (w\<lparr>frames := (frames w)[i := None]\<rparr>)"
    using step i by (simp add: coro_thread_step_def)
  show ?thesis
    using i client_phase(3) [OF inv less i(2)]
    by (intro work_less [OF i(1) _ sole_client]) (auto simp: w' moves_def)
qed

lemma thread_work:
  assumes io: "io_contract st po ro pending" and inv: "coro_pool_inv pending bs w"
    and step: "coro_thread_step st ro i w = Some w'"
  shows "coro_pool_work pending w' < coro_pool_work pending w"
proof -
  have i: "i < length (doing w)" using step by (simp add: coro_thread_step_def split: if_splits)
  note st = step [unfolded coro_thread_step_def, simplified i if_True]
  show ?thesis
  proof (cases "doing w ! i")
    case Resting
    then show ?thesis using st take_work_less [OF inv i Resting] by simp
  next
    case Polling
    then show ?thesis using st poll_io_less [OF io inv i Polling] by simp
  next
    case Calls
    then show ?thesis using st call_work [OF inv i Calls] by simp
  next
    case (Executing c b)
    then show ?thesis using st execute_work [OF inv i Executing] by simp
  next
    case (Arming c aw)
    then have "w' = moves i (In_async_wait c) (w\<lparr>pool_io := st (duration aw) (Resume c) (pool_io w)\<rparr>)"
      using st by (simp add: delay_await_def)
    then show ?thesis
      using i Arming by (intro work_less_same [OF i])
        (auto simp: moves_def due_work_def io_contractD(1) [OF io])
  next
    case (In_async_wait c)
    then have "w' = moves i Leaving w" using st by simp
    then show ?thesis
      using i In_async_wait by (intro work_less_same [OF i]) (auto simp: moves_def due_work_def)
  next
    case Leaving
    then have "w' = moves i
        (if i < length (frames w) then Getting else if in_run w ! i then Polling else Resting) w"
      using st by simp
    then show ?thesis
      using i Leaving by (intro work_less_same [OF i]) (auto simp: moves_def due_work_def)
  next
    case Getting
    then obtain r where "w' = moves i (Returned_get r) w"
      using st by auto
    then show ?thesis
      using i Getting by (intro work_less_same [OF i]) (auto simp: moves_def due_work_def)
  next
    case (Destroyed r)
    then show ?thesis using st by simp
  qed (use suspends_work [OF i _ step] signals_work [OF inv i _ step] returned_work [OF inv i _ step]
      in blast)+
qed

lemma thread_length: "coro_thread_step st ro i w = Some w' \<Longrightarrow> length (doing w') = length (doing w)"
  by (auto simp: coro_thread_step_def take_work_def begin_work_def poll_io_def execute_def moves_def resume_on_def
      on_frame_def signal_outcome_def split: if_splits doing.splits body.splits option.splits
      prod.splits bool.splits point.splits work.splits handler.splits)

lemma threads_run:
  assumes io: "io_contract st po ro pending" and "coro_pool_inv pending bs w" "runs_inv (length bs) m w"
    and "run_schedule (coro_thread_step st ro) ls w = Some w'"
  shows "coro_pool_inv pending bs w' \<and> runs_inv (length bs) m w' \<and> length (doing w') = length (doing w) \<and>
    length ls + coro_pool_work pending w' \<le> coro_pool_work pending w"
  using assms(2-)
proof (induction ls arbitrary: w)
  case (Cons i ls)
  then obtain u where u: "coro_thread_step st ro i w = Some u" "run_schedule (coro_thread_step st ro) ls u = Some w'"
    by (auto split: option.splits)
  show ?case
    using Cons.IH [OF inv_thread [OF io Cons.prems(1) u(1)] runs_inv_thread [OF Cons.prems(2) u(1)] u(2)]
      thread_work [OF io Cons.prems(1) u(1)] thread_length [OF u(1)]
    by simp
qed simp

section \<open>Abandoned timers\<close>

text \<open>Once the context is stopped, a coroutine whose timer is armed is never resumed.\<close>

lemma abandoned_step:
  assumes io: "io_contract st po ro pending"
    and w: "io_stopped w" "Resume c \<in># pending (pool_io w)" and step: "coro_pool_step st po ro w w'"
  shows "io_stopped w' \<and> Resume c \<in># pending (pool_io w')"
  using step w
proof (induction rule: coro_pool_step.induct)
  case (thread i w w')
  then show ?case
    by (auto simp: coro_thread_step_def take_work_def begin_work_def poll_io_def execute_def moves_def resume_on_def
      on_frame_def signal_outcome_def delay_await_def io_contractD(1) [OF io] split: if_splits doing.splits
      body.splits option.splits prod.splits bool.splits point.splits work.splits)
qed (auto simp: io_contractD(1,2) [OF io] io_contractD(3) [OF io])

section \<open>Properties\<close>

lemma coro_pool_reach:
  assumes "run_schedule (coro_thread_step st ro) ls (coro_pool_start bs n m i) = Some w"
    and "io_contract st po ro pending" and "pending i = {#}"
  shows "reach (coro_pool_init st po ro pending bs m) (coro_pool_step st po ro) (length ls) w"
  by (rule run_schedule_reach [OF _ _ assms(1)])
    (auto intro: coro_pool_init.intros coro_pool_step.intros assms(2) simp: assms(3))

text \<open>
  C13: Coroutines on the pool are never raced. With any number of coroutines, clients, workers and
  threads of the \<open>io_context\<close>, in every interleaving, with the pool shut down and the context
  stopped at any moment: no step touches a destroyed or a finished frame, at most one thread runs
  (or suspends, or completes) a coroutine at a time, a coroutine is due to be resumed at most once,
  from the pool's queue or by a timer, and only while no thread is engaged in it, and once its
  client has destroyed it no thread is engaged in it and no resumption is due.
\<close>

theorem coro_pool_exclusive:
  assumes "reach (coro_pool_init st po ro pending bs m) (coro_pool_step st po ro) k w"
  shows "\<not> misuse w \<and> (\<forall>c < length bs.
    (\<forall>i < length (doing w). \<forall>j < length (doing w).
       engaged c (doing w ! i) \<longrightarrow> engaged c (doing w ! j) \<longrightarrow> i = j) \<and>
    due_at pending w c \<le> 1 \<and>
    (due_at pending w c = 1 \<or> frames w ! c = None \<longrightarrow>
       (\<forall>i < length (doing w). \<not> engaged c (doing w ! i))) \<and>
    (frames w ! c = None \<longrightarrow> due_at pending w c = 0))"
proof -
  have inv: "coro_pool_inv pending bs w" using coros.reach_state [OF assms] by blast
  have one: "i = j" if "i < length (doing w)" "j < length (doing w)" "engaged c (doing w ! i)"
    "engaged c (doing w ! j)" for i j c
    using engaged_Held(2) [OF inv that(1,3)] that by (auto simp: at_phase_def)
  have "due_at pending w c \<le> 1 \<and>
    (due_at pending w c = 1 \<or> frames w ! c = None \<longrightarrow>
       (\<forall>i < length (doing w). \<not> engaged c (doing w ! i))) \<and>
    (frames w ! c = None \<longrightarrow> due_at pending w c = 0)" if c: "c < length bs" for c
  proof -
    obtain ph where ph: "at_phase pending bs w c ph" using coro_pool_invD(8) [OF inv c] by blast
    have held: "frames w ! c \<noteq> None" if "ph = Held i" for i
      using ph that by (cases "doing w ! i") (auto simp: at_phase_def)
    show ?thesis
      using ph held by (cases ph) (auto simp: at_phase_def)
  qed
  then show ?thesis using coro_pool_invD(1) [OF inv] one by blast
qed

text \<open>
  Every \<open>get()\<close> returns the outcome of its coroutine. From every reachable state the threads
  together make at most \<open>coro_pool_work\<close> steps. When none can move, and there are more workers than
  calls of \<open>io_context::run()\<close>, every client's \<open>get()\<close> has returned and the frame is destroyed,
  except for coroutines whose timer waits in a context that was stopped or that nothing runs. On a
  pool that was not shut down the outcome is the one the body has when every
  \<open>co_await pool.schedule()\<close> succeeds; otherwise it is the one it has when they fail from some hop on.
\<close>

theorem coro_pool_gets_return:
  assumes "reach (coro_pool_init st po ro pending bs m) (coro_pool_step st po ro) k w"
    and "io_waits ro pending" and "length bs + m < length (doing w)"
    and "run_schedule (coro_thread_step st ro) ls w = Some w'"
  shows "length ls \<le> coro_pool_work pending w \<and>
    ((\<forall>i. coro_thread_step st ro i w' = None) \<longrightarrow> (\<forall>c < length bs.
       (\<exists>r. doing w' ! c = Destroyed (fulfilled r) \<and> frames w' ! c = None \<and> r \<in> outcomes (bs ! c) \<and>
         (\<not> is_shutdown (ready w') \<longrightarrow> r = body_value True (bs ! c))) \<or>
       Resume c \<in># pending (pool_io w') \<and> (io_stopped w' \<or> m = 0)))"
proof -
  note run = threads_run [OF conjunct1 [OF coros.reach_state [OF assms(1)]]
      conjunct2 [OF coros.reach_state [OF assms(1)]] runs.reach_state [OF assms(1)] assms(4)]
  have "(\<exists>r. doing w' ! c = Destroyed (fulfilled r) \<and> frames w' ! c = None \<and> r \<in> outcomes (bs ! c) \<and>
         (\<not> is_shutdown (ready w') \<longrightarrow> r = body_value True (bs ! c))) \<or>
       Resume c \<in># pending (pool_io w') \<and> (io_stopped w' \<or> m = 0)"
    if "\<forall>i. coro_thread_step st ro i w' = None" "c < length bs" for c
    using stuck_returned [of pending bs w' m ro st c] run assms(2,3) that
    unfolding expected_def is_shutdown_def by auto
  then show ?thesis using run by auto
qed

text \<open>
  C14: A coroutine suspended in \<open>co_await asio.delay()\<close> when its context is stopped hangs for ever.
  Whatever the threads do from then on, its timer's handler is never run, nobody touches the
  coroutine, and the client inside \<open>get()\<close> never gets past its wait.
\<close>

theorem coro_delay_abandoned:
  assumes "reach (coro_pool_init st po ro pending bs m) (coro_pool_step st po ro) k w"
    and "io_stopped w" and "Resume c \<in># pending (pool_io w)"
    and "(coro_pool_step st po ro)\<^sup>*\<^sup>* w w'"
  shows "c < length bs \<and> Resume c \<in># pending (pool_io w') \<and> away (doing w' ! c) \<and>
    proms w' ! c = None \<and> (\<exists>b. frames w' ! c = Some (susp b)) \<and>
    (\<forall>i < length (doing w'). \<not> engaged c (doing w' ! i))"
proof -
  have io: "io_contract st po ro pending" using coros.reach_state [OF assms(1)] by blast
  have "io_stopped w' \<and> Resume c \<in># pending (pool_io w')"
    using assms(4,2,3) by (induction rule: rtranclp_induct) (use abandoned_step [OF io] in blast)+
  then have due: "due_at pending w' c \<noteq> 0" by (auto simp: due_at_def count_eq_zero_iff)
  obtain k' where "reach (coro_pool_init st po ro pending bs m) (coro_pool_step st po ro) k' w'"
    using reach_more_steps [OF assms(1,4)] by blast
  then have inv: "coro_pool_inv pending bs w'" using coros.reach_state by blast
  show ?thesis
    using due_Due [OF inv due] \<open>io_stopped w' \<and> _\<close> by (auto simp: at_phase_def)
qed

section \<open>Concrete runs\<close>

text \<open>
  Two coroutines, two workers, one of them in \<open>run()\<close>. The first coroutine hops to the pool and
  delays there; the timer fires, and the coroutine is resumed, completed and destroyed, while the
  worker that has armed the timer is still in the call that does so: the timer it works on is
  owned by the destroyed frame. The second delays and then finds the pool shut down.
\<close>

definition demo_bodies :: "nat body list" where
  "demo_bodies = [Co_schedule (Co_delay (milliseconds 5) (Co_return 1)) Co_throw,
     Co_delay (milliseconds 9) (Co_schedule (Co_return 2) (\<lambda>e. Co_return 3))]"

definition demo_run :: "nat list" where
  "demo_run = [2, 0, 0, 0, 0, 3, 3, 3, 1, 1, 1, 2, 2, 2, 0, 0]"

definition demo_rest :: "nat list" where
  "demo_rest = [1, 1, 3, 3, 2, 2, 2, 2, 2, 2, 2, 1, 1]"

abbreviation fifo_step ::
    "nat \<Rightarrow> (nat handler list, nat) coro_pool \<Rightarrow> (nat handler list, nat) coro_pool option" where
  "fifo_step \<equiv> coro_thread_step fifo_timer fifo_run"

lemmas demo_run_eval = coro_pool_start_def demo_bodies_def coro_thread_step_def tq_defs take_work_def begin_work_def
  poll_io_def execute_def resume_on_def on_frame_def moves_def store_outcome_def signal_outcome_def
  final_await_def coro_create_def set_external_promise_def return_value_def unhandled_exception_def
  delay_await_def fifo_timer_def fifo_run_def

lemma demo_run_ends:
  "\<exists>w. run_schedule fifo_step demo_run (coro_pool_start demo_bodies 2 1 []) = Some w \<and>
     doing w = [Destroyed (Inr (Holds 1)), In_async_wait 1, Leaving, In_async_wait 0] \<and>
     frames w ! 0 = None \<and> pool_io w = [Resume 1] \<and> tasks (ready w) = [] \<and>
     (\<exists>w'. run_schedule fifo_step demo_rest (w\<lparr>ready := shutdown (ready w)\<rparr>) = Some w' \<and>
       doing w' = [Destroyed (Inr (Holds 1)), Destroyed (Inr (Holds 3)), Polling, Resting] \<and>
       tasks (ready w') = [] \<and> pool_io w' = [] \<and> \<not> io_stopped w')"
  by (simp add: demo_run_def demo_rest_def demo_run_eval numeral_2_eq_2)

abbreviation demo_reach :: "nat \<Rightarrow> (nat handler list, nat) coro_pool \<Rightarrow> bool" where
  "demo_reach \<equiv> reach (coro_pool_init fifo_timer fifo_post fifo_run mset demo_bodies 1)
     (coro_pool_step fifo_timer fifo_post fifo_run)"

lemma demo_reach_run:
  "run_schedule fifo_step ls (coro_pool_start demo_bodies 2 1 []) = Some w \<Longrightarrow> demo_reach (length ls) w"
  by (rule coro_pool_reach [OF _ fifo_contract]) simp_all

theorem coro_pool_exclusive_witness:
  "\<exists>w k. demo_reach k w \<and> \<not> misuse w \<and>
     frames w ! 0 = None \<and> due_at mset w 0 = 0 \<and> due_at mset w 1 = 1 \<and>
     (\<forall>i < length (doing w). \<not> engaged 1 (doing w ! i))"
proof -
  obtain w where run: "run_schedule fifo_step demo_run (coro_pool_start demo_bodies 2 1 []) = Some w"
    and w: "tasks (ready w) = []" "frames w ! 0 = None" "pool_io w = [Resume 1]"
    using demo_run_ends by blast
  have len: "0 < length demo_bodies" "1 < length demo_bodies" by (simp_all add: demo_bodies_def)
  have due: "due_at mset w 1 = 1" by (simp add: due_at_def w)
  note r = demo_reach_run [OF run]
  note safe = coro_pool_exclusive [OF r]
  have "due_at mset w 0 = 0" "\<not> misuse w" "\<forall>i < length (doing w). \<not> engaged 1 (doing w ! i)"
    using safe len w(2) due by simp_all
  then show ?thesis using r w(2) due by auto
qed

theorem coro_pool_gets_return_witness:
  "\<exists>w k w'. demo_reach k w \<and>
     length demo_rest \<le> coro_pool_work mset w \<and> run_schedule fifo_step demo_rest w = Some w' \<and>
     (\<forall>i. fifo_step i w' = None) \<and> is_shutdown (ready w) \<and>
     doing w' ! 1 = Destroyed (Inr (Holds 3)) \<and> Inr 3 \<in> outcomes (demo_bodies ! 1)"
proof -
  obtain w0 w' where run: "run_schedule fifo_step demo_run (coro_pool_start demo_bodies 2 1 []) = Some w0"
    and w0: "doing w0 = [Destroyed (Inr (Holds 1)), In_async_wait 1, Leaving, In_async_wait 0]"
    and run': "run_schedule fifo_step demo_rest (w0\<lparr>ready := shutdown (ready w0)\<rparr>) = Some w'"
    and w': "doing w' = [Destroyed (Inr (Holds 1)), Destroyed (Inr (Holds 3)), Polling, Resting]"
      "tasks (ready w') = []" "pool_io w' = []" "\<not> io_stopped w'"
    using demo_run_ends by blast
  let ?w = "w0\<lparr>ready := shutdown (ready w0)\<rparr>"
  note r = reach.more [OF demo_reach_run [OF run] coro_pool_step.close]
  have len: "length demo_bodies + 1 < length (doing ?w)" "1 < length demo_bodies"
    by (simp_all add: w0 demo_bodies_def)
  note returns = coro_pool_gets_return [OF r fifo_waits len(1) run']
  have closed: "is_shutdown (ready ?w)" by (simp add: tq_defs)
  have stuck: "\<forall>i. fifo_step i w' = None"
    using w' by (auto simp: coro_thread_step_def take_work_def begin_work_def poll_io_def try_pop_def
        fifo_run_def less_Suc_eq)
  have le: "length demo_rest \<le> coro_pool_work mset ?w" using returns by blast
  have d: "doing w' ! 1 = Destroyed (Inr (Holds 3))" using w'(1) by simp
  obtain r where "doing w' ! 1 = Destroyed (fulfilled r)" "r \<in> outcomes (demo_bodies ! 1)"
    using returns stuck len(2) w'(4) by auto
  then have "Inr 3 \<in> outcomes (demo_bodies ! 1)"
    using d by (cases r) (auto simp: fulfilled_def)
  then show ?thesis using r le run' stuck closed d by blast
qed

theorem coro_delay_abandoned_witness:
  "\<exists>w k. demo_reach k w \<and>
     (\<exists>w'. coro_pool_step fifo_timer fifo_post fifo_run w w' \<and> away (doing w' ! 1) \<and>
       proms w' ! 1 = None \<and> Resume 1 \<in># mset (pool_io w'))"
proof -
  obtain w0 where run: "run_schedule fifo_step demo_run (coro_pool_start demo_bodies 2 1 []) = Some w0"
    and w0: "doing w0 = [Destroyed (Inr (Holds 1)), In_async_wait 1, Leaving, In_async_wait 0]"
      "pool_io w0 = [Resume 1]"
    using demo_run_ends by blast
  let ?w = "w0\<lparr>io_stopped := True\<rparr>"
  note r = reach.more [OF demo_reach_run [OF run] coro_pool_step.stop]
  have "coro_thread_step fifo_timer fifo_run 1 ?w = Some (moves 1 Leaving ?w)"
    by (simp add: coro_thread_step_def w0)
  then have step: "coro_pool_step fifo_timer fifo_post fifo_run ?w (moves 1 Leaving ?w)"
    by (rule coro_pool_step.thread)
  have "away (doing (moves 1 Leaving ?w) ! 1) \<and> proms (moves 1 Leaving ?w) ! 1 = None \<and>
      Resume 1 \<in># mset (pool_io (moves 1 Leaving ?w))"
    using coro_delay_abandoned [OF r, of 1 "moves 1 Leaving ?w"]
      r_into_rtranclp [of "coro_pool_step fifo_timer fifo_post fifo_run", OF step] w0(2) by simp
  then show ?thesis using r step by blast
qed

end
