(* ===== verification/Coro_Engine.thy ===== *)
theory Coro_Engine
  imports Coro_Progress Async_Result
begin

text \<open>
  Coroutines on the real thread pool: the system of \<open>Coro_Pool\<close>, whose workers simply take what is
  queued, put on top of the workers of \<open>Thread_Pool\<close>, which sleep, are notified, obey stop tokens,
  drain the queue and exit (\<open>include/ate/coro_task.hpp\<close>, \<open>include/ate/thread_pool.hpp\<close>,
  \<open>src/thread_pool.cpp\<close>). The only queue is the pool's. A task of the pool is a plain one, a user
  callable or the continuation of a \<open>then()\<close>, or it resumes a coroutine or calls
  \<open>io_context::run()\<close>; then its worker runs it step by step, and it is finished when the call
  returns. Both systems are images of this one, so what was shown of either holds.
\<close>

section \<open>The combined state\<close>

text \<open>
  \<open>payload\<close> gives for every task of the pool what it calls, \<open>None\<close> for a plain task. The pool knows
  a task \<open>t\<close> with a payload as one that blocks until event \<open>t\<close>, its return. The queue inside \<open>core\<close> is
  not used.
\<close>

record ('io, 'v) engine =
  core :: "('io, 'v) coro_pool"
  tp :: "'v pool"
  payload :: "work option list"

text \<open>The coroutines' queue is the pool's, read through \<open>payload\<close>; plain tasks do not show.\<close>

definition queue_view :: "('io, 'v) engine \<Rightarrow> work task_queue" where
  "queue_view e = \<lparr>tasks = List.map_filter ((!) (payload e)) (tasks (pool_queue (tp e))),
     shutdown_flag = shutdown_flag (pool_queue (tp e))\<rparr>"

definition view :: "('io, 'v) engine \<Rightarrow> ('io, 'v) coro_pool" where
  "view e = (core e)\<lparr>ready := queue_view e\<rparr>"

text \<open>\<open>pool->submit(...)\<close>. \<open>u\<close> is the value of a \<open>void\<close> future.\<close>

definition post_work :: "'v \<Rightarrow> work \<Rightarrow> ('io, 'v) engine \<Rightarrow> ('io, 'v) engine outcome" where
  "post_work u t e =
     and_then (submit (Until (length (jobs (tp e))) (Inr u)) (tp e))
       (\<lambda>(f, p). Inr (e\<lparr>tp := p, payload := payload e @ [Some t]\<rparr>))"

text \<open>
  A step of thread \<open>i\<close>, a client or a worker inside a task: as in \<open>coro_thread_step\<close>, but
  \<open>PoolScheduler::await_suspend\<close> submits to the pool.
\<close>

definition engine_thread :: "(int \<Rightarrow> 'v handler \<Rightarrow> 'io \<Rightarrow> 'io)
    \<Rightarrow> ('io \<Rightarrow> (string option \<times> 'v handler) option \<times> 'io) \<Rightarrow> 'v
    \<Rightarrow> nat \<Rightarrow> ('io, 'v) engine \<Rightarrow> ('io, 'v) engine option" where
  "engine_thread st ro u i e =
     (if i < length (doing (core e)) then case doing (core e) ! i of
        Suspends c on_throw \<Rightarrow> Some (case post_work u (Resumption c) e of
            Inr e' \<Rightarrow> e'\<lparr>core := moves i Leaving (core e)\<rparr>
          | Inl ex \<Rightarrow> e\<lparr>core := moves i (Executing c (on_throw ex)) (core e)\<rparr>)
      | _ \<Rightarrow> map_option (\<lambda>w. e\<lparr>core := w\<rparr>) (coro_thread_step st ro i (view e))
      else None)"

fun task_of :: "worker \<Rightarrow> nat option" where
  "task_of (Run_main t) = Some t"
| "task_of (Run_drain t) = Some t"
| "task_of w = None"

text \<open>The task with a payload that a worker is inside.\<close>

definition call_of :: "work option list \<Rightarrow> worker \<Rightarrow> nat option" where
  "call_of ps w =
     (case task_of w of None \<Rightarrow> None | Some t \<Rightarrow> (case ps ! t of None \<Rightarrow> None | Some k \<Rightarrow> Some t))"

text \<open>
  A step of worker \<open>j\<close> of the pool. Inside a task with a payload it executes what the task calls, and
  when that returns the packaged task is done; otherwise it is in its loop or runs a plain task, and
  when it takes a task with a payload it begins with the call.
\<close>

definition engine_worker :: "(int \<Rightarrow> 'v handler \<Rightarrow> 'io \<Rightarrow> 'io)
    \<Rightarrow> ('io \<Rightarrow> (string option \<times> 'v handler) option \<times> 'io) \<Rightarrow> 'v
    \<Rightarrow> nat \<Rightarrow> ('io, 'v) engine \<Rightarrow> ('io, 'v) engine option" where
  "engine_worker st ro u j e =
     (let i = length (frames (core e)) + j in
      if j < length (workers (tp e)) then case call_of (payload e) (workers (tp e) ! j) of
        Some t \<Rightarrow> (case engine_thread st ro u i e of
            None \<Rightarrow> None
          | Some e' \<Rightarrow>
              (case doing (core e') ! i of
                Resting \<Rightarrow> map_option (\<lambda>p. e'\<lparr>tp := p\<rparr>) (worker_step j (signal t (tp e')))
              | _ \<Rightarrow> Some e'))
      | None \<Rightarrow> map_option (\<lambda>p. case call_of (payload e) (workers p ! j) of
            None \<Rightarrow> e\<lparr>tp := p\<rparr>
          | Some t \<Rightarrow> e\<lparr>tp := p, core := begin_work i (the (payload e ! t)) (core e)\<rparr>)
          (worker_step j (tp e))
      else None)"

lemma engine_worker_eq:
  "engine_worker st ro u j e =
     (let i = length (frames (core e)) + j in
      if j < length (workers (tp e)) then case call_of (payload e) (workers (tp e) ! j) of
        Some t \<Rightarrow> (case engine_thread st ro u i e of
            None \<Rightarrow> None
          | Some e' \<Rightarrow>
              if doing (core e') ! i = Resting
              then map_option (\<lambda>p. e'\<lparr>tp := p\<rparr>) (worker_step j (signal t (tp e')))
              else Some e')
      | None \<Rightarrow> map_option (\<lambda>p. case call_of (payload e) (workers p ! j) of
            None \<Rightarrow> e\<lparr>tp := p\<rparr>
          | Some t \<Rightarrow> e\<lparr>tp := p, core := begin_work i (the (payload e ! t)) (core e)\<rparr>)
          (worker_step j (tp e))
      else None)"
  by (simp add: engine_worker_def Let_def split: option.split doing.split)

text \<open>
  A plain task calls a function, or waits for the future of another plain task. No user has the
  other futures: \<open>await_suspend\<close> drops that of a resumption, and an \<open>AsioContext\<close> keeps those of its
  \<open>run()\<close> calls to itself.
\<close>

fun plain :: "work option list \<Rightarrow> 'v job \<Rightarrow> bool" where
  "plain ps (Call r) \<longleftrightarrow> True"
| "plain ps (Continue f cont) \<longleftrightarrow> f < length ps \<and> ps ! f = None"
| "plain ps (Until n r) \<longleftrightarrow> False"

text \<open>
  The threads, submissions of plain tasks, the notifications of the pool, its shutdown, and the
  surroundings of the \<open>io_context\<close> as in \<open>coro_pool_step\<close>.
\<close>

inductive engine_step :: "(int \<Rightarrow> 'v handler \<Rightarrow> 'io \<Rightarrow> 'io) \<Rightarrow> ('v handler \<Rightarrow> 'io \<Rightarrow> 'io)
    \<Rightarrow> ('io \<Rightarrow> (string option \<times> 'v handler) option \<times> 'io) \<Rightarrow> 'v
    \<Rightarrow> ('io, 'v) engine \<Rightarrow> ('io, 'v) engine \<Rightarrow> bool" for st po ro u where
  client: "c < length (frames (core e)) \<Longrightarrow> engine_thread st ro u c e = Some e'
    \<Longrightarrow> engine_step st po ro u e e'"
| worker: "engine_worker st ro u j e = Some e' \<Longrightarrow> engine_step st po ro u e e'"
| submit: "plain (payload e) job \<Longrightarrow> submit job (tp e) = Inr (f, p)
    \<Longrightarrow> engine_step st po ro u e (e\<lparr>tp := p, payload := payload e @ [None]\<rparr>)"
| notify: "notify_one j (tp e) = Some p \<Longrightarrow> engine_step st po ro u e (e\<lparr>tp := p\<rparr>)"
| spurious: "spurious_wakeup j (tp e) = Some p \<Longrightarrow> engine_step st po ro u e (e\<lparr>tp := p\<rparr>)"
| shutdown_begin: "shutdown_begin (tp e) = Some p \<Longrightarrow> engine_step st po ro u e (e\<lparr>tp := p\<rparr>)"
| shutdown_continue: "shutdown_continue (tp e) = Some p \<Longrightarrow> engine_step st po ro u e (e\<lparr>tp := p\<rparr>)"
| stop: "engine_step st po ro u e (e\<lparr>core := (core e)\<lparr>io_stopped := True\<rparr>\<rparr>)"
| timer: "(\<And>c. h \<noteq> Resume c)
    \<Longrightarrow> engine_step st po ro u e (e\<lparr>core := (core e)\<lparr>pool_io := st d h (pool_io (core e))\<rparr>\<rparr>)"
| post: "(\<And>c. h \<noteq> Resume c)
    \<Longrightarrow> engine_step st po ro u e (e\<lparr>core := (core e)\<lparr>pool_io := po h (pool_io (core e))\<rparr>\<rparr>)"
| wait: "ro (pool_io (core e)) = (None, io) \<Longrightarrow> engine_step st po ro u e (e\<lparr>core := (core e)\<lparr>pool_io := io\<rparr>\<rparr>)"

text \<open>The start: the pool has been constructed, and the \<open>AsioContext\<close> submits its calls of \<open>run()\<close>.\<close>

primrec start_runs :: "nat \<Rightarrow> 'v \<Rightarrow> ('io, 'v) engine \<Rightarrow> ('io, 'v) engine outcome" where
  "start_runs 0 u e = Inr e"
| "start_runs (Suc m) u e = and_then (post_work u Run_io e) (start_runs m u)"

definition engine_start :: "'v body list \<Rightarrow> nat \<Rightarrow> nat \<Rightarrow> 'io \<Rightarrow> ('io, 'v) engine" where
  "engine_start bs n hw i =
     (let p = ThreadPool n hw in
      \<lparr>core = coro_pool_start bs (length (workers p)) 0 i, tp = p, payload = []\<rparr>)"

inductive engine_init :: "(int \<Rightarrow> 'v handler \<Rightarrow> 'io \<Rightarrow> 'io) \<Rightarrow> ('v handler \<Rightarrow> 'io \<Rightarrow> 'io)
    \<Rightarrow> ('io \<Rightarrow> (string option \<times> 'v handler) option \<times> 'io) \<Rightarrow> ('io \<Rightarrow> 'v handler multiset)
    \<Rightarrow> 'v body list \<Rightarrow> nat \<Rightarrow> 'v \<Rightarrow> ('io, 'v) engine \<Rightarrow> bool" for st po ro pending bs m u where
  "io_contract st po ro pending \<Longrightarrow> (\<And>c. Resume c \<notin># pending i)
     \<Longrightarrow> start_runs m u (engine_start bs n hw i) = Inr e \<Longrightarrow> engine_init st po ro pending bs m u e"

section \<open>How the two systems fit together\<close>

text \<open>
  Every task of the pool has its payload, thread \<open>length (frames w) + j\<close> is worker \<open>j\<close>, and it is
  in a call exactly while the worker is in a task with a payload.
\<close>

definition job_fits :: "'v \<Rightarrow> work option list \<Rightarrow> nat \<Rightarrow> 'v job \<Rightarrow> bool" where
  "job_fits u ps t job \<longleftrightarrow> (if ps ! t = None then plain ps job else job = Until t (Inr u))"

definition linked :: "'v \<Rightarrow> ('io, 'v) engine \<Rightarrow> bool" where
  "linked u e \<longleftrightarrow> length (payload e) = length (jobs (tp e)) \<and>
     (\<forall>t < length (jobs (tp e)). job_fits u (payload e) t (jobs (tp e) ! t)) \<and>
     length (doing (core e)) = length (frames (core e)) + length (workers (tp e)) \<and>
     (\<forall>j < length (workers (tp e)). call_of (payload e) (workers (tp e) ! j) = None \<longleftrightarrow>
        doing (core e) ! (length (frames (core e)) + j) = Resting)"

lemma executing_task_of: "executing w t \<longleftrightarrow> task_of w = Some t"
  by (cases w) auto

lemma task_of_wake [simp]: "task_of (wake w) = task_of w"
  by (cases w) (auto simp: wake_def)

lemma call_of_Some: "call_of ps w = Some t \<longleftrightarrow> task_of w = Some t \<and> ps ! t \<noteq> None"
  by (auto simp: call_of_def split: option.splits)

lemma call_of_no_task: "task_of w = None \<Longrightarrow> call_of ps w = None"
  by (simp add: call_of_def)

lemma plain_append: "plain ps job \<Longrightarrow> plain (ps @ [x]) job"
  by (cases job) (auto simp: nth_append)

lemma job_fits_append: "t < length ps \<Longrightarrow> job_fits u ps t job \<Longrightarrow> job_fits u (ps @ [x]) t job"
  by (auto simp: job_fits_def nth_append intro: plain_append split: if_splits)

lemma map_filter_snoc:
  "List.map_filter f (xs @ [x]) =
     List.map_filter f xs @ (case f x of None \<Rightarrow> [] | Some y \<Rightarrow> [y])"
  by (auto simp: map_filter_def split: option.split)

lemma map_filter_cong: "(\<And>x. x \<in> set xs \<Longrightarrow> f x = g x) \<Longrightarrow> List.map_filter f xs = List.map_filter g xs"
  by (simp add: map_filter_def cong: map_cong filter_cong)

text \<open>A thread changes nobody's control point but its own.\<close>

definition moves_only :: "nat \<Rightarrow> ('io, 'v) coro_pool \<Rightarrow> ('io, 'v) coro_pool \<Rightarrow> bool" where
  "moves_only i w w' \<longleftrightarrow>
     length (frames w') = length (frames w) \<and> (\<exists>x. doing w' = (doing w)[i := x])"

lemma moves_only_resume:
  assumes "doing v = doing w" "length (frames v) = length (frames w)"
  shows "moves_only i w (resume_on i c v)"
proof -
  have "\<exists>x. doing w = (doing w)[i := x]" by (metis list_update_id)
  then show ?thesis
    using assms by (auto simp: moves_only_def resume_on_def moves_def split: option.splits point.splits)
qed

lemma moves_only_begin: "moves_only i w (begin_work i t w)"
  by (cases t) (auto simp: begin_work_def moves_def intro: moves_only_resume, auto simp: moves_only_def)

lemma moves_only_thread:
  assumes "coro_thread_step st ro i w = Some w'"
  shows "moves_only i w w'"
proof -
  have same: "length (frames (on_frame c g w)) = length (frames w)"
    "length (frames (signal_outcome c w)) = length (frames w)" for c g
    by (auto simp: on_frame_def signal_outcome_def split: option.splits prod.splits)
  have stay: "moves_only i w (w\<lparr>pool_io := io\<rparr>)" for io
    by (auto simp: moves_only_def) (metis list_update_id)
  have move: "length (frames v) = length (frames w) \<Longrightarrow> doing v = doing w \<Longrightarrow> moves_only i w (moves i x v)"
    for x v by (auto simp: moves_only_def moves_def)
  have i: "i < length (doing w)" using assms by (simp add: coro_thread_step_def split: if_splits)
  note st = assms [unfolded coro_thread_step_def, simplified i if_True]
  show ?thesis
  proof (cases "doing w ! i")
    case Resting
    then show ?thesis
      using st by (auto simp: take_work_def begin_work_def moves_only_resume move
          split: prod.splits option.splits work.splits)
  next
    case Polling
    then show ?thesis
      using st by (auto simp: poll_io_def moves_only_resume move stay
          split: if_splits prod.splits option.splits handler.splits)
  next
    case Calls
    then show ?thesis using st by (auto simp: same intro: moves_only_resume)
  next
    case (Executing c b)
    then show ?thesis using st same by (cases b) (auto simp: execute_def intro: move)
  qed (use st same in \<open>auto intro!: move split: bool.splits prod.splits\<close>)
qed

lemma begin_work_ready: "begin_work i t (w\<lparr>ready := q\<rparr>) = (begin_work i t w)\<lparr>ready := q\<rparr>"
  by (auto simp: begin_work_def resume_on_def moves_def split: work.splits option.splits point.splits)

lemma thread_ready:
  assumes "coro_thread_step st ro i w = Some w'" "doing w ! i \<noteq> Resting"
    and "\<And>c h. doing w ! i \<noteq> Suspends c h"
  shows "ready w' = ready w"
  using assms
  by (auto simp: coro_thread_step_def poll_io_def execute_def resume_on_def on_frame_def
      signal_outcome_def moves_def split: if_splits doing.splits body.splits option.splits
      prod.splits point.splits handler.splits)

lemma view_simps [simp]:
  "frames (view e) = frames (core e)" "proms (view e) = proms (core e)" "doing (view e) = doing (core e)"
  "in_run (view e) = in_run (core e)" "pool_io (view e) = pool_io (core e)"
  "io_stopped (view e) = io_stopped (core e)" "misuse (view e) = misuse (core e)"
  "ready (view e) = queue_view e" "queue_view (e\<lparr>core := w\<rparr>) = queue_view e" "view (e\<lparr>core := w\<rparr>) = w\<lparr>ready := queue_view e\<rparr>"
  by (simp_all add: view_def queue_view_def)

lemma queue_view_same:
  "pool_queue (tp e') = pool_queue (tp e) \<Longrightarrow> payload e' = payload e \<Longrightarrow> queue_view e' = queue_view e"
  by (simp add: queue_view_def)

lemma books_tasks_lt:
  assumes "pool_books p" "t \<in> set (tasks (pool_queue p))"
  shows "t < length (jobs p)"
proof -
  have "t \<in> set [0..<length (jobs p)]"
    using pool_booksD(2) [OF assms(1)] assms(2) by (metis Un_iff set_append)
  then show ?thesis by simp
qed

lemma books_running_lt:
  assumes "pool_books p" "j < length (workers p)" "task_of (workers p ! j) = Some t"
  shows "t < length (jobs p)"
  using pool_booksD(6) [OF assms(1,2)] assms(3) pool_books_started_upt(2,4) [OF assms(1)]
  by (fastforce simp: executing_task_of)

lemma linkedD:
  assumes "linked u e"
  shows "length (payload e) = length (jobs (tp e))"
    and "\<And>t. t < length (jobs (tp e)) \<Longrightarrow> job_fits u (payload e) t (jobs (tp e) ! t)"
    and "length (doing (core e)) = length (frames (core e)) + length (workers (tp e))"
    and "\<And>j. j < length (workers (tp e)) \<Longrightarrow> call_of (payload e) (workers (tp e) ! j) = None \<longleftrightarrow>
        doing (core e) ! (length (frames (core e)) + j) = Resting"
  using assms unfolding linked_def by blast+

text \<open>A task more, with or without a payload.\<close>

lemma linked_append:
  assumes link: "linked u e" and books: "pool_books (tp e)"
    and f: "core f = core e" "payload f = payload e @ [x]" "jobs (tp f) = jobs (tp e) @ [job]"
      "workers (tp f) = workers (tp e)"
    and fits: "job_fits u (payload f) (length (jobs (tp e))) job"
  shows "linked u f"
    and "\<And>t. t < length (jobs (tp e)) \<Longrightarrow> payload f ! t = payload e ! t"
    and "\<And>t. t < length (jobs (tp f)) \<Longrightarrow> job_fits u (payload f) t (jobs (tp f) ! t)"
proof -
  note L = linkedD [OF link]
  show old: "payload f ! t = payload e ! t" if "t < length (jobs (tp e))" for t
    using that L(1) f(2) by (simp add: nth_append)
  show fit: "job_fits u (payload f) t (jobs (tp f) ! t)" if "t < length (jobs (tp f))" for t
    using that L(1,2) f(2,3) fits job_fits_append [of t "payload e" u]
    by (cases "t = length (jobs (tp e))") (simp_all add: nth_append)
  have "call_of (payload f) (workers (tp e) ! k) = call_of (payload e) (workers (tp e) ! k)"
    if "k < length (workers (tp e))" for k
    using old books_running_lt [OF books that] by (auto simp: call_of_def split: option.split)
  then show "linked u f" using fit L(1,3,4) f unfolding linked_def by simp
qed

text \<open>A submission on the pool is a push on the queue the coroutines see.\<close>

lemma post_work_push:
  assumes books: "pool_books (tp e)" and link: "length (payload e) = length (jobs (tp e))"
  shows "post_work u t e = Inr e' \<Longrightarrow> core e' = core e \<and> push t (queue_view e) = (True, queue_view e') \<and>
      submit (Until (length (jobs (tp e))) (Inr u)) (tp e) = Inr (length (jobs (tp e)), tp e') \<and>
      payload e' = payload e @ [Some t] \<and> jobs (tp e') = jobs (tp e) @ [Until (length (jobs (tp e))) (Inr u)] \<and>
      workers (tp e') = workers (tp e) \<and> stopper (tp e') = stopper (tp e) \<and>
      pool_weight (tp e') = pool_weight (tp e) + 7 \<and>
      job_fits u (payload e') (length (jobs (tp e))) (Until (length (jobs (tp e))) (Inr u))"
    and "post_work u t e = Inl ex \<Longrightarrow>
      ex = Runtime_error shut_down_message \<and> push t (queue_view e) = (False, queue_view e)"
proof -
  have lt: "s < length (payload e)" if "s \<in> set (tasks (pool_queue (tp e)))" for s
    using books_tasks_lt [OF books that] link by simp
  then have "List.map_filter ((!) (payload e @ [Some t])) (tasks (pool_queue (tp e)))
      = List.map_filter ((!) (payload e)) (tasks (pool_queue (tp e)))"
    by (intro map_filter_cong) (simp add: nth_append)
  moreover have "(payload e @ [Some t]) ! length (jobs (tp e)) = Some t"
    using link by (metis nth_append_length)
  ultimately show "post_work u t e = Inr e' \<Longrightarrow> core e' = core e \<and> push t (queue_view e) = (True, queue_view e') \<and>
      submit (Until (length (jobs (tp e))) (Inr u)) (tp e) = Inr (length (jobs (tp e)), tp e') \<and>
      payload e' = payload e @ [Some t] \<and> jobs (tp e') = jobs (tp e) @ [Until (length (jobs (tp e))) (Inr u)] \<and>
      workers (tp e') = workers (tp e) \<and> stopper (tp e') = stopper (tp e) \<and>
      pool_weight (tp e') = pool_weight (tp e) + 7 \<and>
      job_fits u (payload e') (length (jobs (tp e))) (Until (length (jobs (tp e))) (Inr u))"
    by (cases "shutdown_flag (pool_queue (tp e))")
      (auto simp: post_work_def submit_def push_def queue_view_def pool_weight_def map_filter_snoc job_fits_def)
  show "post_work u t e = Inl ex \<Longrightarrow>
      ex = Runtime_error shut_down_message \<and> push t (queue_view e) = (False, queue_view e)"
    by (cases "shutdown_flag (pool_queue (tp e))")
      (auto simp: post_work_def submit_def push_def queue_view_def)
qed

text \<open>What a step of a thread does to the two images.\<close>

lemma engine_thread_step:
  assumes books: "pool_books (tp e)" and link: "linked u e"
    and busy: "doing (core e) ! i \<noteq> Resting" and step: "engine_thread st ro u i e = Some e'"
  shows "coro_thread_step st ro i (view e) = Some (view e')" "pool_step\<^sup>*\<^sup>* (tp e) (tp e')"
    and "moves_only i (core e) (core e')" "workers (tp e') = workers (tp e)"
    and "stopper (tp e') = stopper (tp e)" "pool_weight (tp e') \<le> pool_weight (tp e) + 7"
    and "length (payload e') = length (jobs (tp e'))"
    and "\<And>t. t < length (jobs (tp e')) \<Longrightarrow> job_fits u (payload e') t (jobs (tp e') ! t)"
    and "\<And>t. t < length (jobs (tp e)) \<Longrightarrow> payload e' ! t = payload e ! t"
proof -
  have i: "i < length (doing (core e))" using step by (simp add: engine_thread_def split: if_splits)
  note L = linkedD [OF link]
  have "coro_thread_step st ro i (view e) = Some (view e') \<and> pool_step\<^sup>*\<^sup>* (tp e) (tp e') \<and>
    moves_only i (core e) (core e') \<and> workers (tp e') = workers (tp e) \<and>
    stopper (tp e') = stopper (tp e) \<and> pool_weight (tp e') \<le> pool_weight (tp e) + 7 \<and>
    length (payload e') = length (jobs (tp e')) \<and>
    (\<forall>t < length (jobs (tp e')). job_fits u (payload e') t (jobs (tp e') ! t)) \<and>
    (\<forall>t < length (jobs (tp e)). payload e' ! t = payload e ! t)"
  proof (cases "\<exists>c h. doing (core e) ! i = Suspends c h")
    case True
    then obtain c h where d: "doing (core e) ! i = Suspends c h" by blast
    show ?thesis
    proof (cases "post_work u (Resumption c) e")
      case (Inl ex)
      then have e': "e' = e\<lparr>core := moves i (Executing c (h ex)) (core e)\<rparr>"
        using step i d by (simp add: engine_thread_def)
      show ?thesis
        using post_work_push(2) [OF books L(1) Inl] i d L(1,2)
        by (auto simp: e' coro_thread_step_def moves_def view_def moves_only_def)
    next
      case (Inr f)
      note P = post_work_push(1) [OF books L(1) Inr]
      have e': "e' = f\<lparr>core := moves i Leaving (core e)\<rparr>"
        using step i d Inr by (simp add: engine_thread_def)
      have "pool_step (tp e) (tp f)"
        using P by (intro pool_step.submit [where job = "Until (length (jobs (tp e))) (Inr u)"]) auto
      moreover note linked_append(2,3) [OF link books, of f]
      ultimately show ?thesis
        using P i d L(1) by (auto simp: e' coro_thread_step_def moves_def view_def moves_only_def)
    qed
  next
    case False
    then have "engine_thread st ro u i e = map_option (\<lambda>w. e\<lparr>core := w\<rparr>) (coro_thread_step st ro i (view e))"
      using i by (cases "doing (core e) ! i") (auto simp: engine_thread_def)
    then obtain w where w: "coro_thread_step st ro i (view e) = Some w" "e' = e\<lparr>core := w\<rparr>"
      using step by (cases "coro_thread_step st ro i (view e)") auto
    have "ready w = queue_view e" using thread_ready [OF w(1)] busy False by simp
    moreover have "moves_only i (core e) w" using moves_only_thread [OF w(1)] by (simp add: moves_only_def)
    ultimately show ?thesis using w L(1,2) by simp
  qed
  then show "coro_thread_step st ro i (view e) = Some (view e')" "pool_step\<^sup>*\<^sup>* (tp e) (tp e')"
    "moves_only i (core e) (core e')" "workers (tp e') = workers (tp e)"
    "stopper (tp e') = stopper (tp e)" "pool_weight (tp e') \<le> pool_weight (tp e) + 7"
    "length (payload e') = length (jobs (tp e'))"
    "\<And>t. t < length (jobs (tp e')) \<Longrightarrow> job_fits u (payload e') t (jobs (tp e') ! t)"
    "\<And>t. t < length (jobs (tp e)) \<Longrightarrow> payload e' ! t = payload e ! t"
    by blast+
qed

text \<open>A worker moves on, or takes the head of the queue.\<close>

lemma loop_step:
  assumes "worker_step j p = Some p'"
  shows "jobs p' = jobs p \<and> j < length (workers p) \<and> (\<exists>x. workers p' = (workers p)[j := x]) \<and>
    (case task_of (workers p' ! j) of
       None \<Rightarrow> pool_queue p' = pool_queue p
     | Some t \<Rightarrow> tasks (pool_queue p) = t # tasks (pool_queue p') \<and>
         shutdown_flag (pool_queue p') = shutdown_flag (pool_queue p))"
  using assms
  by (auto simp: worker_step_def run_job_def take_task_def wait_and_pop_eq try_pop_def
      split: if_splits worker.splits waited.splits option.splits prod.splits list.splits)

text \<open>The packaged task is done once its call has returned.\<close>

lemma finish_step:
  assumes j: "j < length (workers p)" "task_of (workers p ! j) = Some t"
    and job: "jobs p ! t = Until t (Inr u)"
  shows "\<exists>p' x. worker_step j (signal t p) = Some p' \<and> workers p' = (workers p)[j := x] \<and>
    task_of x = None \<and> pool_queue p' = pool_queue p \<and> jobs p' = jobs p \<and>
    stopper p' = stopper p \<and> pool_weight p' \<le> pool_weight p"
proof -
  obtain x where x: "worker_step j (signal t p) = Some (p\<lparr>events := t # events p,
      results := (results p)(t \<mapsto> Inr u), workers := (workers p)[j := x]\<rparr>)" "task_of x = None"
    and less: "worker_weight b x < worker_weight b (workers p ! j)" for b
    using assms by (cases "workers p ! j") (auto simp: worker_step_def run_job_def signal_def)
  let ?p = "p\<lparr>events := t # events p, results := (results p)(t \<mapsto> Inr u), workers := (workers p)[j := x]\<rparr>"
  have "pool_weight ?p < pool_weight p"
    by (rule weight_worker [OF j(1), where w = x]) (use less in auto)
  then show ?thesis using x by auto
qed

section \<open>Both systems are images of the combined one\<close>

definition engine_inv :: "(int \<Rightarrow> 'v handler \<Rightarrow> 'io \<Rightarrow> 'io) \<Rightarrow> ('v handler \<Rightarrow> 'io \<Rightarrow> 'io)
    \<Rightarrow> ('io \<Rightarrow> (string option \<times> 'v handler) option \<times> 'io) \<Rightarrow> ('io \<Rightarrow> 'v handler multiset)
    \<Rightarrow> 'v body list \<Rightarrow> 'v \<Rightarrow> ('io, 'v) engine \<Rightarrow> bool" where
  "engine_inv st po ro pending bs u e \<longleftrightarrow> linked u e \<and> pool_books (tp e) \<and>
     io_contract st po ro pending \<and> coro_pool_inv pending bs (view e)"

lemma linked_move:
  assumes link: "linked u e" and move: "moves_only i (core e) (core e')"
    and jobs: "length (payload e') = length (jobs (tp e'))"
      "\<And>t. t < length (jobs (tp e')) \<Longrightarrow> job_fits u (payload e') t (jobs (tp e') ! t)"
    and ws: "length (workers (tp e')) = length (workers (tp e))"
      "\<And>k. k < length (workers (tp e)) \<Longrightarrow> i \<noteq> length (frames (core e)) + k \<Longrightarrow>
        call_of (payload e') (workers (tp e') ! k) = call_of (payload e) (workers (tp e) ! k)"
      "\<And>k. k < length (workers (tp e)) \<Longrightarrow> i = length (frames (core e)) + k \<Longrightarrow>
        call_of (payload e') (workers (tp e') ! k) = None \<longleftrightarrow> doing (core e') ! i = Resting"
  shows "linked u e'"
proof -
  note L = linkedD [OF link]
  obtain x where m: "length (frames (core e')) = length (frames (core e))"
      "doing (core e') = (doing (core e))[i := x]"
    using move by (auto simp: moves_only_def)
  have "call_of (payload e') (workers (tp e') ! k) = None \<longleftrightarrow>
      doing (core e') ! (length (frames (core e')) + k) = Resting"
    if k: "k < length (workers (tp e'))" for k
  proof (cases "i = length (frames (core e)) + k")
    case True
    then show ?thesis using ws(1,3) k m(1) by simp
  next
    case False
    then show ?thesis using ws(1,2) k m L(4) by simp
  qed
  then show ?thesis
    using jobs ws(1) L(3) m unfolding linked_def by simp
qed

text \<open>Steps of the pool alone that do not concern its tasks.\<close>

lemma linked_pool:
  assumes "linked u e" "jobs p = jobs (tp e)" "length (workers p) = length (workers (tp e))"
    and "\<And>k. k < length (workers (tp e)) \<Longrightarrow>
      call_of (payload e) (workers p ! k) = call_of (payload e) (workers (tp e) ! k)"
  shows "linked u (e\<lparr>tp := p\<rparr>)"
  using assms unfolding linked_def by simp

lemma begin_work_busy:
  "\<not> misuse (begin_work i t w) \<Longrightarrow> i < length (doing w) \<Longrightarrow> doing (begin_work i t w) ! i \<noteq> Resting"
  by (auto simp: begin_work_def resume_on_def moves_def split: work.splits option.splits point.splits)

lemma client_busy:
  assumes "coro_pool_inv pending bs (view e)" "c < length (frames (core e))"
  shows "doing (core e) ! c \<noteq> Resting"
  using client_phase(4) [OF assms(1), of c] coro_pool_invD(2) [OF assms(1)] assms(2) by simp

text \<open>Submitting a resumption does not change which tasks the workers are in.\<close>

lemma call_of_thread:
  assumes inv: "engine_inv st po ro pending bs u e" and busy: "doing (core e) ! i \<noteq> Resting"
    and step: "engine_thread st ro u i e = Some e'" and k: "k < length (workers (tp e))"
  shows "call_of (payload e') (workers (tp e) ! k) = call_of (payload e) (workers (tp e) ! k)"
proof -
  have I: "linked u e" "pool_books (tp e)" using inv by (simp_all add: engine_inv_def)
  show ?thesis
    using engine_thread_step(9) [OF I(2,1) busy step] books_running_lt [OF I(2) k]
    by (auto simp: call_of_def split: option.split)
qed

lemma client_maps:
  assumes inv: "engine_inv st po ro pending bs u e" and c: "c < length (frames (core e))"
    and step: "engine_thread st ro u c e = Some e'"
  shows "linked u e' \<and> pool_step\<^sup>*\<^sup>* (tp e) (tp e') \<and> coro_thread_step st ro c (view e) = Some (view e') \<and>
    workers (tp e') = workers (tp e) \<and> stopper (tp e') = stopper (tp e) \<and>
    pool_weight (tp e') \<le> pool_weight (tp e) + 7"
proof -
  have I: "linked u e" "pool_books (tp e)" "coro_pool_inv pending bs (view e)"
    using inv by (simp_all add: engine_inv_def)
  note S = engine_thread_step [OF I(2,1) client_busy [OF I(3) c] step]
  have "linked u e'"
    by (rule linked_move [OF I(1) S(3,7,8)])
      (use S(4) c call_of_thread [OF inv client_busy [OF I(3) c] step] in auto)
  then show ?thesis using S(1,2,4-6) by blast
qed

lemma pool_steps_jobs: "pool_step\<^sup>*\<^sup>* p p' \<Longrightarrow> length (jobs p) \<le> length (jobs p')"
proof (induction rule: rtranclp_induct)
  case (step p' p'')
  have "length (jobs p') \<le> length (jobs p'')"
    using step_jobs [OF step.hyps(2)] by auto
  then show ?case using step.IH by simp
qed simp

text \<open>A worker inside a task, whose call goes on or returns.\<close>

lemma busy_worker_maps:
  assumes inv: "engine_inv st po ro pending bs u e" and j: "j < length (workers (tp e))"
    and t: "call_of (payload e) (workers (tp e) ! j) = Some t" and step: "engine_worker st ro u j e = Some e'"
  shows "linked u e' \<and> pool_step\<^sup>*\<^sup>* (tp e) (tp e') \<and>
    coro_thread_step st ro (length (frames (core e)) + j) (view e) = Some (view e') \<and>
    length (workers (tp e')) = length (workers (tp e)) \<and> stopper (tp e') = stopper (tp e) \<and>
    pool_weight (tp e') \<le> pool_weight (tp e) + 7"
proof -
  have I: "linked u e" "pool_books (tp e)" "coro_pool_inv pending bs (view e)"
    using inv by (simp_all add: engine_inv_def)
  let ?i = "length (frames (core e)) + j"
  have busy: "doing (core e) ! ?i \<noteq> Resting" using linkedD(4) [OF I(1) j] t by simp
  obtain f where f: "engine_thread st ro u ?i e = Some f"
    and e': "e' = f \<and> doing (core f) ! ?i \<noteq> Resting \<or> doing (core f) ! ?i = Resting \<and>
      (\<exists>p. worker_step j (signal t (tp f)) = Some p \<and> e' = f\<lparr>tp := p\<rparr>)"
    using step j t by (auto simp: engine_worker_eq Let_def split: option.splits if_splits)
  note S = engine_thread_step [OF I(2,1) busy f] and calls = call_of_thread [OF inv busy f]
  have task: "task_of (workers (tp e) ! j) = Some t" "payload e ! t \<noteq> None"
    using t by (simp_all add: call_of_Some)
  have tj: "j < length (workers (tp f))" "task_of (workers (tp f) ! j) = Some t"
    using S(4) j task by simp_all
  show ?thesis
  proof (cases "doing (core f) ! ?i = Resting")
    case False
    then have "e' = f" using e' by blast
    moreover have "linked u f"
      by (rule linked_move [OF I(1) S(3,7,8)]) (use S(4) False t calls j in auto)
    ultimately show ?thesis using S(1,2,4-6) by auto
  next
    case True
    have lt: "t < length (jobs (tp e))" using books_running_lt [OF I(2) j task(1)] .
    then have job: "jobs (tp f) ! t = Until t (Inr u)"
      using S(8) [of t] S(9) [OF lt] task(2) pool_steps_jobs [OF S(2)] by (auto simp: job_fits_def)
    obtain p x where p: "worker_step j (signal t (tp f)) = Some p" "workers p = (workers (tp f))[j := x]"
        "task_of x = None" "pool_queue p = pool_queue (tp f)" "jobs p = jobs (tp f)" "e' = f\<lparr>tp := p\<rparr>"
        "stopper p = stopper (tp f)" "pool_weight p \<le> pool_weight (tp f)"
      using finish_step [OF tj job] e' True by auto
    have "pool_step\<^sup>*\<^sup>* (tp f) p"
      using pool_step.signal [of "tp f" t] pool_step.work [OF p(1)] by (metis converse_rtranclp_into_rtranclp
          r_into_rtranclp)
    moreover have "linked u e'"
      by (rule linked_move [OF I(1), of ?i]) (use S(3,4,7,8) p True tj calls call_of_no_task in \<open>auto simp: nth_list_update\<close>)
    moreover have "view e' = view f" using p by (simp add: view_def queue_view_def)
    ultimately show ?thesis using S(1,2,4-6) p by auto
  qed
qed

text \<open>A worker in its loop or in a plain task.\<close>

lemma idle_worker_maps:
  assumes inv: "engine_inv st po ro pending bs u e" and j: "j < length (workers (tp e))"
    and t: "call_of (payload e) (workers (tp e) ! j) = None" and step: "engine_worker st ro u j e = Some e'"
  shows "linked u e' \<and> worker_step j (tp e) = Some (tp e') \<and>
    (view e' = view e \<or> coro_thread_step st ro (length (frames (core e)) + j) (view e) = Some (view e'))"
proof -
  have I: "linked u e" "pool_books (tp e)" "io_contract st po ro pending" "coro_pool_inv pending bs (view e)"
    using inv by (simp_all add: engine_inv_def)
  note L = linkedD [OF I(1)]
  let ?i = "length (frames (core e)) + j"
  have i: "?i < length (doing (core e))" using L(3) j by simp
  have rest: "doing (core e) ! ?i = Resting" using L(4) [OF j] t by simp
  obtain p where p: "worker_step j (tp e) = Some p"
    and e': "e' = (case call_of (payload e) (workers p ! j) of None \<Rightarrow> e\<lparr>tp := p\<rparr>
      | Some t \<Rightarrow> e\<lparr>tp := p, core := begin_work ?i (the (payload e ! t)) (core e)\<rparr>)"
    using step j t by (auto simp: engine_worker_eq Let_def)
  note W = loop_step [OF p]
  obtain x where x: "workers p = (workers (tp e))[j := x]" using W by blast
  show ?thesis
  proof (cases "call_of (payload e) (workers p ! j)")
    case None
    then have e'': "e' = e\<lparr>tp := p\<rparr>" using e' by simp
    have "linked u e'"
      unfolding e'' by (rule linked_pool [OF I(1)]) (use W x None t j in \<open>auto simp: nth_list_update\<close>)
    moreover have "queue_view e' = queue_view e"
      using W None by (auto simp: e'' queue_view_def call_of_def map_filter_simps split: option.splits)
    ultimately show ?thesis using p e'' by (simp add: view_def)
  next
    case (Some s)
    then have s: "task_of (workers p ! j) = Some s" "payload e ! s \<noteq> None" by (simp_all add: call_of_Some)
    have e'': "e' = e\<lparr>tp := p, core := begin_work ?i (the (payload e ! s)) (core e)\<rparr>" using e' Some by simp
    have q: "tasks (queue_view e) = the (payload e ! s) # tasks (queue_view e')"
      "shutdown_flag (queue_view e') = shutdown_flag (queue_view e)"
      using W s by (auto simp: queue_view_def e'' map_filter_simps split: option.splits)
    have "coro_thread_step st ro ?i (view e) = Some (begin_work ?i (the (payload e ! s))
        ((view e)\<lparr>ready := (queue_view e)\<lparr>tasks := tasks (queue_view e')\<rparr>\<rparr>))"
      using i rest q by (simp add: coro_thread_step_def take_work_def try_pop_def)
    also have "(view e)\<lparr>ready := (queue_view e)\<lparr>tasks := tasks (queue_view e')\<rparr>\<rparr>
        = (core e)\<lparr>ready := queue_view e'\<rparr>"
      using q(2) by (cases "queue_view e'"; cases "queue_view e") (simp add: view_def)
    also have "begin_work ?i (the (payload e ! s)) ((core e)\<lparr>ready := queue_view e'\<rparr>) = view e'"
      by (simp add: begin_work_ready view_def e'')
    finally have c: "coro_thread_step st ro ?i (view e) = Some (view e')" .
    have "\<not> misuse (view e')" using coro_pool_invD(1) [OF inv_thread [OF I(3,4) c]] .
    then have "doing (core e') ! ?i \<noteq> Resting"
      using begin_work_busy [of ?i "the (payload e ! s)" "core e"] i by (simp add: e'')
    then have "linked u e'"
      by (intro linked_move [OF I(1), of ?i])
        (use W x Some L(1,2) moves_only_begin j in \<open>auto simp: e'' nth_list_update\<close>)
    then show ?thesis using c p e'' by simp
  qed
qed

lemma engine_worker_lt: "engine_worker st ro u j e = Some e' \<Longrightarrow> j < length (workers (tp e))"
  by (auto simp: engine_worker_eq Let_def split: if_splits)

text \<open>What every step has to show: the links are kept, and both images make some steps.\<close>

definition mapped :: "(int \<Rightarrow> 'v handler \<Rightarrow> 'io \<Rightarrow> 'io) \<Rightarrow> ('v handler \<Rightarrow> 'io \<Rightarrow> 'io)
    \<Rightarrow> ('io \<Rightarrow> (string option \<times> 'v handler) option \<times> 'io) \<Rightarrow> 'v
    \<Rightarrow> ('io, 'v) engine \<Rightarrow> ('io, 'v) engine \<Rightarrow> bool" where
  "mapped st po ro u e e' \<longleftrightarrow> linked u e' \<and> pool_step\<^sup>*\<^sup>* (tp e) (tp e') \<and>
     (coro_pool_step st po ro)\<^sup>*\<^sup>* (view e) (view e')"

lemma mapped_worker:
  assumes inv: "engine_inv st po ro pending bs u e" and step: "engine_worker st ro u j e = Some e'"
  shows "mapped st po ro u e e'"
proof -
  note j = engine_worker_lt [OF step]
  note thread = coro_pool_step.thread [of st ro _ "view e" "view e'" po]
  show ?thesis
  proof (cases "call_of (payload e) (workers (tp e) ! j)")
    case None
    note maps = idle_worker_maps [OF inv j None step]
    then have "pool_step (tp e) (tp e')" by (blast intro: pool_step.work)
    then show ?thesis using maps thread by (auto simp: mapped_def)
  next
    case (Some t)
    then show ?thesis using busy_worker_maps [OF inv j Some step] thread by (auto simp: mapped_def)
  qed
qed

text \<open>A plain task is not seen by the coroutines.\<close>

lemma mapped_submit:
  assumes link: "linked u e" and books: "pool_books (tp e)" and plain: "plain (payload e) job"
    and submit: "submit job (tp e) = Inr (f, p)"
  shows "mapped st po ro u e (e\<lparr>tp := p, payload := payload e @ [None]\<rparr>)"
proof -
  let ?e = "e\<lparr>tp := p, payload := payload e @ [None]\<rparr>"
  note L = linkedD [OF link]
  have p: "jobs p = jobs (tp e) @ [job]" "workers p = workers (tp e)"
    "pool_queue p = (pool_queue (tp e))\<lparr>tasks := tasks (pool_queue (tp e)) @ [length (jobs (tp e))]\<rparr>"
    using submit by (auto simp: submit_def push_def split: if_splits)
  have ok: "job_ok (length (jobs (tp e))) job" using plain L(1) by (cases job) auto
  have new: "(payload e @ [None]) ! length (jobs (tp e)) = None"
    using L(1) by (metis nth_append_length)
  then have "job_fits u (payload e @ [None]) (length (jobs (tp e))) job"
    using plain by (simp add: job_fits_def plain_append)
  note A = linked_append [OF link books, of ?e None job, simplified, OF p(1,2) this]
  have "List.map_filter ((!) (payload e @ [None])) (tasks (pool_queue (tp e)))
      = List.map_filter ((!) (payload e)) (tasks (pool_queue (tp e)))"
    using A(2) books_tasks_lt [OF books] by (intro map_filter_cong) simp
  then have "view ?e = view e"
    by (simp add: view_def queue_view_def p map_filter_snoc new)
  then show ?thesis
    using pool_step.submit [OF ok submit] A(1) by (auto simp: mapped_def)
qed

text \<open>A step of the pool that leaves its queue alone, and every worker in the task it is in.\<close>

lemma mapped_pool:
  assumes "linked u e" "pool_step (tp e) p" "jobs p = jobs (tp e)" "pool_queue p = pool_queue (tp e)"
    and "length (workers p) = length (workers (tp e)) \<and>
      (\<forall>k < length (workers (tp e)). task_of (workers p ! k) = task_of (workers (tp e) ! k))"
  shows "mapped st po ro u e (e\<lparr>tp := p\<rparr>)"
proof -
  have "view (e\<lparr>tp := p\<rparr>) = view e" using assms(4) by (simp add: view_def queue_view_def)
  then show ?thesis using assms linked_pool [of u e p] by (auto simp: mapped_def call_of_def)
qed

lemma mapped_close:
  assumes "linked u e" "shutdown_begin (tp e) = Some p"
  shows "mapped st po ro u e (e\<lparr>tp := p\<rparr>)"
proof -
  have p: "p = (tp e)\<lparr>pool_queue := shutdown (pool_queue (tp e)), stopper := Notify_all_due\<rparr>"
    using assms(2) by (auto simp: shutdown_begin_def split: if_splits)
  have "view (e\<lparr>tp := p\<rparr>) = (view e)\<lparr>ready := shutdown (ready (view e))\<rparr>"
    by (simp add: p view_def queue_view_def shutdown_def)
  then have "coro_pool_step st po ro (view e) (view (e\<lparr>tp := p\<rparr>))" by (metis coro_pool_step.close)
  moreover have "linked u (e\<lparr>tp := p\<rparr>)" by (rule linked_pool [OF assms(1)]) (simp_all add: p)
  ultimately show ?thesis
    using pool_step.shutdown_begin [OF assms(2)] by (auto simp: mapped_def)
qed

text \<open>A step of the surroundings of the context.\<close>

lemma mapped_io:
  assumes "linked u e" "coro_pool_step st po ro (view e) ((view e)\<lparr>pool_io := i\<rparr>)"
  shows "mapped st po ro u e (e\<lparr>core := (core e)\<lparr>pool_io := i\<rparr>\<rparr>)"
proof -
  have "view (e\<lparr>core := (core e)\<lparr>pool_io := i\<rparr>\<rparr>) = (view e)\<lparr>pool_io := i\<rparr>" by (simp add: view_def)
  then have "(coro_pool_step st po ro)\<^sup>*\<^sup>* (view e) (view (e\<lparr>core := (core e)\<lparr>pool_io := i\<rparr>\<rparr>))"
    using assms(2) by (simp only: r_into_rtranclp)
  then show ?thesis using assms(1) unfolding mapped_def linked_def by simp
qed

lemma mapped_stop:
  assumes "linked u e"
  shows "mapped st po ro u e (e\<lparr>core := (core e)\<lparr>io_stopped := True\<rparr>\<rparr>)"
proof -
  have "view (e\<lparr>core := (core e)\<lparr>io_stopped := True\<rparr>\<rparr>) = (view e)\<lparr>io_stopped := True\<rparr>" by (simp add: view_def)
  then have "(coro_pool_step st po ro)\<^sup>*\<^sup>* (view e) (view (e\<lparr>core := (core e)\<lparr>io_stopped := True\<rparr>\<rparr>))"
    by (simp only: r_into_rtranclp coro_pool_step.stop)
  then show ?thesis using assms unfolding mapped_def linked_def by simp
qed

lemma engine_maps:
  assumes inv: "engine_inv st po ro pending bs u e" and step: "engine_step st po ro u e e'"
  shows "mapped st po ro u e e'"
proof -
  have link: "linked u e" "pool_books (tp e)" using inv by (simp_all add: engine_inv_def)
  show ?thesis
    using step
  proof (cases rule: engine_step.cases)
    case (client c)
    then show ?thesis
      using client_maps [OF inv client] coro_pool_step.thread [of st ro c "view e" "view e'" po]
      by (auto simp: mapped_def)
  next
    case (worker j)
    then show ?thesis by (rule mapped_worker [OF inv])
  next
    case (submit job f p)
    then show ?thesis using mapped_submit [OF link] by simp
  next
    case (notify j p)
    show ?thesis
      unfolding notify(1)
      by (rule mapped_pool [OF link(1) pool_step.notify [OF notify(2)]])
        (use notify(2) in \<open>auto simp: notify_one_def nth_list_update split: if_splits\<close>)
  next
    case (spurious j p)
    show ?thesis
      unfolding spurious(1)
      by (rule mapped_pool [OF link(1) pool_step.spurious [OF spurious(2)]])
        (use spurious(2) in \<open>auto simp: spurious_wakeup_def nth_list_update split: if_splits\<close>)
  next
    case (shutdown_begin p)
    then show ?thesis using mapped_close [OF link(1)] by simp
  next
    case (shutdown_continue p)
    show ?thesis
      unfolding shutdown_continue(1)
      by (rule mapped_pool [OF link(1) pool_step.shutdown_continue [OF shutdown_continue(2)]])
        (use shutdown_continue(2) in \<open>auto simp: shutdown_continue_def nth_list_update split: stopper.splits if_splits\<close>)
  next
    case stop
    then show ?thesis using mapped_stop [OF link(1)] by simp
  next
    case (timer h d)
    then show ?thesis
      using mapped_io [OF link(1) coro_pool_step.timer [of h st po ro "view e" d]] by simp
  next
    case (post h)
    then show ?thesis
      using mapped_io [OF link(1) coro_pool_step.post [of h st po ro "view e"]] by simp
  next
    case (wait i)
    then show ?thesis
      using mapped_io [OF link(1) coro_pool_step.wait [of ro "view e" i st po]] by simp
  qed
qed

lemma engine_inv_step:
  assumes "engine_inv st po ro pending bs u e" "engine_step st po ro u e e'"
  shows "engine_inv st po ro pending bs u e'"
proof -
  note maps = engine_maps [OF assms]
  have io: "io_contract st po ro pending" "pool_books (tp e)" "coro_pool_inv pending bs (view e)"
    using assms(1) by (simp_all add: engine_inv_def)
  have "pool_books p" if "pool_step\<^sup>*\<^sup>* (tp e) p" for p
    using that io(2) by (induction rule: rtranclp_induct) (auto intro: pool_books_step)
  moreover have "coro_pool_inv pending bs w" if "(coro_pool_step st po ro)\<^sup>*\<^sup>* (view e) w" for w
    using that io(3) by (induction rule: rtranclp_induct) (auto intro: inv_coro_pool_step [OF io(1)])
  ultimately show ?thesis using maps io(1) by (simp add: engine_inv_def mapped_def)
qed

text \<open>The start.\<close>

lemma post_work_open:
  assumes "\<not> shutdown_flag (pool_queue (tp e))"
  shows "\<exists>e'. post_work u t e = Inr e'"
  using assms by (simp add: post_work_def submit_def push_def)

lemma start_runs_ok:
  assumes "start_runs m u e = Inr e'" "reach pool_init pool_step k (tp e)" "linked u e"
    and "view e = coro_pool_start bs n l i"
  shows "(\<exists>k. reach pool_init pool_step k (tp e')) \<and> linked u e' \<and>
    view e' = coro_pool_start bs n (l + m) i"
  using assms
proof (induction m arbitrary: e k l)
  case (Suc m)
  then obtain f where f: "post_work u Run_io e = Inr f" "start_runs m u f = Inr e'"
    by (cases "post_work u Run_io e") auto
  have books: "pool_books (tp e)" using books.reach_state [OF Suc.prems(2)] .
  note P = post_work_push(1) [OF books linkedD(1) [OF Suc.prems(3)] f(1)]
  have "pool_step (tp e) (tp f)"
    using P by (intro pool_step.submit [where job = "Until (length (jobs (tp e))) (Inr u)"]) auto
  from reach.more [OF Suc.prems(2) this] have r: "reach pool_init pool_step (Suc k) (tp f)" .
  have link: "linked u f"
    using P by (intro linked_append(1) [OF Suc.prems(3) books]) auto
  have "queue_view f = (queue_view e)\<lparr>tasks := tasks (queue_view e) @ [Run_io]\<rparr>"
    using P by (auto simp: push_def split: if_splits)
  moreover have "queue_view e = TaskQueue\<lparr>tasks := replicate l Run_io\<rparr>"
    using arg_cong [OF Suc.prems(4), of ready] by (simp add: coro_pool_start_def)
  ultimately have "view f = (view e)\<lparr>ready := TaskQueue\<lparr>tasks := replicate (Suc l) Run_io\<rparr>\<rparr>"
    using P by (simp add: view_def replicate_append_same)
  then have "view f = coro_pool_start bs n (Suc l) i"
    using Suc.prems(4) by (simp add: coro_pool_start_def)
  then show ?case using Suc.IH [OF f(2) r link] by simp
qed auto

lemma engine_start_ok:
  assumes "engine_init st po ro pending bs m u e"
  shows "engine_inv st po ro pending bs u e \<and> (\<exists>k. reach pool_init pool_step k (tp e)) \<and>
    (\<exists>k. reach (coro_pool_init st po ro pending bs m) (coro_pool_step st po ro) k (view e))"
  using assms
proof (induction rule: engine_init.induct)
  case (1 i n hw e)
  let ?e = "engine_start bs n hw i"
  let ?p = "tp ?e"
  have "call_of [] (workers (tp ?e) ! j) = None" if "j < length (workers (tp ?e))" for j
    using that by (simp add: engine_start_def ThreadPool_def Let_def call_of_def)
  then have link: "linked u ?e"
    by (auto simp: linked_def engine_start_def Let_def coro_pool_start_def nth_append ThreadPool_def)
  have view: "view ?e = coro_pool_start bs (length (workers ?p)) 0 i"
    by (simp add: view_def queue_view_def engine_start_def Let_def coro_pool_start_def ThreadPool_def TaskQueue_def)
  have "reach pool_init pool_step 0 (tp ?e)"
    by (rule reach.start) (simp add: engine_start_def Let_def pool_init.intros)
  note start = start_runs_ok [OF 1(3) this link view]
  then obtain k where k: "reach pool_init pool_step k (tp e)" by blast
  have init: "coro_pool_init st po ro pending bs m (view e)"
    using start coro_pool_init.intros [OF 1(1,2), where bs = bs and m = m and n = "length (workers ?p)"]
    by simp
  have "engine_inv st po ro pending bs u e"
    using start inv_start [OF init] books.reach_state [OF k] by (simp add: engine_inv_def)
  then show ?case using k reach.start [of "coro_pool_init st po ro pending bs m", OF init] by blast
qed

interpretation to_pool: refinement_map "engine_init st po ro pending bs m u" "engine_step st po ro u"
    "engine_inv st po ro pending bs u" tp pool_init pool_step for st po ro pending bs m u
proof unfold_locales
  fix e e'
  assume "engine_inv st po ro pending bs u e" and "engine_step st po ro u e e'"
  note maps = engine_inv_step [OF this] engine_maps [OF this]
  show "engine_inv st po ro pending bs u e' \<and> pool_step\<^sup>*\<^sup>* (tp e) (tp e')"
    using maps by (simp add: mapped_def)
qed (auto dest!: engine_start_ok)

interpretation to_coros: refinement_map "engine_init st po ro pending bs m u" "engine_step st po ro u"
    "engine_inv st po ro pending bs u" view "coro_pool_init st po ro pending bs m" "coro_pool_step st po ro"
    for st po ro pending bs m u
proof unfold_locales
  fix e e'
  assume "engine_inv st po ro pending bs u e" and "engine_step st po ro u e e'"
  note maps = engine_inv_step [OF this] engine_maps [OF this]
  show "engine_inv st po ro pending bs u e' \<and> (coro_pool_step st po ro)\<^sup>*\<^sup>* (view e) (view e')"
    using maps by (simp add: mapped_def)
qed (auto dest!: engine_start_ok)

end
