(* ===== verification/Engine_Progress.thy ===== *)
theory Engine_Progress
  imports Coro_Engine
begin

text \<open>
  What the composition of \<open>Coro_Engine\<close> promises: its runs end, and when nothing can move, every
  \<open>get()\<close> has returned, every plain task is complete, and after a shutdown the workers have exited.
\<close>

section \<open>Progress\<close>

text \<open>The steps that go on by themselves: threads and pending notifications.\<close>

datatype engine_action = Client nat | Worker nat | Notify nat

fun engine_act :: "(int \<Rightarrow> 'v handler \<Rightarrow> 'io \<Rightarrow> 'io)
    \<Rightarrow> ('io \<Rightarrow> (string option \<times> 'v handler) option \<times> 'io) \<Rightarrow> 'v
    \<Rightarrow> engine_action \<Rightarrow> ('io, 'v) engine \<Rightarrow> ('io, 'v) engine option" where
  "engine_act st ro u (Client c) e =
     (if c < length (frames (core e)) then engine_thread st ro u c e else None)"
| "engine_act st ro u (Worker j) e = engine_worker st ro u j e"
| "engine_act st ro u (Notify j) e = map_option (\<lambda>p. e\<lparr>tp := p\<rparr>) (notify_one j (tp e))"

lemma engine_act_step: "engine_act st ro u a e = Some e' \<Longrightarrow> engine_step st po ro u e e'"
  by (cases a) (auto intro: engine_step.intros split: if_splits)

definition engine_work :: "('io \<Rightarrow> 'v handler multiset) \<Rightarrow> ('io, 'v) engine \<Rightarrow> nat" where
  "engine_work pending e = 8 * coro_pool_work pending (view e) + pool_weight (tp e)"

lemma engine_act_work:
  assumes inv: "engine_inv st po ro pending bs u e" and sync: "pool_sync (tp e)" "settled (tp e)"
    and act: "engine_act st ro u a e = Some e'"
  shows "engine_work pending e' < engine_work pending e \<and> settled (tp e') \<and>
    length (workers (tp e')) = length (workers (tp e))"
proof -
  have io: "io_contract st po ro pending" "coro_pool_inv pending bs (view e)"
    using inv by (simp_all add: engine_inv_def)
  note less = thread_work [OF io]
  have settled: "stopper (tp e') = stopper (tp e) \<Longrightarrow> settled (tp e')"
    using sync(2) by (simp add: settled_def)
  show ?thesis
  proof (cases a)
    case (Client c)
    then have c: "c < length (frames (core e))" "engine_thread st ro u c e = Some e'"
      using act by (auto split: if_splits)
    have "coro_thread_step st ro c (view e) = Some (view e')" "workers (tp e') = workers (tp e)"
      "stopper (tp e') = stopper (tp e)" "pool_weight (tp e') \<le> pool_weight (tp e) + 7"
      using client_maps [OF inv c] by simp_all
    then show ?thesis
      using less [of c "view e'"] settled by (simp add: engine_work_def)
  next
    case (Worker j)
    then have step: "engine_worker st ro u j e = Some e'" using act by simp
    note j = engine_worker_lt [OF step]
    show ?thesis
    proof (cases "call_of (payload e) (workers (tp e) ! j)")
      case None
      have w: "worker_step j (tp e) = Some (tp e')"
        and v: "view e' = view e \<or> coro_thread_step st ro (length (frames (core e)) + j) (view e) = Some (view e')"
        using idle_worker_maps [OF inv j None step] by simp_all
      have "coro_pool_work pending (view e') \<le> coro_pool_work pending (view e)"
        using v less [of "length (frames (core e)) + j" "view e'"] by (auto intro: less_imp_le)
      moreover have "stopper (tp e') = stopper (tp e)"
        using internal_step(1) [of "Do_work j" "tp e" "tp e'"] w by simp
      moreover have "length (workers (tp e')) = length (workers (tp e))"
        using loop_step [OF w] by auto
      ultimately show ?thesis
        using weight_work [OF sync w] settled by (simp add: engine_work_def)
    next
      case (Some t)
      have "coro_thread_step st ro (length (frames (core e)) + j) (view e) = Some (view e')"
        "length (workers (tp e')) = length (workers (tp e))"
        "stopper (tp e') = stopper (tp e)" "pool_weight (tp e') \<le> pool_weight (tp e) + 7"
        using busy_worker_maps [OF inv j Some step] by simp_all
      then show ?thesis
        using less [of "length (frames (core e)) + j" "view e'"] settled by (simp add: engine_work_def)
    qed
  next
    case (Notify j)
    then obtain p where p: "notify_one j (tp e) = Some p" "e' = e\<lparr>tp := p\<rparr>"
      using act by (cases "notify_one j (tp e)") auto
    have "pool_queue p = pool_queue (tp e)" "length (workers p) = length (workers (tp e))"
      "stopper p = stopper (tp e)"
      using p(1) by (auto simp: notify_one_def split: if_splits)
    then show ?thesis
      using weight_notify [OF sync p(1)] settled
      by (simp add: engine_work_def p(2)) (simp add: view_def queue_view_def)
  qed
qed

lemma engine_run:
  assumes "reach (engine_init st po ro pending bs m u) (engine_step st po ro u) k e" "settled (tp e)"
    and "run_schedule (engine_act st ro u) ls e = Some e'"
  shows "(\<exists>k. reach (engine_init st po ro pending bs m u) (engine_step st po ro u) k e') \<and>
    length (workers (tp e')) = length (workers (tp e)) \<and>
    length ls + engine_work pending e' \<le> engine_work pending e"
  using assms
proof (induction ls arbitrary: k e)
  case (Cons a ls)
  then obtain f where f: "engine_act st ro u a e = Some f" "run_schedule (engine_act st ro u) ls f = Some e'"
    by (auto split: option.splits)
  have inv: "engine_inv st po ro pending bs u e" "\<exists>k. reach pool_init pool_step k (tp e)"
    using to_pool.reach_abs [OF Cons.prems(1)] by blast+
  then have "pool_sync (tp e)" using sync.reach_state by blast
  note w = engine_act_work [OF inv(1) this Cons.prems(2) f(1)]
  show ?case
    using Cons.IH [OF reach.more [OF Cons.prems(1) engine_act_step [OF f(1)]] _ f(2)] w by auto
qed auto

text \<open>
  When nothing can move, no worker is in a plain task: the tasks it may wait for are older, so by
  induction they are complete.
\<close>

lemma stuck_plain:
  assumes inv: "engine_inv st po ro pending bs u e" and stuck: "\<And>a. engine_act st ro u a e = None"
    and j: "j < length (workers (tp e))" "task_of (workers (tp e) ! j) = Some t"
  shows "payload e ! t \<noteq> None"
  using j
proof (induction t arbitrary: j rule: less_induct)
  case (less t)
  have I: "linked u e" "pool_books (tp e)" using inv by (simp_all add: engine_inv_def)
  note L = linkedD [OF I(1)] and up = pool_books_started_upt [OF I(2)]
  show ?case
  proof
    assume none: "payload e ! t = None"
    then have "worker_step j (tp e) = None"
      using stuck [of "Worker j"] less.prems by (simp add: engine_worker_eq Let_def call_of_def)
    then have wait: "job_outcome (results (tp e)) (events (tp e)) (jobs (tp e) ! t) = None"
      using less.prems by (cases "workers (tp e) ! j") (auto simp: worker_step_def run_job_def)
    have t: "t < length (jobs (tp e))" using books_running_lt [OF I(2) less.prems] .
    then have "plain (payload e) (jobs (tp e) ! t)" using L(2) none by (auto simp: job_fits_def)
    then obtain f cont where job: "jobs (tp e) ! t = Continue f cont"
      and f: "payload e ! f = None" "results (tp e) f = None"
      using wait by (cases "jobs (tp e) ! t") auto
    have "f < t" using pool_booksD(3) [OF I(2) t] job by simp
    moreover have "t \<in> set (started (tp e))"
      using pool_booksD(6) [OF I(2) less.prems(1)] less.prems(2) by (simp add: executing_task_of)
    ultimately have "f \<in> set (started (tp e))" using up(4) by auto
    then obtain k where "k < length (workers (tp e))" "task_of (workers (tp e) ! k) = Some f"
      using f(2) pool_booksD(5) [OF I(2), of f] by (auto simp: executing_task_of)
    then show False using less.IH [OF \<open>f < t\<close>] f(1) by blast
  qed
qed

text \<open>Any other worker inside a task waits in \<open>run()\<close>, and the rest sleep or have exited.\<close>

lemma stuck_worker:
  assumes inv: "engine_inv st po ro pending bs u e" and runs: "runs_inv (length bs) m (view e)"
    and stuck: "\<And>a. engine_act st ro u a e = None" and j: "j < length (workers (tp e))"
  shows "task_of (workers (tp e) ! j) = Some t \<Longrightarrow>
      coro_thread_step st ro (length bs + j) (view e) = None \<and>
      in_run (core e) ! (length bs + j) \<and> \<not> io_stopped (core e)"
    and "task_of (workers (tp e) ! j) = None \<Longrightarrow>
      workers (tp e) ! j = Asleep \<or> workers (tp e) ! j = Exited"
proof -
  let ?i = "length bs + j"
  have I: "linked u e" "pool_books (tp e)" "coro_pool_inv pending bs (view e)"
    using inv by (simp_all add: engine_inv_def)
  note L = linkedD [OF I(1)]
  have nb: "length (frames (core e)) = length bs" using coro_pool_invD(2) [OF I(3)] by simp
  {
    assume t: "task_of (workers (tp e) ! j) = Some t"
    have p: "payload e ! t \<noteq> None" using stuck_plain [OF inv stuck j t] .
    then have call: "call_of (payload e) (workers (tp e) ! j) = Some t" using t by (simp add: call_of_Some)
    have rest: "doing (core e) ! ?i \<noteq> Resting" using L(4) [OF j] call nb by simp
    have none: "engine_thread st ro u ?i e = None"
    proof (rule ccontr)
      assume "engine_thread st ro u ?i e \<noteq> None"
      then obtain f where f: "engine_thread st ro u ?i e = Some f" by blast
      note S = engine_thread_step [OF I(2,1) rest f]
      have lt: "t < length (jobs (tp e))" using books_running_lt [OF I(2) j t] .
      then have "jobs (tp f) ! t = Until t (Inr u)"
        using S(8) [of t] S(9) [OF lt] p pool_steps_jobs [OF S(2)] by (auto simp: job_fits_def)
      then obtain p where "worker_step j (signal t (tp f)) = Some p"
        using finish_step [of j "tp f" t u] j t S(4) by auto
      then have "engine_worker st ro u j e \<noteq> None"
        using j call f nb by (simp add: engine_worker_eq Let_def)
      then show False using stuck [of "Worker j"] by simp
    qed
    have i: "?i < length (doing (view e))" using j L(3) nb by simp
    have step: "coro_thread_step st ro ?i (view e) = None"
      using none rest by (auto simp: engine_thread_def coro_thread_step_def split: if_splits doing.splits)
    note T = stuck_thread [OF step i]
    have "doing (view e) ! ?i = Polling"
      using coro_pool_invD(7) [OF I(3) i] T(1,2,5) rest by (auto simp: worker_ok_def)
    then show "coro_thread_step st ro ?i (view e) = None \<and> in_run (core e) ! ?i \<and> \<not> io_stopped (core e)"
      using step T(7) runs i by (auto simp: runs_inv_def dest!: spec [of _ ?i])
  next
    assume t: "task_of (workers (tp e) ! j) = None"
    then have "worker_step j (tp e) = None"
      using stuck [of "Worker j"] j by (simp add: engine_worker_eq Let_def call_of_no_task)
    then show "workers (tp e) ! j = Asleep \<or> workers (tp e) ! j = Exited"
      using j t by (cases "workers (tp e) ! j") (auto simp: worker_step_def split: waited.splits)
  }
qed

lemma stuck_empty:
  assumes inv: "engine_inv st po ro pending bs u e" and runs: "runs_inv (length bs) m (view e)"
    and sync: "pool_sync (tp e)" and workers: "m < length (workers (tp e))"
    and stuck: "\<And>a. engine_act st ro u a e = None"
  shows "tasks (pool_queue (tp e)) = []"
proof (rule sync_some_idle_empty [OF sync])
  have I: "linked u e" "coro_pool_inv pending bs (view e)"
    using inv by (simp_all add: engine_inv_def)
  note L = linkedD [OF I(1)] and W = stuck_worker [OF inv runs stuck]
  have nb: "length (frames (core e)) = length bs" using coro_pool_invD(2) [OF I(2)] by simp
  have "length (in_run (core e)) = length (doing (core e))" "count_list (in_run (core e)) True \<le> m"
    using runs by (auto simp: runs_inv_def run_calls_def)
  then obtain i where i: "length bs \<le> i" "i < length (doing (core e))" "\<not> in_run (core e) ! i"
    using a_False_above [of "length bs" "in_run (core e)"] L(3) workers nb by auto
  obtain j where j: "j < length (workers (tp e))" "\<not> in_run (core e) ! (length bs + j)"
    by (rule that [of "i - length bs"]) (use i L(3) nb in auto)
  then have "task_of (workers (tp e) ! j) = None"
    using W(1) [OF j(1)] by (cases "task_of (workers (tp e) ! j)") auto
  then show "Asleep \<in> set (workers (tp e)) \<or> Exited \<in> set (workers (tp e))"
    using W(2) [OF j(1)] j(1) by (auto simp: in_set_conv_nth)
  show "Wait_entry \<notin> set (workers (tp e))"
    using W(2) by (force simp: in_set_conv_nth)
  show "notify_one k (tp e) = None" for k
    using stuck [of "Notify k"] by simp
qed

text \<open>So every plain task is complete.\<close>

lemma stuck_complete:
  assumes inv: "engine_inv st po ro pending bs u e" and stuck: "\<And>a. engine_act st ro u a e = None"
    and empty: "tasks (pool_queue (tp e)) = []" and t: "t < length (jobs (tp e))" "payload e ! t = None"
  shows "results (tp e) t = Some (denote (jobs (tp e)) ! t)"
proof -
  have books: "pool_books (tp e)" using inv by (simp add: engine_inv_def)
  have "t \<in> set (started (tp e))"
    using pool_booksD(2) [OF books] empty t(1) by (metis append_Nil2 atLeastLessThan_iff set_upt zero_le)
  moreover have "\<not> executing (workers (tp e) ! i) t" if "i < length (workers (tp e))" for i
    using stuck_plain [OF inv stuck that, of t] t(2) by (auto simp: executing_task_of)
  ultimately have "results (tp e) t \<noteq> None"
    using pool_booksD(5) [OF books, of t] by blast
  then show ?thesis using books_denote [OF books] by blast
qed

text \<open>And no thread of the coroutines can move either.\<close>

lemma stuck_view:
  assumes inv: "engine_inv st po ro pending bs u e" and runs: "runs_inv (length bs) m (view e)"
    and sync: "pool_sync (tp e)" and workers: "m < length (workers (tp e))"
    and stuck: "\<And>a. engine_act st ro u a e = None"
  shows "coro_thread_step st ro i (view e) = None"
proof -
  have I: "linked u e" "coro_pool_inv pending bs (view e)"
    using inv by (simp_all add: engine_inv_def)
  note L = linkedD [OF I(1)] and W = stuck_worker [OF inv runs stuck]
  have nb: "length (frames (core e)) = length bs" using coro_pool_invD(2) [OF I(2)] by simp
  have client: "coro_thread_step st ro c (view e) = None" if "c < length bs" for c
    using stuck [of "Client c"] client_busy [OF I(2), of c] that nb
    by (auto simp: engine_thread_def coro_thread_step_def split: if_splits doing.splits)
  note empty = stuck_empty [OF inv runs sync workers stuck]
  have worker: "coro_thread_step st ro (length bs + j) (view e) = None"
    if j: "j < length (workers (tp e))" for j
  proof (cases "task_of (workers (tp e) ! j)")
    case None
    then have "doing (core e) ! (length bs + j) = Resting"
      using L(4) [OF j] nb by (simp add: call_of_no_task)
    then show ?thesis
      using empty by (simp add: coro_thread_step_def take_work_def try_pop_def queue_view_def map_filter_simps)
  qed (use W(1) [OF j] in blast)
  show ?thesis
  proof (cases "i < length (doing (core e))")
    case True
    then show ?thesis
      using client [of i] worker [of "i - length bs"] L(3) nb by (cases "i < length bs") auto
  qed (simp add: coro_thread_step_def)
qed

text \<open>After a shutdown, with the context stopped, no worker is left.\<close>

lemma stuck_joined:
  assumes inv: "engine_inv st po ro pending bs u e" and runs: "runs_inv (length bs) m (view e)"
    and sync: "pool_sync (tp e)" and stuck: "\<And>a. engine_act st ro u a e = None"
    and stopped: "io_stopped (core e)" "stopper (tp e) = Shutdown_returned"
  shows "joined (tp e)"
proof -
  have "workers (tp e) ! j = Exited" if j: "j < length (workers (tp e))" for j
    using stuck_worker [OF inv runs stuck j] stopped pool_syncD(7) [OF sync j]
    by (cases "task_of (workers (tp e) ! j)") auto
  then show ?thesis by (simp add: joined_def list_all_length)
qed

section \<open>Properties\<close>

text \<open>
  C12: Coroutines on the real pool implement both descriptions. Whatever happens to an engine, its
  pool is in a reachable state of the pool alone, the coroutines with the pool's queue read through
  the payloads are in a reachable state of the coroutine system, whose workers simply take what is
  queued, and a worker is inside a task with a payload exactly while its thread is in what the task
  calls. Plain tasks, submitted at any time, are invisible to the coroutines.
\<close>

theorem engine_refines:
  assumes "reach (engine_init st po ro pending bs m u) (engine_step st po ro u) k e"
  shows "(\<exists>k. reach pool_init pool_step k (tp e)) \<and>
    (\<exists>k. reach (coro_pool_init st po ro pending bs m) (coro_pool_step st po ro) k (view e)) \<and>
    length (payload e) = length (jobs (tp e)) \<and>
    (\<forall>j < length (workers (tp e)). call_of (payload e) (workers (tp e) ! j) = None \<longleftrightarrow>
      doing (core e) ! (length bs + j) = Resting)"
proof -
  have inv: "engine_inv st po ro pending bs u e" "\<exists>k. reach pool_init pool_step k (tp e)"
    using to_pool.reach_abs [OF assms] by blast+
  then have "linked u e" "length (frames (core e)) = length bs"
    using coro_pool_invD(2) [of pending bs "view e"] by (simp_all add: engine_inv_def)
  then show ?thesis
    using inv(2) to_coros.reach_abs [OF assms] linkedD(1,4) by metis
qed

text \<open>
  C11: With workers that sleep and are notified, every \<open>get()\<close> still returns, before and after a
  shutdown. If no shutdown is under way and fewer than all workers are in \<open>run()\<close>, a run of the
  clients, the workers and the notifications is bounded by a measure of the state. When it cannot
  go on, every coroutine has been completed and destroyed and its client has the outcome of its
  body, unless it waits for a timer of a context that is stopped or that no thread runs; every plain task
  has the result of its sequential evaluation; and after the shutdown, with the context stopped, all
  workers have exited, so that the destructor returns.
\<close>

theorem engine_gets_return:
  assumes "reach (engine_init st po ro pending bs m u) (engine_step st po ro u) k e"
    and "io_waits ro pending" and "settled (tp e)" and "m < length (workers (tp e))"
    and "run_schedule (engine_act st ro u) ls e = Some e'"
  shows "length ls \<le> engine_work pending e \<and> ((\<forall>a. engine_act st ro u a e' = None) \<longrightarrow>
    (\<forall>c < length bs.
      (\<exists>r. doing (core e') ! c = Destroyed (fulfilled r) \<and> frames (core e') ! c = None \<and>
        r \<in> outcomes (bs ! c) \<and> (\<not> is_shutdown (pool_queue (tp e')) \<longrightarrow> r = body_value True (bs ! c))) \<or>
      Resume c \<in># pending (pool_io (core e')) \<and> (io_stopped (core e') \<or> m = 0)) \<and>
    (\<forall>t < length (jobs (tp e')). payload e' ! t = None \<longrightarrow>
      results (tp e') t = Some (denote (jobs (tp e')) ! t)) \<and>
    (stopper (tp e') = Shutdown_returned \<and> io_stopped (core e') \<longrightarrow> joined (tp e')))"
proof -
  note run = engine_run [OF assms(1,3,5)]
  then obtain k where r: "reach (engine_init st po ro pending bs m u) (engine_step st po ro u) k e'"
    by blast
  have inv: "engine_inv st po ro pending bs u e'" and sync: "pool_sync (tp e')"
    using to_pool.reach_abs [OF r] sync.reach_state by blast+
  have runs: "runs_inv (length bs) m (view e')"
    using to_coros.reach_abs [OF r] runs.reach_state by blast
  have I: "coro_pool_inv pending bs (view e')" "linked u e'" using inv by (simp_all add: engine_inv_def)
  have more: "length bs + m < length (doing (view e'))" "m < length (workers (tp e'))"
    using linkedD(3) [OF I(2)] coro_pool_invD(2) [OF I(1)] run assms(4) by simp_all
  {
    assume stuck: "\<forall>a. engine_act st ro u a e' = None"
    then have none: "coro_thread_step st ro i (view e') = None" for i
      using stuck_view [OF inv runs sync more(2)] by blast
    have ret: "(\<exists>r. doing (core e') ! c = Destroyed (fulfilled r) \<and> frames (core e') ! c = None \<and>
        r \<in> outcomes (bs ! c) \<and> (\<not> is_shutdown (pool_queue (tp e')) \<longrightarrow> r = body_value True (bs ! c))) \<or>
      Resume c \<in># pending (pool_io (core e')) \<and> (io_stopped (core e') \<or> m = 0)"
      if "c < length bs" for c
      using stuck_returned [OF I(1) runs assms(2) none more(1) that]
      by (auto simp: expected_def is_shutdown_def queue_view_def)
    note ret and stuck_joined [OF inv runs sync spec [OF stuck]]
      and stuck_complete [OF inv spec [OF stuck] stuck_empty [OF inv runs sync more(2) spec [OF stuck]]]
  }
  then show ?thesis using run by auto
qed

section \<open>A concrete run\<close>

text \<open>
  The coroutines of \<open>demo_bodies\<close> on a pool of two workers, one of which is in \<open>run()\<close> while the
  other first runs two plain tasks, then falls asleep and is notified again and again. At the end both coroutines are destroyed; then the
  pool is shut down, the context stopped, and the workers exit.
\<close>

abbreviation demo_act ::
    "engine_action \<Rightarrow> (nat handler list, nat) engine \<Rightarrow> (nat handler list, nat) engine option" where
  "demo_act \<equiv> engine_act fifo_timer fifo_run 0"

definition demo_empty :: "(nat handler list, nat) engine" where
  "demo_empty = (case start_runs 1 0 (engine_start demo_bodies 2 0 []) of Inr e \<Rightarrow> e)"

definition demo_submit :: "nat job \<Rightarrow> (nat handler list, nat) engine \<Rightarrow> (nat handler list, nat) engine" where
  "demo_submit job e =
     (case submit job (tp e) of Inr (f, p) \<Rightarrow> e\<lparr>tp := p, payload := payload e @ [None]\<rparr>)"

definition demo_engine :: "(nat handler list, nat) engine" where
  "demo_engine = demo_submit (Continue 1 (\<lambda>x. Inr (x + 1))) (demo_submit (Call (Inr 7)) demo_empty)"

definition demo_calls :: "engine_action list" where
  "demo_calls = [Worker 0, Worker 0, Worker 1, Worker 1, Worker 1, Worker 1, Worker 1,
   Worker 1, Worker 1, Worker 1, Notify 1, Worker 1, Notify 1, Worker 1,
   Notify 1, Worker 1, Client 1, Client 1, Client 1, Worker 0, Worker 0,
   Worker 0, Worker 0, Notify 1, Worker 1, Worker 1, Worker 1, Worker 1,
   Worker 1, Worker 1, Client 1, Client 1, Client 1, Client 1, Client 0,
   Client 0, Client 0, Notify 1, Worker 1, Worker 1, Worker 1, Worker 0,
   Worker 0, Worker 0, Worker 0, Worker 1, Worker 1, Worker 1, Worker 1,
   Client 0, Client 0, Client 0]"

definition demo_exits :: "engine_action list" where
  "demo_exits = [Worker 0, Worker 0, Worker 0, Worker 1, Worker 1, Worker 1]"

definition demo_close :: "(nat handler list, nat) engine \<Rightarrow> (nat handler list, nat) engine" where
  "demo_close e = e\<lparr>core := (core e)\<lparr>io_stopped := True\<rparr>,
     tp := (tp e)\<lparr>pool_queue := shutdown (pool_queue (tp e)), workers := map wake (workers (tp e)),
       stop_requested := [True, True], stopper := Shutdown_returned\<rparr>\<rparr>"

lemmas demo_engine_eval = engine_start_def post_work_def engine_thread_def engine_worker_def
  demo_run_eval demo_submit_def demo_empty_def pool_defs cv_wait_def wake_def queue_view_def view_def signal_def Let_def
  call_of_def map_filter_simps

lemma demo_empty_start: "start_runs 1 0 (engine_start demo_bodies 2 0 []) = Inr demo_empty"
  by (simp add: demo_empty_def demo_engine_eval)

lemma demo_engine_ends:
  "\<exists>e f. run_schedule demo_act demo_calls demo_engine = Some e \<and>
     doing (core e) = [Destroyed (Inr (Holds 1)), Destroyed (Inr (Holds 2)), Polling, Resting] \<and>
     workers (tp e) = [Run_main 0, Asleep] \<and> notify_due (tp e) = 0 \<and> stopper (tp e) = Not_called \<and>
     stop_requested (tp e) = [False, False] \<and> pool_io (core e) = [] \<and> \<not> io_stopped (core e) \<and>
     length (frames (core e)) = 2 \<and> payload e = [Some Run_io, None, None, Some (Resumption 1), Some (Resumption 0)] \<and>
     length (jobs (tp e)) = 5 \<and> denote (jobs (tp e)) ! 2 = Inr 8 \<and>
     \<not> is_shutdown (pool_queue (tp e)) \<and>
     run_schedule demo_act demo_exits (demo_close e) = Some f \<and> io_stopped (core f) \<and>
     doing (core f) = [Destroyed (Inr (Holds 1)), Destroyed (Inr (Holds 2)), Resting, Resting] \<and>
     workers (tp f) = [Exited, Exited] \<and> notify_due (tp f) = 0 \<and>
     stopper (tp f) = Shutdown_returned \<and> length (frames (core f)) = 2"
  by (simp add: demo_calls_def demo_exits_def demo_close_def demo_engine_def demo_engine_eval denote_def
      numeral_2_eq_2)

lemma demo_stuck:
  assumes "doing (core e) = [Destroyed r, Destroyed r', d, Resting]" "notify_due (tp e) = 0"
    and "length (frames (core e)) = 2" "workers (tp e) = [Exited, Exited] \<or>
      workers (tp e) = [Run_main t, Asleep] \<and> payload e ! t \<noteq> None \<and> d = Polling \<and> pool_io (core e) = [] \<and> \<not> io_stopped (core e)"
  shows "demo_act a e = None"
  using assms by (cases a) (auto simp: demo_engine_eval less_Suc_eq numeral_2_eq_2)

abbreviation demo_engine_reach :: "nat \<Rightarrow> (nat handler list, nat) engine \<Rightarrow> bool" where
  "demo_engine_reach \<equiv> reach (engine_init fifo_timer fifo_post fifo_run mset demo_bodies 1 0)
     (engine_step fifo_timer fifo_post fifo_run 0)"

lemma demo_engine_reach: "demo_engine_reach 2 demo_engine"
proof -
  let ?e = "demo_submit (Call (Inr 7)) demo_empty"
  have submits: "engine_step fifo_timer fifo_post fifo_run 0 e (demo_submit job e)"
    if "plain (payload e) job" "\<not> shutdown_flag (pool_queue (tp e))" for job e
  proof -
    have "\<exists>f p. submit job (tp e) = Inr (f, p)" using that(2) by (simp add: submit_def push_def)
    then obtain f p where p: "submit job (tp e) = Inr (f, p)" by blast
    then show ?thesis using engine_step.submit [OF that(1) p] by (simp add: demo_submit_def)
  qed
  have "demo_engine_reach 0 demo_empty"
    by (rule reach.start)
      (auto intro: engine_init.intros [OF fifo_contract _ demo_empty_start] simp del: One_nat_def)
  moreover have "engine_step fifo_timer fifo_post fifo_run 0 demo_empty ?e"
    by (rule submits) (simp_all add: demo_engine_eval)
  moreover have "engine_step fifo_timer fifo_post fifo_run 0 ?e demo_engine"
    unfolding demo_engine_def by (rule submits) (simp_all add: demo_engine_eval)
  ultimately show ?thesis by (auto simp: numeral_2_eq_2 intro: reach.more)
qed

lemma demo_engine_reach_run:
  assumes "run_schedule demo_act ls demo_engine = Some e"
  shows "demo_engine_reach (2 + length ls) e"
  by (rule run_schedule_reach_from [OF engine_act_step demo_engine_reach assms])

lemma demo_close_reach:
  assumes "demo_engine_reach k e" "workers (tp e) = [w, v]" "stop_requested (tp e) = [False, False]"
    and "stopper (tp e) = Not_called"
  shows "\<exists>k. demo_engine_reach k (demo_close e)"
proof -
  let ?e = "e\<lparr>core := (core e)\<lparr>io_stopped := True\<rparr>\<rparr>"
  have "reach (engine_init fifo_timer fifo_post fifo_run mset demo_bodies 1 0)
      (engine_step fifo_timer fifo_post fifo_run 0) k' (?e\<lparr>tp := p\<rparr>) \<Longrightarrow>
    run_schedule (\<lambda>b. if b then shutdown_begin else shutdown_continue) bs p = Some p' \<Longrightarrow>
    \<exists>k. demo_engine_reach k (?e\<lparr>tp := p'\<rparr>)" for bs p p' k'
  proof (induction bs arbitrary: p k')
    case (Cons b bs)
    then obtain q where q: "(if b then shutdown_begin else shutdown_continue) p = Some q"
      "run_schedule (\<lambda>b. if b then shutdown_begin else shutdown_continue) bs q = Some p'"
      by (auto split: option.splits)
    have "engine_step fifo_timer fifo_post fifo_run 0 (?e\<lparr>tp := p\<rparr>) (?e\<lparr>tp := q\<rparr>)"
      using q(1) engine_step.shutdown_begin [of "?e\<lparr>tp := p\<rparr>" q] engine_step.shutdown_continue [of "?e\<lparr>tp := p\<rparr>" q]
      by (simp split: if_splits)
    then show ?case using Cons.IH [OF reach.more [OF Cons.prems(1)] q(2)] by blast
  qed auto
  from this [where p = "tp e" and bs = "[True, False, False, False, False]"]
  show ?thesis
    using reach.more [OF assms(1) engine_step.stop] assms(2-4)
    by (simp add: demo_close_def pool_defs tq_defs wake_def)
qed


theorem engine_refines_witness:
  "\<exists>k e. demo_engine_reach k e \<and> payload e = [Some Run_io, None, None, Some (Resumption 1), Some (Resumption 0)] \<and>
     length (jobs (tp e)) = 5 \<and> (\<exists>k. reach pool_init pool_step k (tp e)) \<and> \<not> misuse (view e) \<and>
     call_of (payload e) (workers (tp e) ! 1) = None \<and> doing (core e) ! 3 = Resting"
proof -
  obtain e where run: "run_schedule demo_act demo_calls demo_engine = Some e"
    and e: "workers (tp e) = [Run_main 0, Asleep]" "payload e = [Some Run_io, None, None, Some (Resumption 1), Some (Resumption 0)]"
    using demo_engine_ends by blast
  note r = demo_engine_reach_run [OF run] and R = engine_refines [OF demo_engine_reach_run [OF run]]
  obtain k where "reach (coro_pool_init fifo_timer fifo_post fifo_run mset demo_bodies 1)
      (coro_pool_step fifo_timer fifo_post fifo_run) k (view e)" using R by blast
  then have "\<not> misuse (view e)"
    using coros.reach_state coro_pool_invD(1) by blast
  moreover have jobs: "length (jobs (tp e)) = 5" using R e(2) by simp
  moreover have "length demo_bodies + 1 = 3" by (simp add: demo_bodies_def)
  then have "doing (core e) ! 3 = Resting"
    using R e(1) by (simp add: All_less_Suc2 eval_nat_numeral call_of_def)
  moreover have "\<exists>k. reach pool_init pool_step k (tp e)" using R by blast
  moreover have "call_of (payload e) (workers (tp e) ! 1) = None" using e(1) by (simp add: call_of_def)
  ultimately show ?thesis using r e(2) by blast
qed

theorem engine_gets_return_witness:
  "\<exists>k k' e f. demo_engine_reach k e \<and> length demo_calls \<le> engine_work mset demo_engine \<and>
     run_schedule demo_act demo_calls demo_engine = Some e \<and> \<not> is_shutdown (pool_queue (tp e)) \<and>
     doing (core e) ! 0 = Destroyed (fulfilled (body_value True (demo_bodies ! 0))) \<and>
     results (tp e) 2 = Some (Inr 8) \<and>
     demo_engine_reach k' (demo_close e) \<and>
     run_schedule demo_act demo_exits (demo_close e) = Some f \<and> joined (tp f)"
proof -
  obtain e f where run: "run_schedule demo_act demo_calls demo_engine = Some e"
    and e: "doing (core e) = [Destroyed (Inr (Holds 1)), Destroyed (Inr (Holds 2)), Polling, Resting]"
      "workers (tp e) = [Run_main 0, Asleep]" "notify_due (tp e) = 0" "stopper (tp e) = Not_called"
      "stop_requested (tp e) = [False, False]" "pool_io (core e) = []" "\<not> io_stopped (core e)"
      "length (frames (core e)) = 2" "\<not> is_shutdown (pool_queue (tp e))"
      "payload e = [Some Run_io, None, None, Some (Resumption 1), Some (Resumption 0)]"
      "length (jobs (tp e)) = 5" "denote (jobs (tp e)) ! 2 = Inr 8"
    and run': "run_schedule demo_act demo_exits (demo_close e) = Some f"
    and f: "io_stopped (core f)"
      "doing (core f) = [Destroyed (Inr (Holds 1)), Destroyed (Inr (Holds 2)), Resting, Resting]"
      "workers (tp f) = [Exited, Exited]" "notify_due (tp f) = 0" "stopper (tp f) = Shutdown_returned"
      "length (frames (core f)) = 2"
    using demo_engine_ends by blast
  have "settled (tp demo_engine)" "1 < length (workers (tp demo_engine))"
    by (simp_all add: demo_engine_def demo_engine_eval settled_def)
  note gets = engine_gets_return [OF demo_engine_reach fifo_waits this run]
  have stuck: "\<forall>a. demo_act a e = None" using demo_stuck [of e] e by simp
  then have "doing (core e) ! 0 = Destroyed (fulfilled (body_value True (demo_bodies ! 0)))"
    using gets e(6,9) by (auto simp: demo_bodies_def)
  moreover have "results (tp e) 2 = Some (Inr 8)"
    using gets stuck e(10-12) by auto
  moreover obtain k' where close: "demo_engine_reach k' (demo_close e)"
    using demo_close_reach [OF demo_engine_reach_run [OF run] e(2,5,4)] by blast
  have "settled (tp (demo_close e))" "1 < length (workers (tp (demo_close e)))"
    by (simp_all add: demo_close_def settled_def e)
  note exits = engine_gets_return [OF close fifo_waits this run']
  have "demo_act a f = None" for a using demo_stuck [of f] f by simp
  then have "joined (tp f)" using exits f(1,5) by blast
  ultimately show ?thesis using demo_engine_reach_run [OF run] gets run run' close e(9) by blast
qed

end
