(* ===== verification/Asio_Context.thy ===== *)
theory Asio_Context
  imports Async_Result Io_Context
begin

text \<open>
  \<open>include/ate/asio_context.hpp\<close>: the integration of \<open>boost::asio\<close>, whose \<open>io_context\<close> is a
  parameter with the contract of \<open>Io_Context\<close>. The tasks that sit in \<open>io_context::run()\<close> are pool
  tasks that wait for the event that the context is stopped.
\<close>

section \<open>The context\<close>

text \<open>\<open>stop_event\<close> is the number of the event that this context is stopped.\<close>

record ('io, 'v) asio =
  io_ctx :: 'io
  promises :: "'v outcome option list"
  work_guard :: bool
  io_futures :: "nat list"
  stop_event :: nat

text \<open>
  The constructor: submit \<open>io_context::run()\<close> once per thread, keeping the futures; an
  exception of \<open>submit\<close> leaves the loop. \<open>u\<close> is the value of a \<open>void\<close> future.
\<close>

primrec submit_runs :: "nat \<Rightarrow> nat \<Rightarrow> 'v \<Rightarrow> 'v pool \<Rightarrow> (nat list \<times> 'v pool) outcome" where
  "submit_runs 0 e u p = Inr ([], p)"
| "submit_runs (Suc n) e u p =
     and_then (submit (Until e (Inr u)) p) (\<lambda>(f, p').
       and_then (submit_runs n e u p') (\<lambda>(fs, p''). Inr (f # fs, p'')))"

definition AsioContext ::
    "'io \<Rightarrow> nat \<Rightarrow> nat \<Rightarrow> 'v \<Rightarrow> 'v pool \<Rightarrow> (('io, 'v) asio \<times> 'v pool) outcome" where
  "AsioContext io io_threads e u p =
     and_then (submit_runs io_threads e u p) (\<lambda>(fs, p').
       Inr (\<lparr>io_ctx = io, promises = [], work_guard = True, io_futures = fs, stop_event = e\<rparr>, p'))"

text \<open>
  The destructor: drop the work guard and stop the context, which lets the \<open>run()\<close> calls return;
  then wait for their futures.
\<close>

definition asio_stop :: "('io, 'v) asio \<Rightarrow> 'v pool \<Rightarrow> ('io, 'v) asio \<times> 'v pool" where
  "asio_stop a p = (a\<lparr>work_guard := False\<rparr>, signal (stop_event a) p)"

definition asio_joined :: "('io, 'v) asio \<Rightarrow> 'v pool \<Rightarrow> bool" where
  "asio_joined a p \<longleftrightarrow> list_all (\<lambda>f. results p f \<noteq> None) (io_futures a)"

text \<open>
  Then the members are destroyed, and with the context the handlers it still holds: a promise
  that is destroyed unset leaves its future with the error \<open>broken_promise\<close>.
\<close>

definition broken_promise :: "'v outcome" where
  "broken_promise = Inl (Future_error ''broken_promise'')"

definition asio_release :: "('io, 'v) asio \<Rightarrow> ('io, 'v) asio" where
  "asio_release a = a\<lparr>promises := map (\<lambda>r. case r of None \<Rightarrow> Some broken_promise | Some r \<Rightarrow> Some r)
     (promises a)\<rparr>"

definition async_after :: "('d \<Rightarrow> 'v handler \<Rightarrow> 'io \<Rightarrow> 'io) \<Rightarrow> 'd \<Rightarrow> 'v outcome
    \<Rightarrow> ('io, 'v) asio \<Rightarrow> nat \<times> ('io, 'v) asio" where
  "async_after start_timer d f a =
     (let n = length (promises a) in
      (n, a\<lparr>promises := promises a @ [None], io_ctx := start_timer d (After n f) (io_ctx a)\<rparr>))"

definition asio_post :: "('v handler \<Rightarrow> 'io \<Rightarrow> 'io) \<Rightarrow> 'v outcome
    \<Rightarrow> ('io, 'v) asio \<Rightarrow> nat \<times> ('io, 'v) asio" where
  "asio_post post_io f a =
     (let n = length (promises a) in
      (n, a\<lparr>promises := promises a @ [None], io_ctx := post_io (Post n f) (io_ctx a)\<rparr>))"

text \<open>A thread inside \<open>run()\<close> takes one ready handler, if any, and calls it.\<close>

definition asio_run_one :: "('io \<Rightarrow> (string option \<times> 'v handler) option \<times> 'io)
    \<Rightarrow> ('io, 'v) asio \<Rightarrow> ('io, 'v) asio" where
  "asio_run_one run_one a =
     (case run_one (io_ctx a) of
        (None, io) \<Rightarrow> a\<lparr>io_ctx := io\<rparr>
      | (Some (ec, h), io) \<Rightarrow> a\<lparr>io_ctx := io, promises := call_handler ec h (promises a)\<rparr>)"

section \<open>Clients and the threads in run()\<close>

datatype ('d, 'v) asio_op = Op_after 'd "'v outcome" | Op_post "'v outcome" | Op_run

fun asio_exec :: "('d \<Rightarrow> 'v handler \<Rightarrow> 'io \<Rightarrow> 'io) \<Rightarrow> ('v handler \<Rightarrow> 'io \<Rightarrow> 'io)
    \<Rightarrow> ('io \<Rightarrow> (string option \<times> 'v handler) option \<times> 'io) \<Rightarrow> ('d, 'v) asio_op
    \<Rightarrow> ('io, 'v) asio \<Rightarrow> ('io, 'v) asio" where
  "asio_exec start_timer post_io run_one (Op_after d f) a = snd (async_after start_timer d f a)"
| "asio_exec start_timer post_io run_one (Op_post f) a = snd (asio_post post_io f a)"
| "asio_exec start_timer post_io run_one Op_run a = asio_run_one run_one a"

text \<open>The handlers a sequence of operations registers, in order: the \<open>n\<close>-th is for promise \<open>n\<close>.\<close>

fun registered :: "nat \<Rightarrow> ('d, 'v) asio_op list \<Rightarrow> 'v handler list" where
  "registered n [] = []"
| "registered n (Op_after d f # ops) = After n f # registered (Suc n) ops"
| "registered n (Op_post f # ops) = Post n f # registered (Suc n) ops"
| "registered n (Op_run # ops) = registered n ops"

text \<open>
  What a call of a handler with an error code (its message, if any) must leave in its promise.
\<close>

fun delivers :: "string option \<Rightarrow> 'v handler \<Rightarrow> 'v outcome \<Rightarrow> bool" where
  "delivers None (After n f) r \<longleftrightarrow> r = f"
| "delivers (Some msg) (After n f) r \<longleftrightarrow> r = Inl (Runtime_error (''Timer error: '' @ msg))"
| "delivers ec (Post n f) r \<longleftrightarrow> r = f"
| "delivers ec (Resume c) r \<longleftrightarrow> False"

text \<open>The calls of handlers, with their error codes, that a sequence of operations makes.\<close>

definition asio_call :: "('io \<Rightarrow> (string option \<times> 'v handler) option \<times> 'io) \<Rightarrow> ('d, 'v) asio_op
    \<Rightarrow> ('io, 'v) asio \<Rightarrow> (string option \<times> 'v handler) list" where
  "asio_call run_one x a =
     (case x of Op_run \<Rightarrow> (case fst (run_one (io_ctx a)) of None \<Rightarrow> [] | Some c \<Rightarrow> [c]) | _ \<Rightarrow> [])"

fun asio_calls :: "('d \<Rightarrow> 'v handler \<Rightarrow> 'io \<Rightarrow> 'io) \<Rightarrow> ('v handler \<Rightarrow> 'io \<Rightarrow> 'io)
    \<Rightarrow> ('io \<Rightarrow> (string option \<times> 'v handler) option \<times> 'io) \<Rightarrow> ('d, 'v) asio_op list
    \<Rightarrow> ('io, 'v) asio \<Rightarrow> (string option \<times> 'v handler) list" where
  "asio_calls start_timer post_io run_one [] a = []"
| "asio_calls start_timer post_io run_one (x # ops) a =
     asio_call run_one x a
     @ asio_calls start_timer post_io run_one ops (asio_exec start_timer post_io run_one x a)"

fun handler_promise :: "'v handler \<Rightarrow> nat option" where
  "handler_promise (After n f) = Some n"
| "handler_promise (Post n f) = Some n"
| "handler_promise (Resume c) = None"

text \<open>
  The promise of handler \<open>h\<close> against the calls \<open>cs\<close> so far: unset if \<open>h\<close> has not been called,
  else called once and set to what that call must deliver.
\<close>

definition fulfilled_by :: "(string option \<times> 'v handler) list \<Rightarrow> 'v handler \<Rightarrow> 'v outcome option \<Rightarrow> bool"
  where
  "fulfilled_by cs h v \<longleftrightarrow>
     (case v of
        None \<Rightarrow> filter (\<lambda>c. snd c = h) cs = []
      | Some r \<Rightarrow> (\<exists>ec. filter (\<lambda>c. snd c = h) cs = [(ec, h)] \<and> delivers ec h r))"

lemma fulfilled_by_other: "h' \<noteq> h \<Longrightarrow> fulfilled_by (cs @ [(ec, h')]) h v = fulfilled_by cs h v"
  by (cases v) (simp_all add: fulfilled_by_def)

definition asio_inv :: "('io \<Rightarrow> 'v handler multiset) \<Rightarrow> 'v handler list
    \<Rightarrow> (string option \<times> 'v handler) list \<Rightarrow> ('io, 'v) asio \<Rightarrow> bool" where
  "asio_inv pending hs cs a \<longleftrightarrow>
     length (promises a) = length hs \<and>
     (\<forall>n < length hs. handler_promise (hs ! n) = Some n) \<and>
     pending (io_ctx a) =
       image_mset ((!) hs) (mset_set {n. n < length hs \<and> promises a ! n = None}) \<and>
     snd ` set cs \<subseteq> set hs \<and>
     (\<forall>n < length hs. fulfilled_by cs (hs ! n) (promises a ! n))"

lemma asio_inv_register:
  assumes inv: "asio_inv pending hs cs a" and h: "handler_promise h = Some (length hs)"
    and io: "pending io = add_mset h (pending (io_ctx a))"
  shows "asio_inv pending (hs @ [h]) cs (a\<lparr>promises := promises a @ [None], io_ctx := io\<rparr>)"
proof -
  note i = inv [unfolded asio_inv_def]
  let ?A = "{n. n < length hs \<and> promises a ! n = None}"
  have "{n. n < Suc (length hs) \<and> (promises a @ [None]) ! n = None} = insert (length hs) ?A"
    using i by (auto simp: nth_append less_Suc_eq)
  then have set: "mset_set {n. n < Suc (length hs) \<and> (promises a @ [None]) ! n = None}
      = add_mset (length hs) (mset_set ?A)"
    by simp
  have "image_mset ((!) (hs @ [h])) (mset_set ?A) = image_mset ((!) hs) (mset_set ?A)"
    by (rule image_mset_cong) (auto simp: nth_append)
  then have pend: "pending io = image_mset ((!) (hs @ [h]))
      (mset_set {n. n < Suc (length hs) \<and> (promises a @ [None]) ! n = None})"
    using i io by (simp add: set)
  have "h \<notin> set hs" using i h by (auto simp: in_set_conv_nth)
  then have "fulfilled_by cs h None"
    using i by (auto simp: fulfilled_by_def filter_empty_conv)
  then show ?thesis
    unfolding asio_inv_def using i h pend by (auto simp: nth_append less_Suc_eq)
qed

lemma asio_inv_run:
  assumes inv: "asio_inv pending hs cs a" and io: "h \<in># pending (io_ctx a)"
    "pending io = pending (io_ctx a) - {#h#}"
  shows "asio_inv pending hs (cs @ [(ec, h)])
    (a\<lparr>io_ctx := io, promises := call_handler ec h (promises a)\<rparr>)"
proof -
  note i = inv [unfolded asio_inv_def]
  let ?A = "{n. n < length hs \<and> promises a ! n = None}"
  obtain n where n: "n < length hs" "promises a ! n = None" "h = hs ! n"
    using io(1) i by auto
  have hn: "handler_promise h = Some n" using i n by simp
  obtain r where call: "call_handler ec h (promises a) = (promises a)[n := Some r]"
    and deliv: "delivers ec h r"
    using hn by (cases h; cases ec; auto simp: set_promise_def timer_outcome_def)
  have "{k. k < length hs \<and> (promises a)[n := Some r] ! k = None} = ?A - {n}"
    using i n by (auto simp: nth_list_update)
  moreover have "mset_set (?A - {n}) = mset_set ?A - {#n#}"
    using n by (simp add: mset_set_Diff)
  moreover have "image_mset ((!) hs) (mset_set ?A - {#n#}) = image_mset ((!) hs) (mset_set ?A) - {#h#}"
    using n by (subst image_mset_Diff) auto
  ultimately have pend: "pending io =
      image_mset ((!) hs) (mset_set {k. k < length hs \<and> (promises a)[n := Some r] ! k = None})"
    using i io by simp
  have "fulfilled_by cs h None" using i n by metis
  then have "fulfilled_by (cs @ [(ec, h)]) h (Some r)"
    using deliv by (auto simp: fulfilled_by_def)
  note own = this
  have "hs ! k \<noteq> h" if "k < length hs" "k \<noteq> n" for k
    using i hn that by (metis option.inject)
  note other = this
  have "fulfilled_by (cs @ [(ec, h)]) (hs ! k) ((promises a)[n := Some r] ! k)"
    if "k < length hs" for k
  proof (cases "k = n")
    case True
    then show ?thesis using own i n by simp
  next
    case False
    have "fulfilled_by cs (hs ! k) (promises a ! k)" using i that by blast
    then show ?thesis
      using fulfilled_by_other [OF other [OF that False, symmetric]] False by simp
  qed
  then show ?thesis
    unfolding asio_inv_def call using i pend n by auto
qed

lemma asio_exec_inv:
  assumes c: "io_contract start_timer post_io run_one pending" and inv: "asio_inv pending hs cs a"
  shows "asio_inv pending (hs @ registered (length hs) [x]) (cs @ asio_call run_one x a)
    (asio_exec start_timer post_io run_one x a)"
proof -
  have len: "length (promises a) = length hs" using inv by (simp add: asio_inv_def)
  show ?thesis
  proof (cases x)
    case (Op_after d f)
    then show ?thesis
      using c len asio_inv_register [OF inv, of "After (length hs) f" "start_timer d (After (length hs) f) (io_ctx a)"]
      by (simp add: async_after_def Let_def io_contract_def asio_call_def)
  next
    case (Op_post f)
    then show ?thesis
      using c len asio_inv_register [OF inv, of "Post (length hs) f" "post_io (Post (length hs) f) (io_ctx a)"]
      by (simp add: asio_post_def Let_def io_contract_def asio_call_def)
  next
    case Op_run
    obtain q io where q: "run_one (io_ctx a) = (q, io)" by (cases "run_one (io_ctx a)")
    show ?thesis
    proof (cases q)
      case None
      then have "pending io = pending (io_ctx a)" using c q by (simp add: io_contract_def)
      then show ?thesis
        using inv Op_run None q by (simp add: asio_run_one_def asio_inv_def asio_call_def)
    next
      case (Some eh)
      obtain ec h where eh: "eh = (ec, h)" by (cases eh)
      then have "h \<in># pending (io_ctx a)" "pending io = pending (io_ctx a) - {#h#}"
        using c q Some by (auto simp: io_contract_def)
      then show ?thesis
        using asio_inv_run [OF inv] Op_run Some q eh by (simp add: asio_run_one_def asio_call_def)
    qed
  qed
qed

lemma registered_Cons:
  "registered n (x # ops) = registered n [x] @ registered (n + length (registered n [x])) ops"
  by (cases x) simp_all

lemma asio_run_inv:
  assumes c: "io_contract start_timer post_io run_one pending" and inv: "asio_inv pending hs cs a"
  shows "asio_inv pending (hs @ registered (length hs) ops)
    (cs @ asio_calls start_timer post_io run_one ops a)
    (foldl (\<lambda>a x. asio_exec start_timer post_io run_one x a) a ops)"
  using inv
proof (induction ops arbitrary: hs cs a)
  case (Cons x ops)
  show ?case
    using Cons.IH [OF asio_exec_inv [OF c Cons.prems, of x]] registered_Cons [of "length hs" x ops]
    by simp
qed simp

section \<open>The threads of the context inside the pool\<close>

text \<open>The constructor appends its tasks to the ones submitted before.\<close>

lemma submit_runs_eq:
  assumes "submit_runs n e u p = Inr (fs, p')"
  shows "jobs p' = jobs p @ replicate n (Until e (Inr u)) \<and>
    fs = [length (jobs p)..<length (jobs p) + n] \<and>
    workers p' = workers p \<and> started p' = started p \<and> events p' = events p"
  using assms
proof (induction n arbitrary: p fs)
  case (Suc n)
  then obtain q gs where q: "submit (Until e (Inr u)) p = Inr (length (jobs p), q)"
      "submit_runs n e u q = Inr (gs, p')" "fs = length (jobs p) # gs"
    by (auto simp: and_then_def submit_eq split: sum.splits)
  then have "jobs q = jobs p @ [Until e (Inr u)]" "workers q = workers p" "started q = started p"
    "events q = events p"
    by (auto simp: submit_eq)
  then show ?case using Suc.IH [OF q(2)] q(3) by (simp add: upt_rec)
qed simp

lemma submit_runs_reach:
  assumes "reach pool_init pool_step m p" "submit_runs n e u p = Inr (fs, p')"
  shows "\<exists>m. reach pool_init pool_step m p'"
  using assms
proof (induction n arbitrary: m p fs)
  case (Suc n)
  then obtain f q gs where s: "submit (Until e (Inr u)) p = Inr (f, q)"
      "submit_runs n e u q = Inr (gs, p')"
    by (auto simp: and_then_def split: sum.splits)
  show ?case
    using Suc.IH [OF reach.more [OF Suc.prems(1) pool_step.submit [OF _ s(1)]] s(2)] by simp
qed auto

text \<open>Started tasks without a result occupy a worker each.\<close>

lemma books_unfinished_card:
  assumes books: "pool_books p" and sub: "A \<subseteq> set (started p)" and none: "\<And>t. t \<in> A \<Longrightarrow> results p t = None"
  shows "card A \<le> length (workers p)"
proof -
  have "\<forall>t \<in> A. \<exists>i < length (workers p). executing (workers p ! i) t"
    using pool_booksD(5) [OF books] sub none by blast
  then obtain w where w: "\<And>t. t \<in> A \<Longrightarrow> w t < length (workers p) \<and> executing (workers p ! w t) t"
    by metis
  have "inj_on w A"
  proof (rule inj_onI)
    fix t s
    assume "t \<in> A" "s \<in> A" "w t = w s"
    then have "executing (workers p ! w t) t" "executing (workers p ! w t) s" using w by metis+
    then show "t = s" by (auto simp: executing_def)
  qed
  moreover have "w ` A \<subseteq> {..<length (workers p)}" using w by auto
  ultimately show ?thesis using card_inj_on_le [of w A "{..<length (workers p)}"] by simp
qed

text \<open>
  The \<open>k\<close> tasks before number \<open>l\<close> wait for event \<open>e\<close>, which has not happened; there are no more
  workers than that, and no task from \<open>l\<close> on has been started.
\<close>

definition crowded :: "nat \<Rightarrow> nat \<Rightarrow> nat \<Rightarrow> 'v pool \<Rightarrow> bool" where
  "crowded e k l p \<longleftrightarrow> pool_books p \<and> length (workers p) \<le> k \<and> k \<le> l \<and> l \<le> length (jobs p) \<and>
     (\<forall>t. l - k \<le> t \<longrightarrow> t < l \<longrightarrow> (\<exists>r. jobs p ! t = Until e r)) \<and> e \<notin> set (events p) \<and>
     length (started p) \<le> l"

lemma crowded_none:
  assumes "pool_books p" "e \<notin> set (events p)" "jobs p ! t = Until e r"
  shows "results p t = None"
  using pool_booksD(7) [OF assms(1), of t] assms(2,3) by (cases "results p t") auto

lemma pool_act_frame:
  assumes "pool_act a p = Some p'" and "a \<noteq> Do_signal e"
  shows "length (workers p') = length (workers p) \<and> (e \<in> set (events p') \<longleftrightarrow> e \<in> set (events p)) \<and>
    (started p' = started p \<or> (\<exists>t. started p' = started p @ [t] \<and> results p' = results p))"
  using assms
  by (cases a) (auto simp: submit_eq notify_one_def spurious_wakeup_def worker_step_def run_job_def
      take_task_def shutdown_begin_def shutdown_continue_def signal_def
      split: if_splits sum.splits option.splits worker.splits waited.splits stopper.splits prod.splits)

lemma crowded_act:
  assumes crowd: "crowded e k l p" and act: "pool_act a p = Some p'" and a: "a \<noteq> Do_signal e"
  shows "crowded e k l p'"
proof -
  note c = crowd [unfolded crowded_def]
  note f = pool_act_frame [OF act a]
  have books: "pool_books p'" using pool_books_step [OF pool_act_step [OF act]] c by blast
  obtain ks where ks: "jobs p' = jobs p @ ks" using step_jobs [OF pool_act_step [OF act]] by blast
  have runs: "\<exists>r. jobs p' ! t = Until e r" if "l - k \<le> t" "t < l" for t
    using c that by (simp add: ks nth_append)
  have "length (started p') \<le> l"
  proof (rule ccontr)
    assume more: "\<not> length (started p') \<le> l"
    then have len: "length (started p') = Suc l" "length (started p) = l" "results p' = results p"
      using f c by auto
    have old: "pool_books p" using c by blast
    have "l \<notin> set (started p)" using pool_books_started_upt(4) [OF old] len(2) by simp
    then have "results p' l = None" using pool_booksD(5) [OF old, of l] len(3) by simp
    moreover have "results p' t = None" if "l - k \<le> t" "t < l" for t
      using runs [OF that] crowded_none [OF books, of e t] f c by blast
    ultimately have none: "results p' t = None" if "t \<in> {l - k..l}" for t
      using that by (cases "t = l") simp_all
    have "{l - k..l} \<subseteq> set (started p')"
      unfolding pool_books_started_upt(4) [OF books] len(1) by (rule subsetI) simp
    from books_unfinished_card [OF books this none] have "Suc l - (l - k) \<le> length (workers p')"
      by simp
    moreover have "length (workers p') \<le> k" "k \<le> l" using f c by simp_all
    ultimately show False by linarith
  qed
  then show ?thesis using c f books runs by (auto simp: crowded_def ks)
qed

lemma crowded_run:
  assumes "crowded e k l p" "run_schedule pool_act ls p = Some p'" "Do_signal e \<notin> set ls"
  shows "crowded e k l p'"
  using assms
proof (induction ls arbitrary: p)
  case (Cons x ls)
  then obtain q where q: "pool_act x p = Some q" "run_schedule pool_act ls q = Some p'"
    by (auto split: option.splits)
  then show ?case using Cons.IH [OF _ q(2)] crowded_act [OF Cons.prems(1) q(1)] Cons.prems(3) by auto
qed simp

section \<open>Properties\<close>

text \<open>
  C34: Every future of \<open>async_after\<close> and \<open>post\<close> is fulfilled exactly when its handler has been
  called, once, and with the outcome that the error code of this call asks for. For every sequence
  of calls and of handlers taken by the threads in \<open>run()\<close>, in any order the library chooses,
  the \<open>n\<close>-th promise is unset as long as the \<open>n\<close>-th handler is pending. Else this handler has been
  called once: with an error code, and the promise of a timer holds the timer error with its
  message; or without, and it holds what the user's callable returned or threw. A promise that is
  unset when the context is destroyed is broken.
\<close>

lemma asio_promises_correct:
  assumes "io_contract start_timer post_io run_one pending" and "pending io = {#}"
    and "AsioContext io k e u p = Inr (a, p')"
    and "b = foldl (\<lambda>a x. asio_exec start_timer post_io run_one x a) a ops"
    and "n < length (promises b)"
  shows "length (promises b) = length (registered 0 ops) \<and>
    (case promises b ! n of
       None \<Rightarrow> registered 0 ops ! n \<in># pending (io_ctx b) \<and>
         promises (asio_release b) ! n = Some broken_promise
     | Some r \<Rightarrow> registered 0 ops ! n \<notin># pending (io_ctx b) \<and>
         promises (asio_release b) ! n = Some r \<and>
         (\<exists>ec. filter (\<lambda>c. snd c = registered 0 ops ! n)
             (asio_calls start_timer post_io run_one ops a) = [(ec, registered 0 ops ! n)] \<and>
           delivers ec (registered 0 ops ! n) r))"
proof -
  have "promises a = []" "io_ctx a = io"
    using assms(3) by (auto simp: AsioContext_def and_then_def split: sum.splits prod.splits)
  then have "asio_inv pending [] [] a"
    using assms(2) by (simp add: asio_inv_def)
  note inv = asio_run_inv [OF assms(1) this, of ops, folded assms(4), simplified, unfolded asio_inv_def]
  have "m = n" if "m < length (registered 0 ops)" "registered 0 ops ! m = registered 0 ops ! n" for m
    using that inv assms(5) by (metis option.inject)
  then have "promises b ! n = None \<longleftrightarrow> registered 0 ops ! n \<in># pending (io_ctx b)"
    using inv assms(5) by (auto simp: image_iff)
  moreover have "fulfilled_by (asio_calls start_timer post_io run_one ops a) (registered 0 ops ! n)
      (promises b ! n)"
    using inv assms(5) by auto
  ultimately show ?thesis
    using inv assms(5) by (auto simp: asio_release_def fulfilled_by_def split: option.splits)
qed

text \<open>
  C36: An \<open>AsioContext\<close> with as many threads as the pool has workers starves the pool. Whatever
  the pool has done before and whatever happens afterwards (submissions, notifications, work, even a
  shutdown), as long as the context is not stopped no task that is submitted after its
  constructor is ever started or gets a result, and no \<open>run()\<close> call returns.
\<close>

lemma asio_starves_pool:
  assumes "reach pool_init pool_step m p" and "AsioContext io k e u p = Inr (a, p1)"
    and "thread_count p \<le> k" and "e \<notin> set (events p)"
    and "run_schedule pool_act ls p1 = Some p2" and "Do_signal e \<notin> set ls"
  shows "(\<forall>t. length (jobs p1) \<le> t \<longrightarrow> t \<notin> set (started p2) \<and> results p2 t = None) \<and>
    (\<forall>f \<in> set (io_futures a). results p2 f = None)"
proof -
  obtain fs where fs: "submit_runs k e u p = Inr (fs, p1)" "io_futures a = fs"
    using assms(2) by (auto simp: AsioContext_def and_then_def split: sum.splits)
  note S = submit_runs_eq [OF fs(1)]
  obtain m1 where "reach pool_init pool_step m1 p1" using submit_runs_reach [OF assms(1) fs(1)] by blast
  then have "pool_books p1" by (rule books.reach_state)
  moreover have "length (started p1) \<le> length (jobs p1)"
    using pool_books_started_upt(2) [OF \<open>pool_books p1\<close>] .
  ultimately have "crowded e k (length (jobs p1)) p1"
    using S assms(3,4) by (auto simp: crowded_def thread_count_def nth_append)
  then have crowd: "crowded e k (length (jobs p1)) p2"
    using crowded_run assms(5,6) by blast
  then have books: "pool_books p2" by (simp add: crowded_def)
  have "t \<notin> set (started p2)" if "length (jobs p1) \<le> t" for t
    using crowd that pool_books_started_upt(4) [OF books] by (auto simp: crowded_def)
  moreover have "results p2 f = None" if "f \<in> set (io_futures a)" for f
    using crowd that S fs(2) crowded_none [OF books, of e f] by (auto simp: crowded_def)
  ultimately show ?thesis using pool_booksD(5) [OF books] by blast
qed

text \<open>
  C35: The destructor of an \<open>AsioContext\<close> returns. If, when it is called, no task of the pool other
  than the \<open>run()\<close> calls of this context is blocked on an outside event and no shutdown is
  under way, then, after it has stopped the context, every run of the pool's workers is bounded,
  and when none of them can go on, all the \<open>run()\<close> calls it waits for have returned.
\<close>

lemma asio_destructor_returns:
  assumes "reach pool_init pool_step m p" and "AsioContext io k e u p = Inr (a, p1)"
    and "run_schedule pool_act ls p1 = Some p2" and "asio_stop a p2 = (a', p3)"
    and "\<And>d r. Until d r \<in> set (jobs p2) \<Longrightarrow> d = stop_event a \<or> d \<in> set (events p2)"
    and "settled p2" and "list_all internal ms" and "run_schedule pool_act ms p3 = Some p4"
  shows "length ms \<le> pool_weight p3 \<and>
    ((\<forall>b. internal b \<longrightarrow> pool_act b p4 = None) \<longrightarrow> asio_joined a' p4)"
proof -
  obtain fs where fs: "submit_runs k e u p = Inr (fs, p1)" "io_futures a = fs"
    using assms(2) by (auto simp: AsioContext_def and_then_def split: sum.splits)
  obtain m1 where m1: "reach pool_init pool_step m1 p1"
    using submit_runs_reach [OF assms(1) fs(1)] by blast
  note r2 = reach_run [OF m1 assms(3)]
  have p3: "p3 = signal (stop_event a) p2" "io_futures a' = fs"
    using assms(4) fs(2) by (auto simp: asio_stop_def)
  have ev: "events_done p3" and settled: "settled p3"
    using assms(5,6) by (auto simp: p3(1) signal_def events_done_def settled_def list_all_iff split: job.splits)
  have r3: "reach pool_init pool_step (Suc (m1 + length ls)) p3"
    unfolding p3 by (rule reach.more [OF r2 pool_step.signal])
  note run = internal_run [OF books.reach_state [OF r3] sync.reach_state [OF r3] settled assms(7,8)]
  have lt: "f < length (jobs p4)" if "f \<in> set fs" for f
    using that submit_runs_eq [OF fs(1)] run_jobs [OF assms(3)] run p3(1) by (auto simp: signal_def)
  have "results p4 f \<noteq> None"
    if stuck: "\<forall>b. internal b \<longrightarrow> pool_act b p4 = None" and f: "f \<in> set fs" for f
  proof -
    have "worker_step i p4 = None" "notify_one i p4 = None" for i
      using stuck spec [OF stuck, of "Do_work i"] spec [OF stuck, of "Do_notify i"] by simp_all
    moreover have "events_done p4" using ev run by (metis events_done_def)
    ultimately show ?thesis
      using quiescent_done [of p4 f] run lt [OF f] by simp
  qed
  then show ?thesis using run p3(2) by (auto simp: asio_joined_def list_all_iff)
qed

section \<open>Concrete runs\<close>

definition asio_ops :: "(nat, nat) asio_op list" where
  "asio_ops = [Op_after 100 (Inr 42), Op_post (Inl (User_exn ''x'')), Op_run]"

definition asio_demo :: "(nat handler list, nat) asio \<times> nat pool" where
  "asio_demo = projr (AsioContext [] 1 7 0 (ThreadPool 1 0))"

lemma asio_demo_run: "AsioContext [] 1 7 0 (ThreadPool 1 0) = Inr (fst asio_demo, snd asio_demo)"
  by (simp add: asio_demo_def AsioContext_def pool_defs tq_defs Let_def)

text \<open>A library whose timers all end with an error.\<close>

definition abort_run :: "'v handler list \<Rightarrow> (string option \<times> 'v handler) option \<times> 'v handler list" where
  "abort_run io = (case io of [] \<Rightarrow> (None, []) | h # hs \<Rightarrow> (Some (Some ''aborted'', h), hs))"

lemma abort_contract: "io_contract fifo_timer fifo_post abort_run mset"
  by (auto simp: io_contract_def fifo_timer_def fifo_post_def abort_run_def split: list.splits)

lemma asio_promises_correct_witness:
  "\<exists>b. promises b = [Some (Inl (Runtime_error ''Timer error: aborted'')), None] \<and>
     b = foldl (\<lambda>a x. asio_exec fifo_timer fifo_post abort_run x a) (fst asio_demo) asio_ops \<and>
     delivers (Some ''aborted'') (After 0 (Inr (42 :: nat)))
       (Inl (Runtime_error ''Timer error: aborted'')) \<and>
     Post 1 (Inl (User_exn ''x'')) \<in># mset (io_ctx b) \<and>
     promises (asio_release b) ! 1 = Some broken_promise"
proof -
  define b where "b = foldl (\<lambda>a x. asio_exec fifo_timer fifo_post abort_run x a) (fst asio_demo) asio_ops"
  have a: "promises (fst asio_demo) = []" "io_ctx (fst asio_demo) = []"
    by (simp_all add: asio_demo_def AsioContext_def pool_defs tq_defs Let_def)
  have b: "promises b = [Some (Inl (Runtime_error ''Timer error: aborted'')), None]"
    by (simp add: b_def a asio_ops_def async_after_def asio_post_def asio_run_one_def
        fifo_timer_def fifo_post_def abort_run_def set_promise_def timer_outcome_def)
  have reg: "registered 0 asio_ops = [After 0 (Inr 42), Post 1 (Inl (User_exn ''x''))]"
    by (simp add: asio_ops_def)
  have calls: "asio_calls fifo_timer fifo_post abort_run asio_ops (fst asio_demo)
      = [(Some ''aborted'', After 0 (Inr 42))]"
    by (simp add: a asio_ops_def asio_call_def async_after_def asio_post_def fifo_timer_def
        fifo_post_def abort_run_def)
  note prom = asio_promises_correct [OF abort_contract _ asio_demo_run b_def]
  have "delivers (Some ''aborted'') (After 0 (Inr (42 :: nat)))
      (Inl (Runtime_error ''Timer error: aborted''))"
    using prom [of 0] b reg calls by simp
  moreover have "Post 1 (Inl (User_exn ''x'')) \<in># mset (io_ctx b) \<and>
      promises (asio_release b) ! 1 = Some broken_promise"
    using prom [of 1] b reg by simp
  ultimately show ?thesis
    using b b_def by blast
qed

text \<open>The only worker enters \<open>run()\<close>; a task submitted then never starts.\<close>

definition asio_enter :: "nat pool_action list" where
  "asio_enter = [Do_work 0, Do_work 0]"

definition asio_busy :: "nat pool_action list" where
  "asio_busy = [Do_submit (Call (Inr 5)), Do_notify 0, Do_notify 0, Do_shutdown, Do_continue]"

lemmas asio_eval = asio_demo_def AsioContext_def asio_enter_def asio_busy_def pool_defs tq_defs
  cv_wait_def Let_def

lemma asio_starves_pool_witness:
  "\<exists>p. run_schedule pool_act (asio_enter @ asio_busy) (snd asio_demo) = Some p \<and>
     length (jobs p) = 2 \<and> 1 \<notin> set (started p) \<and> results p 1 = None \<and> results p 0 = None"
proof -
  obtain p where p: "run_schedule pool_act (asio_enter @ asio_busy) (snd asio_demo) = Some p"
      "length (jobs p) = 2"
    and d: "length (jobs (snd asio_demo)) = 1" "io_futures (fst asio_demo) = [0]"
      "thread_count (ThreadPool 1 0 :: nat pool) = 1"
    by (simp add: asio_eval)
  have "7 \<notin> set (events (ThreadPool 1 0 :: nat pool))" by (simp add: pool_defs Let_def)
  from asio_starves_pool [OF reach.start [of pool_init, OF pool_init.intros] asio_demo_run _ this p(1)]
  have "(\<forall>t. 1 \<le> t \<longrightarrow> t \<notin> set (started p) \<and> results p t = None) \<and> results p 0 = None"
    using d by (simp add: asio_enter_def asio_busy_def)
  then show ?thesis using p by auto
qed

lemma asio_destructor_returns_witness:
  "\<exists>p2 p3 p4. run_schedule pool_act asio_enter (snd asio_demo) = Some p2 \<and>
     asio_stop (fst asio_demo) p2 = ((fst asio_demo)\<lparr>work_guard := False\<rparr>, p3) \<and>
     run_schedule pool_act (Do_notify 0 # replicate 3 (Do_work 0)) p3 = Some p4 \<and>
     asio_joined ((fst asio_demo)\<lparr>work_guard := False\<rparr>) p4"
proof -
  obtain p2 p3 p4 where p: "run_schedule pool_act asio_enter (snd asio_demo) = Some p2"
      "asio_stop (fst asio_demo) p2 = ((fst asio_demo)\<lparr>work_guard := False\<rparr>, p3)"
      "run_schedule pool_act (Do_notify 0 # replicate 3 (Do_work 0)) p3 = Some p4"
    and st: "jobs p2 = [Until 7 (Inr 0)]" "stop_event (fst asio_demo) = 7" "settled p2"
      "workers p4 = [Asleep]" "notify_due p4 = 0"
    by (simp add: asio_eval asio_stop_def signal_def settled_def eval_nat_numeral)
  have "\<forall>b. internal b \<longrightarrow> pool_act b p4 = None"
  proof (intro allI impI)
    fix b :: "nat pool_action"
    assume "internal b"
    then show "pool_act b p4 = None"
      using st(4,5)
      by (cases b) (auto simp: notify_one_def worker_step_def not_less_eq_eq split: worker.splits)
  qed
  moreover have "list_all internal (Do_notify 0 # replicate 3 (Do_work 0))"
    by (simp add: eval_nat_numeral)
  moreover have "d = stop_event (fst asio_demo) \<or> d \<in> set (events p2)"
    if "Until d r \<in> set (jobs p2)" for d r
    using that st(1,2) by simp
  ultimately have "asio_joined ((fst asio_demo)\<lparr>work_guard := False\<rparr>) p4"
    using asio_destructor_returns [OF reach.start [of pool_init, OF pool_init.intros] asio_demo_run
        p(1,2) _ st(3) _ p(3)] by blast
  then show ?thesis using p by blast
qed

end
