(* ===== verification/Spec2Isabelle.thy ===== *)
theory Spec2Isabelle
  imports Task Task_Queue Scheduler Blocking_Queue Lockfree_Seq Lockfree_Lin Lockfree_Weak Pool_Correct Async_Result Pipeline
    Logger_Correct Log_Format Coro_Task Coro_Ownership Engine_Progress Asio_Context
begin

text \<open>
  \<^bold>\<open>Async-Task-Engine\<close>: a C++23 library (\<open>src/include/ate\<close>, \<open>src/src\<close>) for running tasks on a pool of
  threads. This development models every component of the library and proves what makes it correct.

  \<^bold>\<open>The program and how its parts interact.\<close> \<open>ThreadPool\<close> owns worker threads that take callables from
  one \<open>TaskQueue\<close>; \<open>submit\<close> packages a callable with a future. \<open>AsyncResult\<close> wraps such a future and
  chains continuations, each a new task that waits for its predecessor; \<open>Pipeline\<close> collects stages
  and submits them as one task. \<open>CoroTask\<close> is a lazy coroutine that moves to the pool with
  \<open>co_await pool.schedule()\<close>, which submits its resumption. \<open>AsioContext\<close> lets tasks of the pool run a
  \<open>boost::asio\<close> event loop. Independent of the pool are \<open>PriorityScheduler\<close>, a blocking queue with four
  priorities, \<open>LockFreeQueue\<close>, a bounded ring of slots with atomic sequence numbers, \<open>Logger\<close>, with a
  thread of its own that hands batches of entries to a sink, and the unused type \<open>Task\<close>.

  \<^bold>\<open>Theories and sources.\<close>
  \<^item> \<open>Prelude\<close>: machine integers, exceptions, the condition-variable wait with a stop token,
    step-indexed reachability, the locales \<open>bounded_invariant\<close> and \<open>state_invariant\<close> that every
    step relation below interprets, \<open>refinement_map\<close> for a system whose states are mapped to those of
    another, schedules.
  \<^item> \<open>Task\<close> (\<open>task.hpp\<close>): priorities, the wrapper, its comparison.
  \<^item> \<open>Task_Queue\<close> (\<open>task_queue.hpp\<close>): \<open>push\<close>, \<open>try_pop\<close>, \<open>wait_and_pop\<close>, \<open>shutdown\<close> as critical
    sections on a record; the interface \<open>fifo_queue\<close>.
  \<^item> \<open>Scheduler\<close> (\<open>scheduler.hpp\<close>): the priority queue behind the interface \<open>max_queue\<close>, the
    operations, the specification without sequence numbers and the refinement of it.
  \<^item> \<open>Blocking_Queue\<close> (\<open>task_queue.hpp\<close>, \<open>scheduler.hpp\<close>): the monitor both queues are, with sleeping
    consumers and pending notifications; \<open>blocking_queue\<close> and \<open>fifo_monitor\<close> are its contracts.
  \<^item> \<open>Lockfree_Queue\<close> (\<open>lockfree_queue.hpp\<close>): the ring, one step per atomic access, the capacity
    rounding. \<open>Ticket_Ring\<close>: the protocol on unbounded tickets. \<open>Lockfree_Conc\<close>: any number of
    threads under sequential consistency. \<open>Lockfree_Lin\<close>: histories of calls and returns, and their
    linearizations. \<open>Lockfree_Weak\<close>: any number of threads with the memory
    orders of the code. \<open>Lockfree_Seq\<close>: one thread at a time, interface \<open>bounded_fifo\<close>.
  \<^item> \<open>Thread_Pool\<close> (\<open>thread_pool.hpp\<close>, \<open>thread_pool.cpp\<close>): workers with their control points, \<open>submit\<close>,
    notification, the three phases of \<open>shutdown\<close>. \<open>Pool_Invariant\<close>: the books of tasks and the
    synchronisation. \<open>Pool_Correct\<close>: what callers rely on.
  \<^item> \<open>Async_Result\<close> (\<open>async_result.hpp\<close>) and \<open>Pipeline\<close> (\<open>pipeline.hpp\<close>): futures, chains and pipelines on
    the pool; the closures the code builds are kept as data.
  \<^item> \<open>Logger\<close> (\<open>logger.hpp\<close>): clients, drain thread, flush generations, destructor. \<open>Logger_Correct\<close>: its
    invariant. \<open>Log_Format\<close>: the line the default sink prints.
  \<^item> \<open>Coro_Task\<close> (\<open>coro_task.hpp\<close>): frames, promises, awaiters, \<open>get\<close>, both for a value type and for
    \<open>void\<close>, one coroutine in every use. \<open>Coro_Ownership\<close>: task objects and the frames they own.
    \<open>Coro_Pool\<close>: many coroutines, clients, workers, timers and threads in \<open>run()\<close> at once, with a
    queue whose workers simply take what is queued. \<open>Coro_Progress\<close>: that every call of \<open>get\<close> returns.
    \<open>Coro_Engine\<close>: the same coroutines, and plain tasks, on the workers of \<open>Thread_Pool\<close>; the composed
    system is mapped to both, and inherits what was shown of either. \<open>Engine_Progress\<close>: it comes to rest
    with every call returned, every task complete and, after a shutdown, all workers gone.
  \<^item> \<open>Io_Context\<close> (\<open>asio_context.hpp\<close>): the \<open>io_context\<close> as a parameter with its contract, handlers,
    the awaiter of \<open>delay\<close>. \<open>Asio_Context\<close>: timers, posted handlers, the \<open>run()\<close> tasks in the pool and
    the destructor.

  \<^bold>\<open>What is shown.\<close> The queues deliver in order, exactly once, and forget no sleeping consumer; the
  scheduler refines "the oldest of the most urgent". The ring never touches a slot from two threads,
  never indexes out of range, loses and duplicates nothing, and its refusals are characterised: it is
  linearizable to a bounded queue whose refusals may be spurious while a call of the other kind is under
  way, and two schedules show that it is not linearizable without them. The pool starts
  tasks in order, its results do not depend on the schedule, it cannot deadlock, its shutdown loses
  nothing, and its work ends by a measure. Chains and pipelines compute the composition of their
  stages. A flush of the logger returns only after all earlier entries were written, and does
  return, unless the sink throws, which stops the logger for good. Coroutines are run by one thread at a
  time, every \<open>get\<close> returns the outcome of the body, also on sleeping workers and across a shutdown,
  frames have one owner. A coroutine in a delay whose context is stopped is the exception: it hangs for
  ever. The futures of the event loop are fulfilled once, as the error code of the call of
  their handler says; its destructor returns if nothing else blocks the pool; and a context with as many
  threads as the pool has workers starves it.

  \<^bold>\<open>Modelling choices and bounds.\<close> A critical section, an atomic access, or the body of a user
  callable is one step of an interleaving; threads are indices. The mutex-protected components need
  no more. The ring is modelled twice: under sequential consistency, for what its refusals mean and
  for progress, and in \<open>Lockfree_Weak\<close> with its memory orders, for the safety that rests on them:
  loads return any value ever stored (not even coherence is assumed, so the result covers C++ in
  this respect), release and acquire order accesses, and only loads from stores not yet made are
  left out. Integers are 64 bits wide. The ring's results hold for
  requests up to \<open>2 ^ 62\<close> slots and executions of up to \<open>2 ^ 62\<close> steps, which keeps its signed
  differences in range; the logger's for executions whose length fits its 64-bit generation counters;
  the scheduler's for fewer than \<open>2 ^ 64\<close> calls, which its sequence numbers number. Five steps are
  enough fuel for a call on the ring without interference, six from any state, and two more for
  every spurious failure of a compare-exchange; \<open>Lockfree_Seq\<close> leaves these failures out. Template parameters are
  one value type; a continuation is a function on it that may throw. \<open>std::future\<close>, \<open>std::promise\<close>,
  \<open>std::condition_variable_any\<close>, \<open>std::priority_queue\<close> and coroutine handles are modelled by their
  contract, with undefined uses as a value of their own. Notification and waking are separate
  steps, so lost wake-ups would show. The body of a coroutine is the tree of its suspension points;
  a task of the pool that resumes one blocks, for the pool alone, until the resumption returns. The
  conversion of a delay to the clock's ticks is on 64-bit durations; its overflow, which C++ leaves
  undefined, is a value of its own.

  \<^bold>\<open>Not modelled.\<close> Benchmarks and tests; writing to standard error; thread creation failures and
  memory exhaustion; destructors and moves the compiler generates, beyond those of coroutines and of \<open>AsyncResult\<close>;
  several threads inside \<open>ThreadPool::shutdown()\<close> at once; level values outside the enumeration, which
  the default sink prints as question marks; a \<open>CoroTask\<close> built by hand from a coroutine handle; the
  accessors \<open>schedule()\<close>, \<open>handle()\<close> and \<open>get_io_context()\<close>, which only pass a reference on. That nobody
  uses an \<open>AsioContext\<close> after its destruction is left to its clients.
  \<open>boost::asio\<close> is not part of the sources: its context is an argument of the definitions, and its
  documented behaviour is the hypothesis \<open>io_contract\<close>, with a concrete instance.
\<close>

end
